(* ===== verification/TS_Prelude.thy ===== *)
theory TS_Prelude
  imports Main "HOL-Library.Word" "HOL-Library.Multiset" "HOL-Library.While_Combinator"
    "HOL-Library.Signed_Division"
begin

text \<open>
  Shared vocabulary of the development: the machine types, the outcomes of C code that can
  fail, checked array access, \<^verbatim>\<open>memcpy\<close>, a loop combinator for loops that may run for ever, and
  the total-correctness predicate \<open>returns\<close> with its rules (collection \<open>wp\<close>).

  A computation of the C code has type \<open>'a res\<close>: \<open>Inr x\<close> is a normal return with value \<open>x\<close>,
  \<open>Inl f\<close> is one of the ways the process does not get that far.
\<close>

unbundle bit_operations_syntax

named_theorems wp \<open>weakest-precondition rules of the computation monad\<close>
named_theorems bits \<open>facts about masks, flags and powers of two on machine words\<close>

subsection \<open>Machine types and outcomes\<close>

text \<open>\<^verbatim>\<open>size_t\<close>, \<^verbatim>\<open>unsigned long long\<close> and pointers are 64 bits wide on the supported platform.\<close>

type_synonym size_t = "64 word"

text \<open>
  \<open>Fatal msg\<close>: \<^verbatim>\<open>threadscan_fatal\<close> was called (it prints \<open>msg\<close> and ends the process);
  \<open>Assert_failed\<close>: an \<^verbatim>\<open>assert\<close> of a debug build failed;
  \<open>Bad_access\<close>: a read or write outside every object, a null dereference included;
  \<open>Hang\<close>: a loop that never ends.
\<close>

datatype fault = Fatal string | Assert_failed | Bad_access | Hang

type_synonym 'a res = "fault + 'a"

definition bindE :: "'a res \<Rightarrow> ('a \<Rightarrow> 'b res) \<Rightarrow> 'b res" where
  "bindE m f = (case m of Inl e \<Rightarrow> Inl e | Inr x \<Rightarrow> f x)"

lemma bindE_simps [simp]:
  "bindE (Inl e) f = Inl e"
  "bindE (Inr x) f = f x"
  by (simp_all add: bindE_def)

lemma bindE_cong [fundef_cong]:
  assumes "m = m'" and "\<And>x. m' = Inr x \<Longrightarrow> f x = f' x"
  shows "bindE m f = bindE m' f'"
  using assms by (auto simp: bindE_def split: sum.splits)

lemma bindE_Inr_iff: "bindE m f = Inr y \<longleftrightarrow> (\<exists>x. m = Inr x \<and> f x = Inr y)"
  by (cases m) auto

lemma bindE_assoc: "bindE (bindE m f) g = bindE m (\<lambda>x. bindE (f x) g)"
  by (cases m) auto

text \<open>\<^verbatim>\<open>assert\<close>: active in a debug build (\<open>dbg\<close>, no \<^verbatim>\<open>-DNDEBUG\<close>), absent otherwise.\<close>

definition c_assert :: "bool \<Rightarrow> bool \<Rightarrow> unit res" where
  "c_assert dbg P = (if dbg \<and> \<not> P then Inl Assert_failed else Inr ())"

subsection \<open>Total correctness\<close>

text \<open>\<open>returns m P\<close>: the computation returns normally, and its value satisfies \<open>P\<close>.\<close>

definition returns :: "'a res \<Rightarrow> ('a \<Rightarrow> bool) \<Rightarrow> bool" where
  "returns m P = (case m of Inl e \<Rightarrow> False | Inr x \<Rightarrow> P x)"

lemma returns_Inr [simp, wp]: "returns (Inr x) P = P x"
  by (simp add: returns_def)

lemma returns_Inl [simp, wp]: "returns (Inl e) P = False"
  by (simp add: returns_def)

lemma returns_bindE [wp]: "returns (bindE m f) P = returns m (\<lambda>x. returns (f x) P)"
  by (cases m) auto

lemma returns_if [wp]:
  "returns (if b then m else m') P = (if b then returns m P else returns m' P)"
  by simp

lemma returns_c_assert [wp]: "returns (c_assert dbg Q) P = ((dbg \<longrightarrow> Q) \<and> P ())"
  by (simp add: c_assert_def)

lemma returns_mono: "returns m P \<Longrightarrow> (\<And>x. P x \<Longrightarrow> Q x) \<Longrightarrow> returns m Q"
  by (cases m) auto

lemma returns_conj: "returns m P \<Longrightarrow> returns m Q \<Longrightarrow> returns m (\<lambda>x. P x \<and> Q x)"
  by (cases m) auto

lemma returnsE:
  assumes "returns m P"
  obtains x where "m = Inr x" and "P x"
  using assms by (cases m) auto

lemma returns_iff: "returns m P \<longleftrightarrow> (\<exists>x. m = Inr x \<and> P x)"
  by (cases m) auto

lemma returns_bindI:
  assumes "returns m P" and "\<And>x. P x \<Longrightarrow> returns (f x) Q"
  shows "returns (bindE m f) Q"
  using assms by (cases m) auto

subsection \<open>Arrays\<close>

text \<open>
  An array is the list of its elements. C indexes with \<^verbatim>\<open>int\<close>, so an index may be negative;
  an access outside the array is a fault.
\<close>

definition rd :: "'a list \<Rightarrow> int \<Rightarrow> 'a res" where
  "rd a i = (if 0 \<le> i \<and> i < int (length a) then Inr (a ! nat i) else Inl Bad_access)"

definition wr :: "'a list \<Rightarrow> int \<Rightarrow> 'a \<Rightarrow> 'a list res" where
  "wr a i v = (if 0 \<le> i \<and> i < int (length a) then Inr (a[nat i := v]) else Inl Bad_access)"

definition in_array :: "'a list \<Rightarrow> int \<Rightarrow> bool" where
  "in_array a i \<longleftrightarrow> 0 \<le> i \<and> i < int (length a)"

lemma rd_ok [simp]: "0 \<le> i \<Longrightarrow> i < int (length a) \<Longrightarrow> rd a i = Inr (a ! nat i)"
  by (simp add: rd_def)

lemma wr_ok [simp]: "0 \<le> i \<Longrightarrow> i < int (length a) \<Longrightarrow> wr a i v = Inr (a[nat i := v])"
  by (simp add: wr_def)

lemma returns_rd [wp]:
  "returns (rd a i) P \<longleftrightarrow> 0 \<le> i \<and> i < int (length a) \<and> P (a ! nat i)"
  by (auto simp: rd_def)

lemma returns_wr [wp]:
  "returns (wr a i v) P \<longleftrightarrow> 0 \<le> i \<and> i < int (length a) \<and> P (a[nat i := v])"
  by (auto simp: wr_def)

lemma wr_length: "wr a i v = Inr a' \<Longrightarrow> length a' = length a"
  by (auto simp: wr_def split: if_splits)

text \<open>
  \<^verbatim>\<open>memcpy(&dst[d], &src[s], n * sizeof *src)\<close> on two different arrays; a copy of no element
  touches nothing.
\<close>

definition memcpy :: "'a list \<Rightarrow> nat \<Rightarrow> 'a list \<Rightarrow> nat \<Rightarrow> nat \<Rightarrow> 'a list res" where
  "memcpy dst d src s n =
     (if n = 0 then Inr dst
      else if d + n \<le> length dst \<and> s + n \<le> length src
      then Inr (take d dst @ take n (drop s src) @ drop (d + n) dst)
      else Inl Bad_access)"

lemma returns_memcpyI:
  assumes "d + n \<le> length dst" and "s + n \<le> length src"
    and "P (take d dst @ take n (drop s src) @ drop (d + n) dst)"
  shows "returns (memcpy dst d src s n) P"
  using assms by (auto simp: memcpy_def)

lemma memcpy_ok:
  "d + n \<le> length dst \<Longrightarrow> s + n \<le> length src \<Longrightarrow>
   memcpy dst d src s n = Inr (take d dst @ take n (drop s src) @ drop (d + n) dst)"
  by (auto simp: memcpy_def)

subsection \<open>Loops that may not end\<close>

text \<open>
  \<open>loopE body s\<close> runs \<open>body\<close> from state \<open>s\<close>: \<open>Inr (Inl s')\<close> goes round again with \<open>s'\<close>,
  \<open>Inr (Inr r)\<close> leaves the loop with result \<open>r\<close>, a fault ends it. A run that goes round for ever
  is \<open>Hang\<close>.
\<close>

definition loop_going :: "('s + 'r) res \<Rightarrow> bool" where
  "loop_going x = (case x of Inr (Inl s) \<Rightarrow> True | _ \<Rightarrow> False)"

definition loop_next :: "('s \<Rightarrow> ('s + 'r) res) \<Rightarrow> ('s + 'r) res \<Rightarrow> ('s + 'r) res" where
  "loop_next body x = (case x of Inr (Inl s) \<Rightarrow> body s | _ \<Rightarrow> x)"

definition loop_result :: "('s + 'r) res option \<Rightarrow> 'r res" where
  "loop_result x =
     (case x of Some (Inl e) \<Rightarrow> Inl e | Some (Inr (Inr r)) \<Rightarrow> Inr r | _ \<Rightarrow> Inl Hang)"

definition loopE :: "('s \<Rightarrow> ('s + 'r) res) \<Rightarrow> 's \<Rightarrow> 'r res" where
  "loopE body s = loop_result (while_option loop_going (loop_next body) (Inr (Inl s)))"

lemma while_option_loop_stop:
  "\<not> loop_going x \<Longrightarrow> while_option loop_going f x = Some x"
  by (simp add: while_option_unfold)

lemma loopE_unfold:
  "loopE body s =
     (case body s of Inl e \<Rightarrow> Inl e | Inr (Inl s') \<Rightarrow> loopE body s' | Inr (Inr r) \<Rightarrow> Inr r)"
proof -
  have step: "while_option loop_going (loop_next body) (Inr (Inl s)) =
      while_option loop_going (loop_next body) (body s)"
    by (subst while_option_unfold) (simp add: loop_going_def loop_next_def)
  show ?thesis
  proof (cases "body s")
    case (Inl e)
    then show ?thesis
      by (simp add: loopE_def step while_option_loop_stop loop_going_def loop_result_def)
  next
    case (Inr y)
    then show ?thesis
      by (cases y)
         (simp_all add: loopE_def step while_option_loop_stop loop_going_def loop_result_def)
  qed
qed

text \<open>Total correctness of a loop: an invariant and a measure that each round decreases.\<close>

lemma loopE_returns:
  assumes inv: "I s"
    and body: "\<And>s. I s \<Longrightarrow>
      returns (body s) (\<lambda>y. case y of Inl s' \<Rightarrow> I s' \<and> (m s' :: nat) < m s | Inr r \<Rightarrow> Q r)"
  shows "returns (loopE body s) Q"
  using inv
proof (induction "m s" arbitrary: s rule: less_induct)
  case less
  from body [OF less.prems] obtain y where y: "body s = Inr y"
    and post: "case y of Inl s' \<Rightarrow> I s' \<and> m s' < m s | Inr r \<Rightarrow> Q r"
    by (rule returnsE)
  show ?case
  proof (cases y)
    case (Inl s')
    with post have "returns (loopE body s') Q" by (auto intro: less.hyps)
    with y Inl show ?thesis by (subst loopE_unfold) simp
  next
    case (Inr r)
    with y post show ?thesis by (subst loopE_unfold) simp
  qed
qed

text \<open>A loop in which every round that goes on decreases a measure does not hang.\<close>

lemma loopE_ends:
  assumes "\<And>s. body s \<noteq> Inl Hang" and "\<And>s s'. body s = Inr (Inl s') \<Longrightarrow> (m s' :: nat) < m s"
  shows "loopE body s \<noteq> Inl Hang"
proof (induction "m s" arbitrary: s rule: less_induct)
  case less
  then show ?case
    using assms(1) [of s] assms(2) [of s] by (subst loopE_unfold) (auto split: sum.split)
qed

text \<open>A loop whose invariant never lets it leave hangs.\<close>

lemma loopE_hangs:
  assumes "I s" and "\<And>s. I s \<Longrightarrow> \<exists>s'. body s = Inr (Inl s') \<and> I s'"
  shows "loopE body s = Inl Hang"
proof (cases "while_option loop_going (loop_next body) (Inr (Inl s))")
  case None
  then show ?thesis by (simp add: loopE_def loop_result_def)
next
  case (Some t)
  let ?J = "\<lambda>x. \<exists>s. x = Inr (Inl s) \<and> I s"
  have "?J t"
    by (rule while_option_rule [where P = ?J, OF _ Some])
       (use assms in \<open>auto simp: loop_next_def\<close>)
  with while_option_stop [OF Some] show ?thesis by (auto simp: loop_going_def)
qed

subsection \<open>Singly linked lists\<close>

text \<open>\<open>path nx p xs\<close>: following \<open>nx\<close> from \<open>p\<close> visits the nodes \<open>xs\<close> and ends at the null pointer.\<close>

fun path :: "(size_t \<Rightarrow> size_t option) \<Rightarrow> size_t \<Rightarrow> size_t list \<Rightarrow> bool" where
  "path nx p [] \<longleftrightarrow> p = 0"
| "path nx p (x # xs) \<longleftrightarrow> p = x \<and> x \<noteq> 0 \<and> (\<exists>q. nx x = Some q \<and> path nx q xs)"

lemma path_cong: "path nx p xs \<Longrightarrow> (\<And>x. x \<in> set xs \<Longrightarrow> nx' x = nx x) \<Longrightarrow> path nx' p xs"
  by (induction nx p xs rule: path.induct) auto

lemma path_SomeD: "path nx p xs \<Longrightarrow> x \<in> set xs \<Longrightarrow> \<exists>q. nx x = Some q"
  by (induction nx p xs rule: path.induct) auto

lemma path_nonzero: "path nx p xs \<Longrightarrow> 0 \<notin> set xs"
  by (induction nx p xs rule: path.induct) auto

lemma path_0: "path nx 0 xs \<longleftrightarrow> xs = []"
  by (cases xs) auto

lemma path_ne: "p \<noteq> 0 \<Longrightarrow> path nx p xs \<Longrightarrow> \<exists>ys. xs = p # ys"
  by (cases xs) auto

lemma path_unique: "path nx p xs \<Longrightarrow> path nx p ys \<Longrightarrow> xs = ys"
proof (induction nx p xs arbitrary: ys rule: path.induct)
  case (2 nx p x xs)
  then show ?case by (cases ys) auto
qed (simp add: path_0)

text \<open>Redirecting the pointer of a node of a path whose nodes are distinct.\<close>

lemma path_split: "path nx p (us @ x # vs) \<Longrightarrow> \<exists>q. nx x = Some q \<and> path nx q vs"
  by (induction us arbitrary: p) auto

lemma path_update:
  assumes "path nx p (us @ x # vs)" and "distinct (us @ x # vs)" and "path nx' q ws"
    and "nx' x = Some q" and "\<And>u. u \<in> set us \<Longrightarrow> nx' u = nx u"
  shows "path nx' p (us @ x # ws)"
  using assms
proof (induction us arbitrary: p)
  case (Cons u us)
  then obtain q' where "p = u" "u \<noteq> 0" "nx u = Some q'" "path nx q' (us @ x # vs)" by auto
  moreover have "path nx' q' (us @ x # ws)"
    using Cons.prems calculation(4) by (intro Cons.IH) auto
  ultimately show ?case using Cons.prems(5) by simp
qed auto

lemma path_unlink:
  assumes p: "path nx p (us @ u # x # vs)" and d: "distinct (us @ u # x # vs)" and q: "nx x = Some q"
    and u: "nx' u = Some q" and same: "\<And>y. y \<noteq> u \<Longrightarrow> nx' y = nx y"
  shows "path nx' p (us @ u # vs)"
proof (rule path_update [where x = u and vs = "x # vs" and us = us and nx' = nx' and q = q, OF p d _ u])
  have "path nx p ((us @ [u]) @ x # vs)" using p by simp
  from path_split [OF this] have "path nx q vs" using q by auto
  moreover have "nx' y = nx y" if "y \<in> set vs \<union> set us" for y using d that by (intro same) auto
  ultimately show "path nx' q vs" by (elim path_cong) simp
  show "nx' y = nx y" if "y \<in> set us" for y using d that by (intro same) auto
qed

text \<open>A computation run for each element of a list in turn.\<close>

fun foldE :: "('a \<Rightarrow> 's \<Rightarrow> 's res) \<Rightarrow> 'a list \<Rightarrow> 's \<Rightarrow> 's res" where
  "foldE f [] s = Inr s"
| "foldE f (x # xs) s = bindE (f x s) (foldE f xs)"

lemma foldE_returns:
  assumes "I [] s" and "\<And>us x vs s. xs = us @ x # vs \<Longrightarrow> I us s \<Longrightarrow> returns (f x s) (I (us @ [x]))"
  shows "returns (foldE f xs s) (I xs)"
proof -
  have "returns (foldE f vs s) (I xs)" if "xs = us @ vs" "I us s" for us vs s
    using that
  proof (induction vs arbitrary: us s)
    case (Cons x vs)
    have "returns (f x s) (I (us @ [x]))" using assms(2) Cons.prems by blast
    then obtain s' where "f x s = Inr s'" "I (us @ [x]) s'" by (rule returnsE)
    then show ?case using Cons.IH [of "us @ [x]" s'] Cons.prems by simp
  qed simp
  then show ?thesis using assms(1) by fastforce
qed

subsection \<open>Lists\<close>

lemma mset_swap_nth:
  "i < length xs \<Longrightarrow> j < length xs \<Longrightarrow> mset (xs[i := xs ! j, j := xs ! i]) = mset xs"
  by (rule mset_swap)

lemma mset_rotate: "mset (rotate n xs) = mset xs"
proof (induction n)
  case (Suc n)
  then show ?case by (cases "rotate n xs") auto
qed simp

lemma sorted_wrt_less_nth: "sorted_wrt (<) xs \<longleftrightarrow> (\<forall>i j. i < j \<longrightarrow> j < length xs \<longrightarrow> xs ! i < xs ! j)"
  by (simp add: sorted_wrt_iff_nth_less)

lemma distinct_filter_nth:
  "distinct (filter P xs) \<Longrightarrow> i < j \<Longrightarrow> j < length xs \<Longrightarrow> P (xs ! i) \<Longrightarrow> xs ! i \<noteq> xs ! j"
proof (induction xs arbitrary: i j)
  case (Cons x xs)
  then show ?case
    by (cases i; cases j) (auto split: if_splits)
qed simp

lemma image_minus_one: "f ` {x \<in> A. P x \<and> f x \<noteq> y} = f ` {x \<in> A. P x} - {y}"
  by blast

lemma butlast_not_last: "distinct xs \<Longrightarrow> y \<in> set (butlast xs) \<Longrightarrow> y \<noteq> last xs"
  by (cases xs rule: rev_cases) auto

lemma add_mod_inj:
  assumes "(T + j) mod N = (T + l) mod N" and "j < N" and "l < N"
  shows "j = (l :: nat)"
  using assms
proof (induction j l rule: linorder_wlog)
  case (le j l)
  then have "N dvd (T + l) - (T + j)" using mod_eq_dvd_iff_nat [of "T + j" "T + l" N] by simp
  with le show ?case by (auto dest: dvd_imp_le)
qed simp

lemma rotate_cong_mod: "m mod length xs = n mod length xs \<Longrightarrow> rotate m xs = rotate n xs"
  by (metis rotate_conv_mod)

subsection \<open>Words\<close>

lemma word_and_pow2_minus_1 [bits]:
  "k < 64 \<Longrightarrow> unat (x AND (2 ^ k - 1 :: size_t)) = unat x mod 2 ^ k"
  by (metis mask_eq_exp_minus_1 take_bit_eq_mask take_bit_eq_mod unsigned_take_bit_eq)

lemma unat_succ_less: "i < n \<Longrightarrow> unat (i + 1) = unat i + 1" for i n :: "'a::len word"
  by unat_arith

lemma uint_less_iff_unat: "uint w < k \<longleftrightarrow> 0 < k \<and> unat w < nat k" for w :: "'a::len word"
  using order.strict_trans1 [OF uint_ge_0 [of w], of k] by (auto simp: zless_nat_eq_int_zless)

lemma sint_small_32:
  fixes w :: "32 word"
  assumes "unat w < 2 ^ 31"
  shows "sint w = uint w"
proof -
  have "uint w < 2 ^ 31" using assms by (simp add: uint_less_iff_unat)
  moreover have "- (2 ^ 31) \<le> uint w" by (rule order_trans [OF _ uint_ge_0]) simp
  ultimately show ?thesis unfolding sint_uint by (intro signed_take_bit_int_eq_self) simp_all
qed

text \<open>Clearing the low \<open>n\<close> bits rounds down to a multiple of \<open>2 ^ n\<close>.\<close>

lemma unat_and_not_mask [bits]:
  "unat (v AND NOT (mask n)) = unat v div 2 ^ n * 2 ^ n" for v :: "'a::len word"
proof -
  have "v AND NOT (mask n) = push_bit n (drop_bit n v)"
    by (rule bit_eqI) (auto simp: bit_simps)
  then have "(v AND NOT (mask n)) + take_bit n v = v" by (simp add: bits_ident)
  then have v: "v AND NOT (mask n) = v - take_bit n v" by (simp add: eq_diff_eq)
  have t: "unat (take_bit n v) = unat v mod 2 ^ n"
    by (subst unsigned_take_bit_eq) (rule take_bit_eq_mod)
  have "take_bit n v \<le> v" unfolding word_le_nat_alt t by simp
  then have "unat (v - take_bit n v) = unat v - unat v mod 2 ^ n"
    using t by (simp add: unat_sub)
  then show ?thesis by (simp add: v minus_mod_eq_div_mult)
qed

lemma unat_less_2p64: "unat (x :: size_t) < 2 ^ 64"
proof -
  have "unat x < 2 ^ LENGTH(64)" by (rule unsigned_less)
  then show ?thesis by simp
qed

lemma unat_pow2: "k < 64 \<Longrightarrow> unat (2 ^ k :: size_t) = 2 ^ k"
  using of_nat_inverse [of "2 ^ k" "2 ^ k :: size_t"] power_strict_increasing [of k 64 "2 :: nat"]
  by simp

lemma word_and_1_iff [bits]: "v AND 1 = 0 \<longleftrightarrow> even (unat v)" for v :: size_t
  by (simp add: and_one_eq word_unat_eq_iff unat_mod_distrib even_iff_mod_2_eq_zero)

end
