(* ===== verification/TS_Sort.thy ===== *)
theory TS_Sort
  imports TS_Prelude
begin

text \<open>
  The sort utility of \<^verbatim>\<open>util.c\<close>: \<^verbatim>\<open>swap\<close>, \<^verbatim>\<open>partition\<close>, \<^verbatim>\<open>insertion_sort\<close>, \<^verbatim>\<open>quicksort\<close>,
  \<^verbatim>\<open>threadscan_util_sort\<close> and \<^verbatim>\<open>threadscan_util_randomize\<close>. All of them work in place on an array
  of addresses; the model returns the new array. Indices are C \<^verbatim>\<open>int\<close>s (the quicksort recursion
  passes \<open>-1\<close>), except in \<^verbatim>\<open>threadscan_util_randomize\<close>, whose index arithmetic wraps at 32 bits.
\<close>

subsection \<open>Operations\<close>

definition swap_addrs :: "size_t list \<Rightarrow> int \<Rightarrow> int \<Rightarrow> size_t list res" where
  "swap_addrs addrs n m =
     bindE (rd addrs n) (\<lambda>addr.
     bindE (rd addrs m) (\<lambda>v.
     bindE (wr addrs n v) (\<lambda>addrs.
     wr addrs m addr)))"

text \<open>The loop of \<^verbatim>\<open>partition\<close>: \<open>i\<close> runs from \<open>min\<close> to \<open>max\<close>, small elements are swapped to \<open>mid\<close>.\<close>

function partition_loop ::
  "size_t \<Rightarrow> int \<Rightarrow> size_t list \<Rightarrow> int \<Rightarrow> int \<Rightarrow> (size_t list \<times> int) res" where
  "partition_loop pivot_val mx addrs i mid =
     (if i < mx then
        bindE (rd addrs i) (\<lambda>v.
        if v \<le> pivot_val then
          bindE (swap_addrs addrs i mid) (\<lambda>addrs.
          partition_loop pivot_val mx addrs (i + 1) (mid + 1))
        else partition_loop pivot_val mx addrs (i + 1) mid)
      else Inr (addrs, mid))"
  by pat_completeness auto
termination
  by (relation "measure (\<lambda>(_, mx, _, i, _). nat (mx - i))") auto

declare partition_loop.simps [simp del]

definition partition_addrs :: "size_t list \<Rightarrow> int \<Rightarrow> int \<Rightarrow> (size_t list \<times> int) res" where
  "partition_addrs addrs mn mx =
     (let pivot = (mx + mn) sdiv 2 in
      bindE (rd addrs pivot) (\<lambda>pivot_val.
      bindE (swap_addrs addrs pivot mx) (\<lambda>addrs.
      bindE (partition_loop pivot_val mx addrs mn mn) (\<lambda>(addrs, mid).
      bindE (swap_addrs addrs mid mx) (\<lambda>addrs.
      Inr (addrs, mid))))))"

text \<open>The inner loop of \<^verbatim>\<open>insertion_sort\<close>: it stops at index 0, not at \<open>min\<close>.\<close>

function insertion_inner :: "size_t list \<Rightarrow> int \<Rightarrow> size_t list res" where
  "insertion_inner addrs j =
     (if j > 0 then
        bindE (rd addrs (j - 1)) (\<lambda>u.
        bindE (rd addrs j) (\<lambda>v.
        if u > v then
          bindE (swap_addrs addrs j (j - 1)) (\<lambda>addrs. insertion_inner addrs (j - 1))
        else Inr addrs))
      else Inr addrs)"
  by pat_completeness auto
termination
  by (relation "measure (\<lambda>(_, j). nat j)") auto

declare insertion_inner.simps [simp del]

function insertion_outer :: "int \<Rightarrow> size_t list \<Rightarrow> int \<Rightarrow> size_t list res" where
  "insertion_outer mx addrs i =
     (if i \<le> mx then
        bindE (insertion_inner addrs i) (\<lambda>addrs. insertion_outer mx addrs (i + 1))
      else Inr addrs)"
  by pat_completeness auto
termination
  by (relation "measure (\<lambda>(mx, _, i). nat (mx + 1 - i))") auto

declare insertion_outer.simps [simp del]

definition insertion_sort :: "size_t list \<Rightarrow> int \<Rightarrow> int \<Rightarrow> size_t list res" where
  "insertion_sort addrs mn mx = insertion_outer mx addrs (mn + 1)"

definition SORT_THRESHOLD :: int where
  "SORT_THRESHOLD = 16"

text \<open>The recursion of \<^verbatim>\<open>quicksort\<close> ends because the pivot lands inside the range.\<close>

lemma partition_loop_mid:
  "partition_loop pv mx addrs i mid = Inr (addrs', mid') \<Longrightarrow> i \<le> mx \<Longrightarrow>
   mid \<le> mid' \<and> mid' \<le> mid + (mx - i)"
proof (induction pv mx addrs i mid arbitrary: addrs' mid' rule: partition_loop.induct)
  case (1 pv mx addrs i mid)
  show ?case
  proof (cases "i < mx")
    case True
    with "1.prems"(1) obtain v where v: "rd addrs i = Inr v"
      by (auto simp: partition_loop.simps [of pv mx addrs i mid] bindE_Inr_iff)
    show ?thesis
    proof (cases "v \<le> pv")
      case le: True
      with "1.prems"(1) True v obtain addrs1 where s: "swap_addrs addrs i mid = Inr addrs1"
        and r: "partition_loop pv mx addrs1 (i + 1) (mid + 1) = Inr (addrs', mid')"
        by (auto simp: partition_loop.simps [of pv mx addrs i mid] bindE_Inr_iff)
      from "1.IH"(1) [OF True v le s r] True show ?thesis by simp
    next
      case gt: False
      with "1.prems"(1) True v have r: "partition_loop pv mx addrs (i + 1) mid = Inr (addrs', mid')"
        by (auto simp: partition_loop.simps [of pv mx addrs i mid])
      from "1.IH"(2) [OF True v gt r] True show ?thesis by simp
    qed
  next
    case False
    with "1.prems" show ?thesis
      by (simp add: partition_loop.simps [of pv mx addrs i mid])
  qed
qed

lemma partition_addrs_mid:
  "partition_addrs addrs mn mx = Inr (addrs', mid) \<Longrightarrow> mn \<le> mx \<Longrightarrow> mn \<le> mid \<and> mid \<le> mx"
  by (fastforce simp: partition_addrs_def bindE_Inr_iff Let_def dest: partition_loop_mid)

function quicksort :: "size_t list \<Rightarrow> int \<Rightarrow> int \<Rightarrow> size_t list res" where
  "quicksort addrs mn mx =
     (if mx - mn > SORT_THRESHOLD then
        bindE (partition_addrs addrs mn mx) (\<lambda>(addrs, mid).
        bindE (quicksort addrs mn (mid - 1)) (\<lambda>addrs.
        quicksort addrs (mid + 1) mx))
      else insertion_sort addrs mn mx)"
  by pat_completeness auto
termination
  by (relation "measure (\<lambda>(_, mn, mx). nat (mx - mn))")
     (auto simp: SORT_THRESHOLD_def dest!: partition_addrs_mid)

declare quicksort.simps [simp del]

definition threadscan_util_sort :: "size_t list \<Rightarrow> int \<Rightarrow> size_t list res" where
  "threadscan_util_sort a len = quicksort a 0 (len - 1)"

text \<open>
  \<^verbatim>\<open>threadscan_util_randomize\<close>: \<open>i\<close> and \<open>tmp\<close> are \<^verbatim>\<open>unsigned int\<close>, the product wraps, and both are
  converted to \<^verbatim>\<open>int\<close> when they are passed to \<^verbatim>\<open>swap\<close>.
\<close>

function randomize_loop :: "32 word \<Rightarrow> size_t list \<Rightarrow> 32 word \<Rightarrow> size_t list res" where
  "randomize_loop n addrs i =
     (if i < n then
        let tmp = (i * 2147483647) mod n in
        bindE (if i \<noteq> tmp then swap_addrs addrs (sint i) (sint tmp) else Inr addrs)
          (\<lambda>addrs. randomize_loop n addrs (i + 1))
      else Inr addrs)"
  by pat_completeness auto
termination
proof (relation "measure (\<lambda>(n, _, i). unat n - unat i)", goal_cases)
  case (2 n addrs i)
  then show ?case by (simp add: unat_succ_less word_less_nat_alt)
qed simp

declare randomize_loop.simps [simp del]

definition threadscan_util_randomize :: "size_t list \<Rightarrow> int \<Rightarrow> size_t list res" where
  "threadscan_util_randomize addrs n = randomize_loop (word_of_int n) addrs 0"

subsection \<open>Rearranging a range of an array\<close>

text \<open>
  \<open>rearr lo hi a b\<close>: \<open>b\<close> is \<open>a\<close> with the elements at \<open>lo\<close>, \<dots>, \<open>hi\<close> permuted. Every operation of
  the sort is such a rearrangement of its range.
\<close>

definition rearr :: "int \<Rightarrow> int \<Rightarrow> size_t list \<Rightarrow> size_t list \<Rightarrow> bool" where
  "rearr lo hi a b \<longleftrightarrow>
     length b = length a \<and> mset b = mset a \<and>
     (\<forall>k. in_array a k \<and> (k < lo \<or> hi < k) \<longrightarrow> b ! nat k = a ! nat k) \<and>
     (\<forall>k. in_array a k \<and> lo \<le> k \<and> k \<le> hi \<longrightarrow>
        (\<exists>k'. in_array a k' \<and> lo \<le> k' \<and> k' \<le> hi \<and> b ! nat k = a ! nat k'))"

lemma rearr_refl [simp, intro]: "rearr lo hi a a"
  by (auto simp: rearr_def)

lemma rearr_length: "rearr lo hi a b \<Longrightarrow> length b = length a"
  by (simp add: rearr_def)

lemma rearr_mset: "rearr lo hi a b \<Longrightarrow> mset b = mset a"
  by (simp add: rearr_def)

lemma rearr_in_array: "rearr lo hi a b \<Longrightarrow> in_array b k \<longleftrightarrow> in_array a k"
  by (simp add: rearr_def in_array_def)

lemma rearr_outside:
  "rearr lo hi a b \<Longrightarrow> in_array a k \<Longrightarrow> k < lo \<or> hi < k \<Longrightarrow> b ! nat k = a ! nat k"
  by (simp add: rearr_def)

lemma rearr_inside:
  assumes "rearr lo hi a b" and "in_array a k" and "lo \<le> k" and "k \<le> hi"
  obtains k' where "in_array a k'" "lo \<le> k'" "k' \<le> hi" "b ! nat k = a ! nat k'"
  using assms by (auto simp: rearr_def)

text \<open>A bound on the elements of the range survives the rearrangement.\<close>

lemma rearr_all:
  assumes "rearr lo hi a b" and "\<And>k. in_array a k \<Longrightarrow> lo \<le> k \<Longrightarrow> k \<le> hi \<Longrightarrow> P (a ! nat k)"
    and "in_array a k" and "lo \<le> k" and "k \<le> hi"
  shows "P (b ! nat k)"
  using assms by (metis rearr_inside)

lemma rearr_trans:
  assumes ab: "rearr lo hi a b" and bc: "rearr lo hi b c"
  shows "rearr lo hi a c"
  unfolding rearr_def
proof (intro conjI allI impI)
  show "length c = length a" "mset c = mset a"
    using ab bc by (simp_all add: rearr_def)
  fix k
  show "c ! nat k = a ! nat k" if "in_array a k \<and> (k < lo \<or> hi < k)"
    using that rearr_outside [OF ab, of k] rearr_outside [OF bc, of k] rearr_in_array [OF ab]
    by auto
  show "\<exists>k'. in_array a k' \<and> lo \<le> k' \<and> k' \<le> hi \<and> c ! nat k = a ! nat k'"
    if k: "in_array a k \<and> lo \<le> k \<and> k \<le> hi"
  proof -
    from k rearr_in_array [OF ab] obtain j where "in_array b j" "lo \<le> j" "j \<le> hi"
      "c ! nat k = b ! nat j" by (metis rearr_inside [OF bc])
    then show ?thesis by (metis rearr_inside [OF ab] rearr_in_array [OF ab])
  qed
qed

lemma rearr_weaken:
  assumes r: "rearr lo hi a b" and "lo' \<le> lo" and "hi \<le> hi'"
  shows "rearr lo' hi' a b"
  unfolding rearr_def
proof (intro conjI allI impI)
  show "length b = length a" "mset b = mset a"
    using r by (simp_all add: rearr_def)
  fix k
  show "b ! nat k = a ! nat k" if "in_array a k \<and> (k < lo' \<or> hi' < k)"
    using that assms(2,3) by (auto intro: rearr_outside [OF r])
  show "\<exists>k'. in_array a k' \<and> lo' \<le> k' \<and> k' \<le> hi' \<and> b ! nat k = a ! nat k'"
    if k: "in_array a k \<and> lo' \<le> k \<and> k \<le> hi'"
  proof (cases "lo \<le> k \<and> k \<le> hi")
    case True
    with k obtain k' where "in_array a k'" "lo \<le> k'" "k' \<le> hi" "b ! nat k = a ! nat k'"
      by (metis rearr_inside [OF r])
    with assms(2,3) show ?thesis by (auto intro!: exI [of _ k'])
  next
    case False
    with k have "b ! nat k = a ! nat k" by (auto intro: rearr_outside [OF r])
    with k show ?thesis by blast
  qed
qed

lemma swap_addrs_ok:
  assumes "in_array a n" and "in_array a m"
  shows "swap_addrs a n m = Inr (a[nat n := a ! nat m, nat m := a ! nat n])"
  using assms by (simp add: swap_addrs_def in_array_def)

text \<open>The element at each index after a swap of \<open>n\<close> and \<open>m\<close>.\<close>

lemma swapped_nth:
  assumes "in_array a n" and "in_array a m" and "in_array a k"
  shows "a[nat n := a ! nat m, nat m := a ! nat n] ! nat k =
    (if k = m then a ! nat n else if k = n then a ! nat m else a ! nat k)"
  using assms by (auto simp: in_array_def nth_list_update nat_eq_iff)

lemma rearr_swap:
  assumes "in_array a n" and "in_array a m"
    and "lo \<le> n" "n \<le> hi" "lo \<le> m" "m \<le> hi"
  shows "rearr lo hi a (a[nat n := a ! nat m, nat m := a ! nat n])"
proof -
  have "nat n < length a" "nat m < length a" using assms(1,2) by (auto simp: in_array_def)
  then show ?thesis
    unfolding rearr_def
    using assms by (auto simp: swapped_nth mset_swap_nth)
qed

lemma returns_swap_addrs:
  assumes "in_array a n" and "in_array a m"
    and "lo \<le> n" "n \<le> hi" "lo \<le> m" "m \<le> hi"
    and "rearr lo hi a (a[nat n := a ! nat m, nat m := a ! nat n]) \<Longrightarrow>
         P (a[nat n := a ! nat m, nat m := a ! nat n])"
  shows "returns (swap_addrs a n m) P"
  using assms rearr_swap [OF assms(1-6)] by (simp add: swap_addrs_ok)

subsection \<open>Partition\<close>

lemma partition_loop_correct:
  assumes "0 \<le> lo" "lo \<le> mid" "mid \<le> i" "i \<le> mx" "mx < int (length a)"
    and "\<And>k. lo \<le> k \<Longrightarrow> k < mid \<Longrightarrow> a ! nat k \<le> pv"
    and "\<And>k. mid \<le> k \<Longrightarrow> k < i \<Longrightarrow> pv < a ! nat k"
  shows "returns (partition_loop pv mx a i mid) (\<lambda>(b, m).
    rearr lo (mx - 1) a b \<and> mid \<le> m \<and> m \<le> mx \<and>
    (\<forall>k. lo \<le> k \<and> k < m \<longrightarrow> b ! nat k \<le> pv) \<and> (\<forall>k. m \<le> k \<and> k < mx \<longrightarrow> pv < b ! nat k))"
  using assms
proof (induction pv mx a i mid rule: partition_loop.induct)
  case (1 pv mx a i mid)
  note bounds = "1.prems"(1-5) and small = "1.prems"(6) and large = "1.prems"(7)
  show ?case
  proof (cases "i < mx")
    case True
    have rd: "rd a i = Inr (a ! nat i)" using bounds True by simp
    have ia: "in_array a i" and ma: "in_array a mid"
      using bounds True by (auto simp: in_array_def)
    show ?thesis
    proof (cases "a ! nat i \<le> pv")
      case le: True
      let ?b = "a[nat i := a ! nat mid, nat mid := a ! nat i]"
      have nth: "?b ! nat k = (if k = mid then a ! nat i else if k = i then a ! nat mid else a ! nat k)"
        if "lo \<le> k" "k \<le> i" for k
        using that bounds True by (intro swapped_nth [OF ia ma]) (auto simp: in_array_def)
      have s: "swap_addrs a i mid = Inr ?b" by (rule swap_addrs_ok [OF ia ma])
      have r: "rearr lo (mx - 1) a ?b"
        using bounds True by (intro rearr_swap [OF ia ma]) auto
      have "returns (partition_loop pv mx ?b (i + 1) (mid + 1)) (\<lambda>(b, m).
        rearr lo (mx - 1) ?b b \<and> mid + 1 \<le> m \<and> m \<le> mx \<and>
        (\<forall>k. lo \<le> k \<and> k < m \<longrightarrow> b ! nat k \<le> pv) \<and> (\<forall>k. m \<le> k \<and> k < mx \<longrightarrow> pv < b ! nat k))"
      proof (rule "1.IH"(1) [OF True rd le s])
        show "?b ! nat k \<le> pv" if "lo \<le> k" "k < mid + 1" for k
          using that bounds True le small [of k] by (subst nth) auto
        show "pv < ?b ! nat k" if "mid + 1 \<le> k" "k < i + 1" for k
          using that bounds True large [of k] large [of mid] by (subst nth) auto
      qed (use bounds True in auto)
      with True le rd s r show ?thesis
        by (auto simp: partition_loop.simps [of pv mx a i mid] elim!: returns_mono
            intro: rearr_trans)
    next
      case gt: False
      have "returns (partition_loop pv mx a (i + 1) mid) (\<lambda>(b, m).
        rearr lo (mx - 1) a b \<and> mid \<le> m \<and> m \<le> mx \<and>
        (\<forall>k. lo \<le> k \<and> k < m \<longrightarrow> b ! nat k \<le> pv) \<and> (\<forall>k. m \<le> k \<and> k < mx \<longrightarrow> pv < b ! nat k))"
      proof (rule "1.IH"(2) [OF True rd gt])
        show "pv < a ! nat k" if "mid \<le> k" "k < i + 1" for k
          using that gt large [of k] by (cases "k = i") auto
      qed (use bounds True small in auto)
      with True gt rd show ?thesis
        by (simp add: partition_loop.simps [of pv mx a i mid])
    qed
  next
    case False
    with bounds small large show ?thesis by (subst partition_loop.simps) simp
  qed
qed

lemma pivot_between: "(0::int) \<le> mn \<Longrightarrow> mn \<le> mx \<Longrightarrow> mn \<le> (mx + mn) sdiv 2 \<and> (mx + mn) sdiv 2 \<le> mx"
  by (auto simp: signed_divide_int_def sgn_if)

text \<open>
  After \<^verbatim>\<open>partition\<close> the element at \<open>mid\<close> is in its final place: nothing to its left is larger and
  nothing to its right is smaller.
\<close>

lemma partition_addrs_correct:
  assumes "0 \<le> mn" "mn < mx" "mx < int (length a)"
  shows "returns (partition_addrs a mn mx) (\<lambda>(b, m).
    rearr mn mx a b \<and> mn \<le> m \<and> m \<le> mx \<and>
    (\<forall>k. mn \<le> k \<and> k < m \<longrightarrow> b ! nat k \<le> b ! nat m) \<and>
    (\<forall>k. m < k \<and> k \<le> mx \<longrightarrow> b ! nat m \<le> b ! nat k))"
proof -
  define pivot where "pivot = (mx + mn) sdiv 2"
  have p: "mn \<le> pivot" "pivot \<le> mx" using pivot_between [of mn mx] assms by (auto simp: pivot_def)
  define a1 where "a1 = a[nat pivot := a ! nat mx, nat mx := a ! nat pivot]"
  have pa: "in_array a pivot" and xa: "in_array a mx"
    using assms p by (auto simp: in_array_def)
  have r1: "rearr mn mx a a1" unfolding a1_def
    using assms p by (intro rearr_swap [OF pa xa]) auto
  have len1: "length a1 = length a" by (rule rearr_length [OF r1])
  have piv: "a1 ! nat mx = a ! nat pivot"
    unfolding a1_def using swapped_nth [OF pa xa xa] by simp
  have s1: "swap_addrs a pivot mx = Inr a1" unfolding a1_def by (rule swap_addrs_ok [OF pa xa])
  have "returns (partition_loop (a ! nat pivot) mx a1 mn mn) (\<lambda>(b, m).
    rearr mn (mx - 1) a1 b \<and> mn \<le> m \<and> m \<le> mx \<and>
    (\<forall>k. mn \<le> k \<and> k < m \<longrightarrow> b ! nat k \<le> a ! nat pivot) \<and>
    (\<forall>k. m \<le> k \<and> k < mx \<longrightarrow> a ! nat pivot < b ! nat k))"
    using assms len1 by (intro partition_loop_correct) auto
  then obtain b m where l: "partition_loop (a ! nat pivot) mx a1 mn mn = Inr (b, m)"
    and r2: "rearr mn (mx - 1) a1 b" and m: "mn \<le> m" "m \<le> mx"
    and small: "\<And>k. mn \<le> k \<Longrightarrow> k < m \<Longrightarrow> b ! nat k \<le> a ! nat pivot"
    and large: "\<And>k. m \<le> k \<Longrightarrow> k < mx \<Longrightarrow> a ! nat pivot < b ! nat k"
    by (auto elim!: returnsE)
  have len2: "length b = length a" using rearr_length [OF r2] len1 by simp
  have bmx: "b ! nat mx = a ! nat pivot"
    using rearr_outside [OF r2, of mx] assms len1 piv by (simp add: in_array_def)
  have mb: "in_array b m" and xb: "in_array b mx" using assms m len2 by (auto simp: in_array_def)
  let ?c = "b[nat m := b ! nat mx, nat mx := b ! nat m]"
  have nth: "?c ! nat k = (if k = mx then b ! nat m else if k = m then a ! nat pivot else b ! nat k)"
    if "mn \<le> k" "k \<le> mx" for k
    using that assms len2 bmx by (subst swapped_nth [OF mb xb]) (auto simp: in_array_def)
  have r3: "rearr mn mx b ?c" using assms m by (intro rearr_swap [OF mb xb]) auto
  have r: "rearr mn mx a ?c"
    by (rule rearr_trans [OF r1 rearr_trans [OF rearr_weaken [OF r2] r3]]) auto
  have cm: "?c ! nat m = a ! nat pivot" using m nth [of m] bmx by simp
  have "\<forall>k. mn \<le> k \<and> k < m \<longrightarrow> ?c ! nat k \<le> a ! nat pivot" using m nth small by auto
  moreover have "\<forall>k. m < k \<and> k \<le> mx \<longrightarrow> a ! nat pivot \<le> ?c ! nat k"
    using m nth large by (auto intro: less_imp_le)
  ultimately show ?thesis
    using assms p s1 l r m cm swap_addrs_ok [OF mb xb]
    by (simp add: partition_addrs_def Let_def pivot_def [symmetric])
qed

subsection \<open>Insertion sort\<close>

definition sorted_rng :: "int \<Rightarrow> int \<Rightarrow> size_t list \<Rightarrow> bool" where
  "sorted_rng lo hi a \<longleftrightarrow> (\<forall>p q. lo \<le> p \<and> p < q \<and> q \<le> hi \<longrightarrow> a ! nat p \<le> a ! nat q)"

text \<open>
  \<^verbatim>\<open>insertion_sort\<close> stops its inner loop at index 0, so it stays within \<open>[min, max]\<close> only because no
  element of the range is smaller than the one just before it.
\<close>

definition fenced :: "int \<Rightarrow> int \<Rightarrow> size_t list \<Rightarrow> bool" where
  "fenced lo hi a \<longleftrightarrow> (0 < lo \<longrightarrow> (\<forall>k. lo \<le> k \<and> k \<le> hi \<longrightarrow> a ! nat (lo - 1) \<le> a ! nat k))"

lemma fenced_rearr:
  assumes "fenced lo hi a" and r: "rearr lo hi a b" and "0 \<le> lo" and "hi < int (length a)"
  shows "fenced lo hi b"
  unfolding fenced_def
proof (intro impI allI)
  fix k
  assume lo: "0 < lo" and k: "lo \<le> k \<and> k \<le> hi"
  have "b ! nat (lo - 1) = a ! nat (lo - 1)"
    using lo k assms(4) by (intro rearr_outside [OF r]) (auto simp: in_array_def)
  moreover have "a ! nat (lo - 1) \<le> b ! nat k"
    by (rule rearr_all [OF r, where P = "\<lambda>x. a ! nat (lo - 1) \<le> x"])
       (use assms lo k in \<open>auto simp: fenced_def in_array_def\<close>)
  ultimately show "b ! nat (lo - 1) \<le> b ! nat k" by simp
qed

lemma insertion_inner_correct:
  assumes "0 \<le> lo" "lo \<le> j" "j \<le> i" "i < int (length a)" "fenced lo i a"
    and "\<And>p q. lo \<le> p \<Longrightarrow> p < q \<Longrightarrow> q \<le> i \<Longrightarrow> q \<noteq> j \<Longrightarrow> a ! nat p \<le> a ! nat q"
  shows "returns (insertion_inner a j) (\<lambda>b. rearr lo i a b \<and> sorted_rng lo i b)"
  using assms
proof (induction a j rule: insertion_inner.induct)
  case (1 a j)
  note bounds = "1.prems"(1-4) and fence = "1.prems"(5) and ord = "1.prems"(6)
  show ?case
  proof (cases "j > 0")
    case True
    have rds: "rd a (j - 1) = Inr (a ! nat (j - 1))" "rd a j = Inr (a ! nat j)"
      using bounds True by auto
    show ?thesis
    proof (cases "a ! nat (j - 1) > a ! nat j")
      case gt: True
      have lj: "lo < j"
      proof (rule ccontr)
        assume "\<not> lo < j"
        with bounds have "j = lo" by simp
        with fence True bounds have "a ! nat (j - 1) \<le> a ! nat j" by (simp add: fenced_def)
        with gt show False by simp
      qed
      have ja: "in_array a j" and ja1: "in_array a (j - 1)"
        using bounds True by (auto simp: in_array_def)
      define b where "b = a[nat j := a ! nat (j - 1), nat (j - 1) := a ! nat j]"
      have s: "swap_addrs a j (j - 1) = Inr b" unfolding b_def by (rule swap_addrs_ok [OF ja ja1])
      have r: "rearr lo i a b" unfolding b_def using bounds lj by (intro rearr_swap [OF ja ja1]) auto
      have nth: "b ! nat k =
          (if k = j - 1 then a ! nat j else if k = j then a ! nat (j - 1) else a ! nat k)"
        if "lo \<le> k" "k \<le> i" for k
        unfolding b_def using that bounds by (intro swapped_nth [OF ja ja1]) (auto simp: in_array_def)
      have "returns (insertion_inner b (j - 1)) (\<lambda>c. rearr lo i b c \<and> sorted_rng lo i c)"
      proof (rule "1.IH" [OF True rds gt s])
        show "b ! nat p \<le> b ! nat q" if "lo \<le> p" "p < q" "q \<le> i" "q \<noteq> j - 1" for p q
        proof -
          have "p < q" by (rule that)
          consider "q = j" "p = j - 1" | "q = j" "p < j - 1" | "q \<noteq> j" "p = j - 1"
            | "q \<noteq> j" "p = j" | "q \<noteq> j" "p \<noteq> j - 1" "p \<noteq> j"
            using \<open>p < q\<close> by linarith
          then show ?thesis
          proof cases
            case 1
            then show ?thesis using gt that nth [of p] nth [of q] by simp
          next
            case 2
            then show ?thesis using that bounds nth [of p] nth [of q] ord [of p "j - 1"] by simp
          next
            case 3
            then show ?thesis using that lj nth [of p] nth [of q] ord [of j q] by simp
          next
            case 4
            then show ?thesis using that lj nth [of p] nth [of q] ord [of "j - 1" q] by simp
          next
            case 5
            then have "b ! nat p = a ! nat p" "b ! nat q = a ! nat q"
              using that nth [of p] nth [of q] by (simp_all only: if_False)
            then show ?thesis using ord [OF that(1-3) 5(1)] by (simp only:)
          qed
        qed
        show "fenced lo i b" using bounds by (intro fenced_rearr [OF fence r])
      qed (use bounds lj rearr_length [OF r] in auto)
      then show ?thesis
        using True gt rds s r
        by (auto simp: insertion_inner.simps [of a j] elim!: returns_mono intro: rearr_trans)
    next
      case le: False
      have "sorted_rng lo i a"
        unfolding sorted_rng_def
      proof (intro allI impI)
        fix p q
        assume pq: "lo \<le> p \<and> p < q \<and> q \<le> i"
        show "a ! nat p \<le> a ! nat q"
          using pq le bounds ord [of p q] ord [of p "j - 1"] by (cases "q = j"; cases "p = j - 1") auto
      qed
      then show ?thesis using True le rds by (simp add: insertion_inner.simps [of a j])
    qed
  next
    case False
    then have "sorted_rng lo i a" using bounds ord by (auto simp: sorted_rng_def)
    with False show ?thesis by (simp add: insertion_inner.simps [of a j])
  qed
qed

lemma sorted_rng_trivial: "hi \<le> lo \<Longrightarrow> sorted_rng lo hi a"
  by (auto simp: sorted_rng_def)

lemma fenced_mono: "fenced lo hi a \<Longrightarrow> hi' \<le> hi \<Longrightarrow> fenced lo hi' a"
  by (auto simp: fenced_def)

lemma insertion_outer_correct:
  assumes "0 \<le> lo" "lo < i" "mx < int (length a)" "fenced lo mx a" "sorted_rng lo (i - 1) a"
  shows "returns (insertion_outer mx a i) (\<lambda>b. rearr lo mx a b \<and> sorted_rng lo mx b)"
  using assms
proof (induction mx a i rule: insertion_outer.induct)
  case (1 mx a i)
  show ?case
  proof (cases "i \<le> mx")
    case True
    have "returns (insertion_inner a i) (\<lambda>b. rearr lo i a b \<and> sorted_rng lo i b)"
      using "1.prems" True
      by (intro insertion_inner_correct) (auto simp: sorted_rng_def intro: fenced_mono)
    then obtain b where b: "insertion_inner a i = Inr b" and r: "rearr lo i a b"
      and s: "sorted_rng lo i b" by (auto elim!: returnsE)
    have r': "rearr lo mx a b" by (rule rearr_weaken [OF r]) (use True in auto)
    have "returns (insertion_outer mx b (i + 1)) (\<lambda>c. rearr lo mx b c \<and> sorted_rng lo mx c)"
      using "1.prems" s r' by (intro "1.IH" [OF True b]) (auto simp: rearr_length intro: fenced_rearr)
    with True b r' show ?thesis
      by (auto simp: insertion_outer.simps [of mx a i] elim!: returns_mono intro: rearr_trans)
  next
    case False
    with "1.prems" show ?thesis
      by (auto simp: insertion_outer.simps [of mx a i] sorted_rng_def)
  qed
qed

lemma insertion_sort_correct:
  assumes "0 \<le> mn" "mx < int (length a)" "fenced mn mx a"
  shows "returns (insertion_sort a mn mx) (\<lambda>b. rearr mn mx a b \<and> sorted_rng mn mx b)"
  unfolding insertion_sort_def
  using assms by (intro insertion_outer_correct) (auto simp: sorted_rng_trivial)

subsection \<open>Quicksort\<close>

lemma fenced_left:
  assumes "fenced lo hi a" and "rearr lo hi a b" and "0 \<le> lo" and "hi < int (length a)" and "m \<le> hi"
  shows "fenced lo m b"
  using assms by (blast intro: fenced_mono fenced_rearr)

text \<open>Three sorted pieces around a pivot make a sorted range.\<close>

lemma sorted_rng_glue:
  assumes "sorted_rng lo (m - 1) a" and "sorted_rng (m + 1) hi a"
    and "\<And>k. lo \<le> k \<Longrightarrow> k < m \<Longrightarrow> a ! nat k \<le> a ! nat m"
    and "\<And>k. m < k \<Longrightarrow> k \<le> hi \<Longrightarrow> a ! nat m \<le> a ! nat k"
  shows "sorted_rng lo hi a"
  unfolding sorted_rng_def
proof (intro allI impI)
  fix p q
  assume pq: "lo \<le> p \<and> p < q \<and> q \<le> hi"
  consider "q < m" | "m < p" | "p \<le> m" "m \<le> q" by linarith
  then show "a ! nat p \<le> a ! nat q"
  proof cases
    case 3
    with pq have "a ! nat p \<le> a ! nat m" "a ! nat m \<le> a ! nat q"
      using assms(3) [of p] assms(4) [of q] by (cases "p = m"; cases "q = m"; simp)+
    then show ?thesis by simp
  qed (use assms(1,2) pq in \<open>auto simp: sorted_rng_def\<close>)
qed

lemma quicksort_correct:
  assumes "0 \<le> mn" "mx < int (length a)" "fenced mn mx a"
  shows "returns (quicksort a mn mx) (\<lambda>b. rearr mn mx a b \<and> sorted_rng mn mx b)"
  using assms
proof (induction a mn mx rule: quicksort.induct)
  case (1 a mn mx)
  note len = "1.prems"(1,2) and fence = "1.prems"(3)
  show ?case
  proof (cases "mx - mn > SORT_THRESHOLD")
    case True
    then have "mn < mx" by (simp add: SORT_THRESHOLD_def)
    then obtain b m where p: "partition_addrs a mn mx = Inr (b, m)" and rb: "rearr mn mx a b"
      and m: "mn \<le> m" "m \<le> mx"
      and small: "\<And>k. mn \<le> k \<Longrightarrow> k < m \<Longrightarrow> b ! nat k \<le> b ! nat m"
      and large: "\<And>k. m < k \<Longrightarrow> k \<le> mx \<Longrightarrow> b ! nat m \<le> b ! nat k"
      using partition_addrs_correct [of mn mx a] len by (auto elim!: returnsE)
    note lb = rearr_length [OF rb]
    have "returns (quicksort b mn (m - 1)) (\<lambda>c. rearr mn (m - 1) b c \<and> sorted_rng mn (m - 1) c)"
      using len m lb fence rb
      by (intro "1.IH"(1) [OF True p refl]) (auto intro: fenced_left)
    then obtain c where c: "quicksort b mn (m - 1) = Inr c" and rc: "rearr mn (m - 1) b c"
      and sc: "sorted_rng mn (m - 1) c" by (auto elim!: returnsE)
    note lc = rearr_length [OF rc]
    have same: "c ! nat k = b ! nat k" if "m \<le> k" "k \<le> mx" for k
      using that m len lb by (intro rearr_outside [OF rc]) (auto simp: in_array_def)
    have fc: "fenced (m + 1) mx c" using m same large by (auto simp: fenced_def)
    have "returns (quicksort c (m + 1) mx) (\<lambda>d. rearr (m + 1) mx c d \<and> sorted_rng (m + 1) mx d)"
      using len m lb lc fc by (intro "1.IH"(2) [OF True p refl c]) auto
    then obtain d where d: "quicksort c (m + 1) mx = Inr d" and rd: "rearr (m + 1) mx c d"
      and sd: "sorted_rng (m + 1) mx d" by (auto elim!: returnsE)
    have left: "d ! nat k = c ! nat k" if "mn \<le> k" "k \<le> m" for k
      using that m len lb lc by (intro rearr_outside [OF rd]) (auto simp: in_array_def)
    have "rearr mn mx a d"
      using m by (intro rearr_trans [OF rb] rearr_trans [OF rearr_weaken [OF rc] rearr_weaken [OF rd]]) auto
    moreover have "sorted_rng mn mx d"
    proof (rule sorted_rng_glue [OF _ sd])
      show "sorted_rng mn (m - 1) d" using sc left by (auto simp: sorted_rng_def)
      show "d ! nat k \<le> d ! nat m" if "mn \<le> k" "k < m" for k
      proof -
        have "c ! nat k \<le> b ! nat m"
          by (rule rearr_all [OF rc, where P = "\<lambda>x. x \<le> b ! nat m"])
             (use that m len lb small in \<open>auto simp: in_array_def\<close>)
        then show ?thesis using that m left [of k] left [of m] same [of m] by simp
      qed
      show "d ! nat m \<le> d ! nat k" if "m < k" "k \<le> mx" for k
      proof -
        have "b ! nat m \<le> d ! nat k"
          by (rule rearr_all [OF rd, where P = "\<lambda>x. b ! nat m \<le> x"])
             (use that m len lb lc same large in \<open>auto simp: in_array_def\<close>)
        then show ?thesis using that m left [of m] same [of m] by simp
      qed
    qed
    ultimately show ?thesis
      using True p c d by (simp add: quicksort.simps [of a mn mx])
  next
    case False
    with insertion_sort_correct [OF "1.prems"] show ?thesis
      by (simp add: quicksort.simps [of a mn mx])
  qed
qed

subsection \<open>The sort as a whole\<close>

lemma rearr_take_drop:
  assumes r: "rearr 0 (n - 1) a b" and "0 \<le> n" and "n \<le> int (length a)"
  shows "drop (nat n) b = drop (nat n) a" and "mset (take (nat n) b) = mset (take (nat n) a)"
proof -
  have "b ! k = a ! k" if "nat n \<le> k" "k < length a" for k
    using rearr_outside [OF r, of "int k"] that by (simp add: in_array_def)
  then show d: "drop (nat n) b = drop (nat n) a"
    using rearr_length [OF r] assms(2,3) by (intro nth_equalityI) auto
  have "mset (take (nat n) b) + mset (drop (nat n) b) = mset (take (nat n) a) + mset (drop (nat n) a)"
    using rearr_mset [OF r] by (metis append_take_drop_id mset_append)
  with d show "mset (take (nat n) b) = mset (take (nat n) a)" by simp
qed

lemma threadscan_util_sort_eq:
  assumes "0 \<le> n" and "n \<le> int (length a)"
  shows "threadscan_util_sort a n = Inr (sort (take (nat n) a) @ drop (nat n) a)"
proof -
  have "fenced 0 (n - 1) a" by (simp add: fenced_def)
  then obtain b where b: "quicksort a 0 (n - 1) = Inr b" and r: "rearr 0 (n - 1) a b"
    and s: "sorted_rng 0 (n - 1) b"
    using quicksort_correct [of 0 "n - 1" a] assms by (auto elim!: returnsE)
  have "sorted (take (nat n) b)"
    unfolding sorted_iff_nth_mono_less
  proof (intro allI impI)
    fix i j
    assume ij: "i < j" "j < length (take (nat n) b)"
    then have "int j < n" by auto
    with ij show "take (nat n) b ! i \<le> take (nat n) b ! j"
      using s [unfolded sorted_rng_def, rule_format, of "int i" "int j"] by simp
  qed
  then have "take (nat n) b = sort (take (nat n) a)"
    using rearr_take_drop(2) [OF r assms] by (metis properties_for_sort)
  then show ?thesis
    using b rearr_take_drop(1) [OF r assms]
    by (metis append_take_drop_id threadscan_util_sort_def)
qed

subsection \<open>Randomize\<close>

lemma randomize_loop_correct:
  assumes "unat n \<le> length a" and "unat n < 2 ^ 31"
  shows "returns (randomize_loop n a i) (rearr 0 (int (unat n) - 1) a)"
  using assms
proof (induction n a i rule: randomize_loop.induct)
  case (1 n a i)
  show ?case
  proof (cases "i < n")
    case True
    define tmp where "tmp = (i * 2147483647) mod n"
    from True have "tmp < n" unfolding tmp_def by (simp add: word_less_nat_alt unat_mod)
    have int_idx: "in_array a (sint w) \<and> 0 \<le> sint w \<and> sint w < int (unat n)"
      if "w < n" for w
      using that "1.prems" by (auto simp: in_array_def word_less_def sint_small_32 uint_less_iff_unat)
    obtain b where b: "(if i \<noteq> tmp then swap_addrs a (sint i) (sint tmp) else Inr a) = Inr b"
      and r: "rearr 0 (int (unat n) - 1) a b"
    proof (cases "i = tmp")
      case False
      then show ?thesis
        using that int_idx [OF True] int_idx [OF \<open>tmp < n\<close>] by (simp add: swap_addrs_ok rearr_swap)
    qed (use that in auto)
    have "returns (randomize_loop n b (i + 1)) (rearr 0 (int (unat n) - 1) b)"
      by (rule "1.IH" [OF True refl b [unfolded tmp_def]]) (use "1.prems" rearr_length [OF r] in simp_all)
    with True b r show ?thesis
      by (auto simp: randomize_loop.simps [of n a i] tmp_def [symmetric] Let_def
          elim!: returns_mono intro: rearr_trans)
  next
    case False
    then show ?thesis by (subst randomize_loop.simps) simp
  qed
qed

lemma threadscan_util_randomize_correct:
  assumes "0 \<le> n" and "n \<le> int (length a)" and "n < 2 ^ 31"
  shows "returns (threadscan_util_randomize a n)
    (\<lambda>b. mset (take (nat n) b) = mset (take (nat n) a) \<and> drop (nat n) b = drop (nat n) a)"
proof -
  have n: "unat (word_of_int n :: 32 word) = nat n"
    using assms by (simp add: unat_eq_nat_uint uint_word_of_int)
  have "returns (threadscan_util_randomize a n) (rearr 0 (n - 1) a)"
    unfolding threadscan_util_randomize_def
    using randomize_loop_correct [of "word_of_int n" a 0] assms n by simp
  then show ?thesis
    by (rule returns_mono) (use assms in \<open>simp add: rearr_take_drop\<close>)
qed

subsection \<open>Properties\<close>

text \<open>
  (C18) \<^verbatim>\<open>threadscan_util_sort\<close> on the first \<open>n\<close> elements of an array: it terminates without any access
  outside the array, its result on those elements is the sorted list of the library function
  \<open>sort\<close>, and the elements behind them are untouched.
\<close>

theorem util_sort_equiv:
  assumes "0 \<le> n" and "n \<le> int (length a)"
  shows "threadscan_util_sort a n = Inr (sort (take (nat n) a) @ drop (nat n) a)"
  using assms by (rule threadscan_util_sort_eq)

theorem util_sort_equiv_witness: "threadscan_util_sort [30, 10, 20, 5] 3 = Inr [10, 20, 30, 5]"
  using util_sort_equiv [of 3 "[30, 10, 20, 5]"] by simp

text \<open>
  \<^verbatim>\<open>threadscan_util_randomize\<close> permutes the first \<open>n\<close> elements: no address is lost or made up, and
  nothing behind them changes. The index products wrap at 32 bits; no index leaves the array.
\<close>

theorem util_randomize_permutes:
  assumes "0 \<le> n" and "n \<le> int (length a)" and "n < 2 ^ 31"
  shows "returns (threadscan_util_randomize a n)
    (\<lambda>b. mset (take (nat n) b) = mset (take (nat n) a) \<and> drop (nat n) b = drop (nat n) a)"
  using assms by (rule threadscan_util_randomize_correct)

theorem util_randomize_permutes_witness:
  "returns (threadscan_util_randomize [8, 16, 24] 3)
    (\<lambda>b. mset (take (nat 3) b) = mset (take (nat 3) [8, 16, 24]) \<and> drop (nat 3) b = drop (nat 3) [8, 16, 24])"
  by (rule util_randomize_permutes) simp_all


end
