(* ===== verification/TS_Env.thy ===== *)
theory TS_Env
  imports TS_Prelude
begin

text \<open>
  The configuration of \<^verbatim>\<open>env.c\<close>: the number of pointers a thread may save up comes from the
  environment variable \<^verbatim>\<open>THREADSCAN_PTRS_PER_THREAD\<close>, times 1024, rounded up to a power of two with
  a bit trick on a signed 32-bit integer, and clamped. Signed overflow wraps, as the compiler's
  code does.
\<close>

subsection \<open>Operations\<close>

definition MAX_PTRS_PER_THREAD :: int where
  "MAX_PTRS_PER_THREAD = 32 * 1024"

definition MIN_PTRS_PER_THREAD :: int where
  "MIN_PTRS_PER_THREAD = 1024"

definition MAX_THREAD_COUNT :: int where
  "MAX_THREAD_COUNT = 256"

text \<open>
  The C library's \<^verbatim>\<open>atoi\<close>: white space, an optional sign, decimal digits up to the first other
  character; the value saturates at the bounds of \<^verbatim>\<open>long\<close> and is converted to \<^verbatim>\<open>int\<close>.
\<close>

definition c_isspace :: "char \<Rightarrow> bool" where
  "c_isspace c \<longleftrightarrow> c \<in> {CHR '' '', CHR 0x09, CHR 0x0A, CHR 0x0B, CHR 0x0C, CHR 0x0D}"

definition c_isdigit :: "char \<Rightarrow> bool" where
  "c_isdigit c \<longleftrightarrow> of_char CHR ''0'' \<le> (of_char c :: nat) \<and> of_char c \<le> (of_char CHR ''9'' :: nat)"

definition digit_val :: "char \<Rightarrow> int" where
  "digit_val c = of_char c - of_char CHR ''0''"

fun digits_val :: "int \<Rightarrow> string \<Rightarrow> int" where
  "digits_val acc [] = acc"
| "digits_val acc (c # cs) = digits_val (10 * acc + digit_val c) cs"

definition atoi :: "string \<Rightarrow> 32 word" where
  "atoi val =
     (let s = dropWhile c_isspace val;
          neg = (s \<noteq> [] \<and> hd s = CHR ''-'');
          s = (if s \<noteq> [] \<and> (hd s = CHR ''-'' \<or> hd s = CHR ''+'') then tl s else s);
          n = digits_val 0 (takeWhile c_isdigit s)
      in word_of_int (max (- (2 ^ 63)) (min (2 ^ 63 - 1) (if neg then - n else n))))"

definition get_int :: "string option \<Rightarrow> 32 word \<Rightarrow> 32 word" where
  "get_int val default_val = (case val of None \<Rightarrow> default_val | Some s \<Rightarrow> atoi s)"

text \<open>\<open>p |= p >> s\<close> on a signed integer.\<close>

definition or_shift :: "nat \<Rightarrow> 32 word \<Rightarrow> 32 word" where
  "or_shift s p = p OR signed_drop_bit s p"

text \<open>The lines of \<^verbatim>\<open>env_init\<close> from \<^verbatim>\<open>--ptrs_per_thread\<close> to \<^verbatim>\<open>++ptrs_per_thread\<close>.\<close>

definition round_up_pow2 :: "32 word \<Rightarrow> 32 word" where
  "round_up_pow2 p =
     (let p = p - 1;
          p = or_shift 1 p;
          p = or_shift 2 p;
          p = or_shift 4 p;
          p = or_shift 8 p;
          p = or_shift 16 p
      in p + 1)"

text \<open>
  \<^verbatim>\<open>env_init\<close> for a value of the environment variable (\<open>None\<close>: not set): the value assigned to
  \<^verbatim>\<open>g_threadscan_ptrs_per_thread\<close>, and whether a warning is printed.
\<close>

definition env_init :: "string option \<Rightarrow> int \<times> bool" where
  "env_init val =
     (let p = round_up_pow2 (get_int val 4 * 1024) in
      if sint p < MIN_PTRS_PER_THREAD then (MIN_PTRS_PER_THREAD, True)
      else if sint p > MAX_PTRS_PER_THREAD then (MAX_PTRS_PER_THREAD, True)
      else (sint p, False))"

subsection \<open>The bit trick\<close>

lemma bit_or_shift:
  "i < 32 \<Longrightarrow> bit (or_shift s p) i \<longleftrightarrow> bit p i \<or> bit p (min (i + s) 31)"
proof -
  assume i: "i < 32"
  have "bit (signed_drop_bit s p) i \<longleftrightarrow> bit p (if 32 - s \<le> i \<and> i < 32 then 32 - 1 else s + i)"
    by (simp only: bit_signed_drop_bit_iff) simp
  also have "(if 32 - s \<le> i \<and> i < 32 then 32 - 1 else s + i) = min (i + s) 31"
    using i by (auto simp: min_def)
  finally show ?thesis by (simp add: or_shift_def bit_or_iff)
qed

text \<open>\<open>smeared w p q\<close>: a bit of \<open>q\<close> is set when it or one of the \<open>w\<close> bits above it is set in \<open>p\<close>.\<close>

definition smeared :: "nat \<Rightarrow> 32 word \<Rightarrow> 32 word \<Rightarrow> bool" where
  "smeared w p q \<longleftrightarrow> (\<forall>i < 32. bit q i \<longleftrightarrow> (\<exists>j. i \<le> j \<and> j \<le> min (i + w) 31 \<and> bit p j))"

lemma smeared_0: "smeared 0 p p"
  by (auto simp: smeared_def min_def dest: le_antisym)

lemma smeared_step:
  assumes q: "smeared w p q" and s: "s \<le> w + 1"
  shows "smeared (w + s) p (or_shift s q)"
  unfolding smeared_def
proof (intro allI impI)
  fix i :: nat
  assume i: "i < 32"
  have "bit (or_shift s q) i \<longleftrightarrow> bit q i \<or> bit q (min (i + s) 31)" by (rule bit_or_shift [OF i])
  also have "\<dots> \<longleftrightarrow> (\<exists>j. (i \<le> j \<and> j \<le> min (i + w) 31 \<or>
      min (i + s) 31 \<le> j \<and> j \<le> min (min (i + s) 31 + w) 31) \<and> bit p j)"
    using q i by (auto simp: smeared_def)
  also have "\<dots> \<longleftrightarrow> (\<exists>j. i \<le> j \<and> j \<le> min (i + (w + s)) 31 \<and> bit p j)"
  proof (rule ex_cong1)
    fix j
    have "(i \<le> j \<and> j \<le> min (i + w) 31 \<or> min (i + s) 31 \<le> j \<and> j \<le> min (min (i + s) 31 + w) 31)
      \<longleftrightarrow> i \<le> j \<and> j \<le> min (i + (w + s)) 31"
      using s i by arith
    then show "((i \<le> j \<and> j \<le> min (i + w) 31 \<or>
        min (i + s) 31 \<le> j \<and> j \<le> min (min (i + s) 31 + w) 31) \<and> bit p j) \<longleftrightarrow>
      (i \<le> j \<and> j \<le> min (i + (w + s)) 31 \<and> bit p j)"
      by blast
  qed
  finally show "bit (or_shift s q) i \<longleftrightarrow> (\<exists>j. i \<le> j \<and> j \<le> min (i + (w + s)) 31 \<and> bit p j)" .
qed

text \<open>So the five steps turn \<open>x\<close> into the mask up to its highest bit, and adding one gives a power of two.\<close>

lemma round_up_pow2_mask:
  obtains n where "n \<le> 32" "round_up_pow2 p = 2 ^ n" "p - 1 \<le> mask n"
    "n = 0 \<or> bit (p - 1) (n - 1)"
proof -
  define x where "x = p - 1"
  define y where "y = or_shift 16 (or_shift 8 (or_shift 4 (or_shift 2 (or_shift 1 x))))"
  have "smeared (0 + 1 + 2 + 4 + 8 + 16) x y"
    unfolding y_def by (intro smeared_step smeared_0) auto
  then have y: "bit y i \<longleftrightarrow> (\<exists>j. i \<le> j \<and> j \<le> 31 \<and> bit x j)" if "i < 32" for i
    using that by (simp add: smeared_def)
  define B where "B = {j. j < 32 \<and> bit x j}"
  define n where "n = (if B = {} then 0 else Suc (Max B))"
  have fin: "finite B" by (simp add: B_def)
  have top: "Max B \<in> B" if "B \<noteq> {}" using fin that by (rule Max_in)
  have n32: "n \<le> 32" using top by (auto simp: n_def B_def)
  have "y = mask n"
  proof (rule bit_word_eqI)
    fix i
    assume "i < LENGTH(32)"
    then have i: "i < 32" by simp
    have "bit y i \<longleftrightarrow> (\<exists>j \<in> B. i \<le> j)" 
    proof -
      have "j \<in> B \<longleftrightarrow> j \<le> 31 \<and> bit x j" for j by (auto simp: B_def)
      then show ?thesis using y [OF i] by blast
    qed
    also have "\<dots> \<longleftrightarrow> i < n"
      using Max_ge [OF fin] top by (auto simp: n_def less_Suc_eq_le intro: order_trans)
    finally show "bit y i \<longleftrightarrow> bit (mask n :: 32 word) i" using i by (simp add: bit_mask_iff)
  qed
  moreover have "x \<le> mask n"
  proof -
    have "x AND mask n = x"
      using Max_ge [OF fin] by (intro bit_word_eqI) (auto simp: bit_simps n_def B_def less_Suc_eq_le)
    then show ?thesis by (metis word_and_le1)
  qed
  moreover have "n = 0 \<or> bit x (n - 1)" using top by (auto simp: n_def B_def)
  moreover have "round_up_pow2 p = y + 1"
    by (simp only: round_up_pow2_def Let_def x_def y_def)
  ultimately show ?thesis
    using n32 by (intro that [of n]) (simp_all add: x_def [symmetric] mask_eq_exp_minus_1)
qed

subsection \<open>The configured value\<close>

lemma sint_pow2_32:
  assumes "n \<le> 32"
  shows "sint (2 ^ n :: 32 word) = (if n \<le> 30 then 2 ^ n else if n = 31 then - (2 ^ 31) else 0)"
proof -
  consider "n \<le> 30" | "n = 31" | "n = 32" using assms by linarith
  then show ?thesis
  proof cases
    case 1
    then have "(2::int) ^ n \<le> 2 ^ 30" by (intro power_increasing) auto
    then have "(2 ^ n :: int) < 2 ^ 31" by simp
    moreover have "sint (2 ^ n :: 32 word) = signed_take_bit 31 (2 ^ n)"
    proof -
      have "(2 ^ n :: 32 word) = word_of_int (2 ^ n)" by simp
      then show ?thesis by (simp only: sint_sbintrunc') simp
    qed
    moreover have "- (2 ^ 31) \<le> (2 ^ n :: int)" by (rule order_trans [of _ 0]) auto
    ultimately show ?thesis using 1 by (simp only: signed_take_bit_int_eq_self) simp
  qed simp_all
qed

lemma env_init_pow2: "\<exists>n. 10 \<le> n \<and> n \<le> 15 \<and> fst (env_init val) = 2 ^ n"
proof -
  obtain n where n: "n \<le> 32" "round_up_pow2 (get_int val 4 * 1024) = 2 ^ n"
    by (rule round_up_pow2_mask)
  show ?thesis
  proof (cases "10 \<le> n \<and> n \<le> 15")
    case True
    then have "(2::int) ^ 10 \<le> 2 ^ n" "(2::int) ^ n \<le> 2 ^ 15"
      by (intro power_increasing; simp)+
    then have "fst (env_init val) = 2 ^ n"
      using True n
      by (simp add: env_init_def Let_def sint_pow2_32 MIN_PTRS_PER_THREAD_def MAX_PTRS_PER_THREAD_def)
    then show ?thesis using True by blast
  next
    case False
    have "fst (env_init val) \<in> {MIN_PTRS_PER_THREAD, MAX_PTRS_PER_THREAD}"
    proof (cases "n < 10")
      case True
      then have "(2::int) ^ n \<le> 2 ^ 9" by (intro power_increasing) auto
      then show ?thesis using True n by (simp add: env_init_def Let_def sint_pow2_32 MIN_PTRS_PER_THREAD_def)
    next
      case ge: False
      then have "(2::int) ^ 16 \<le> 2 ^ n" using False by (intro power_increasing) auto
      then show ?thesis using ge n
        by (simp add: env_init_def Let_def sint_pow2_32 MIN_PTRS_PER_THREAD_def MAX_PTRS_PER_THREAD_def)
    qed
    then show ?thesis
      by (elim insertE emptyE) (rule exI [of _ 10], simp add: MIN_PTRS_PER_THREAD_def,
        rule exI [of _ 15], simp add: MAX_PTRS_PER_THREAD_def)
  qed
qed

text \<open>A value within the bounds is rounded up to the next power of two, with no warning.\<close>

lemma env_init_rounds_up:
  assumes v: "get_int val 4 = word_of_int v" "1 \<le> v" "v \<le> 32"
  obtains n where "env_init val = (2 ^ n, False)" "1024 * v \<le> 2 ^ n" "2 ^ n < 2 * (1024 * v)"
proof -
  define p where "p = get_int val 4 * 1024"
  obtain n where n: "n \<le> 32" "round_up_pow2 p = 2 ^ n" "p - 1 \<le> mask n" "n = 0 \<or> bit (p - 1) (n - 1)"
    by (rule round_up_pow2_mask)
  have p: "p = word_of_int (1024 * v)" by (simp add: p_def v(1) mult.commute)
  have up: "uint (p - 1) = 1024 * v - 1"
  proof -
    have "p - 1 = word_of_int (1024 * v - 1)" by (simp add: p)
    then show ?thesis using v by (simp only: unsigned_of_int) (simp add: take_bit_int_eq_self)
  qed
  have lo: "1024 * v \<le> 2 ^ n"
  proof (cases "n = 32")
    case True then show ?thesis using v by simp
  next
    case False
    then have "uint (p - 1) \<le> 2 ^ n - 1"
    proof -
      have "(mask n :: 32 word) = word_of_int (mask n)" by (simp add: mask_eq_exp_minus_1)
      moreover have "(2::int) ^ n \<le> 2 ^ 31" using n(1) False by (intro power_increasing) auto
      ultimately have "uint (mask n :: 32 word) = 2 ^ n - 1"
        by (simp only: unsigned_of_int) (simp add: take_bit_int_eq_self mask_eq_exp_minus_1)
      then show ?thesis using n(3) by (simp add: word_le_def)
    qed
    then show ?thesis using up by simp
  qed
  have n0: "n \<noteq> 0" using lo v by (intro notI) simp
  then have "bit (uint (p - 1)) (n - 1)" using n(1,4) by (simp add: bit_uint_iff)
  then have "2 ^ (n - 1) \<le> uint (p - 1)"
    by (metis bit_iff_odd div_pos_pos_trivial even_zero linorder_not_le uint_ge_0)
  then have hi: "2 ^ n < 2 * (1024 * v)"
    using up n0 power_Suc [of "2 :: int" "n - 1"] by simp
  have "(2::int) ^ n < 2 ^ 16" using hi v by simp
  then have n15: "n \<le> 15" using power_strict_increasing_iff [of "2::int" n 16] by simp
  then have "(2::int) ^ n \<le> 2 ^ 15" by (intro power_increasing) auto
  moreover have "1024 \<le> (2::int) ^ n" using lo v by simp
  ultimately have "env_init val = (2 ^ n, False)"
    using n n15
    by (simp add: env_init_def Let_def p_def sint_pow2_32 MIN_PTRS_PER_THREAD_def MAX_PTRS_PER_THREAD_def)
  then show ?thesis using lo hi that by blast
qed

subsection \<open>Properties\<close>

text \<open>
  (C25) Whatever the environment variable holds, unset and malformed or overflowing values included,
  the number of pointers per thread is a power of two between 1024 and 32768: the mask arithmetic of
  the queues and the buffer sizes rely on it.
\<close>

theorem env_init_power_of_two:
  "\<exists>n. 10 \<le> n \<and> n \<le> 15 \<and> fst (env_init val) = 2 ^ n"
  by (rule env_init_pow2)

text \<open>
  A setting \<open>v\<close> within the bounds is taken as it is: the result is the smallest power of two that
  is at least \<open>1024 * v\<close>, and no warning is printed.
\<close>

theorem env_init_in_bounds:
  assumes "get_int val 4 = word_of_int v" and "1 \<le> v" and "v \<le> 32"
  shows "\<exists>n. env_init val = (2 ^ n, False) \<and> 1024 * v \<le> 2 ^ n \<and> 2 ^ n < 2 * (1024 * v)"
  using env_init_rounds_up [OF assms] by metis

theorem env_init_in_bounds_witness:
  "\<exists>n. env_init (Some ''5'') = (2 ^ n, False) \<and> 1024 * 5 \<le> (2 :: int) ^ n \<and> (2 :: int) ^ n < 2 * (1024 * 5)"
proof (rule env_init_in_bounds)
  show "get_int (Some ''5'') 4 = word_of_int 5"
    by (simp add: get_int_def atoi_def c_isspace_def c_isdigit_def digit_val_def)
qed simp_all


end
