(* ===== verification/TS_Queue.thy ===== *)
theory TS_Queue
  imports TS_Prelude
begin

text \<open>
  The circular queue of \<^verbatim>\<open>queue.c\<close>, one per thread, that holds the pointers the thread has collected.
  The absolute indices are 64-bit counters that wrap; an index into the buffer is the counter masked
  with \<open>capacity - 1\<close>. The contents of a queue, oldest first, are \<open>q_list\<close>; the interface the clients
  rely on is the locale \<open>fifo_queue\<close>, which the operations are shown to implement.
\<close>

subsection \<open>Operations\<close>

record queue_t =
  elems :: "size_t list"
  capacity :: size_t
  idx_head :: size_t
  idx_tail :: size_t

definition INDEXIFY :: "size_t \<Rightarrow> size_t \<Rightarrow> size_t" where
  "INDEXIFY abs_idx cap = abs_idx AND (cap - 1)"

definition threadscan_queue_init :: "size_t list \<Rightarrow> size_t \<Rightarrow> queue_t" where
  "threadscan_queue_init buf cap =
     \<lparr>elems = buf, capacity = cap, idx_head = 0, idx_tail = cap\<rparr>"

definition threadscan_queue_is_full :: "bool \<Rightarrow> queue_t \<Rightarrow> bool res" where
  "threadscan_queue_is_full dbg q =
     bindE (c_assert dbg (idx_head q < idx_tail q)) (\<lambda>_.
     Inr (idx_head q + 1 \<ge> idx_tail q))"

definition threadscan_queue_push :: "bool \<Rightarrow> queue_t \<Rightarrow> size_t \<Rightarrow> queue_t res" where
  "threadscan_queue_push dbg q v =
     bindE (wr (elems q) (uint (INDEXIFY (idx_head q) (capacity q))) v) (\<lambda>es.
     let q = q\<lparr>elems := es, idx_head := idx_head q + 1\<rparr> in
     bindE (c_assert dbg (idx_head q < idx_tail q)) (\<lambda>_. Inr q))"

text \<open>
  \<^verbatim>\<open>threadscan_queue_pop_bulk(&values[d], len, q)\<close>: the number of values popped (converted to \<^verbatim>\<open>int\<close>),
  the output array and the queue.
\<close>

definition threadscan_queue_pop_bulk ::
  "bool \<Rightarrow> size_t list \<Rightarrow> nat \<Rightarrow> size_t \<Rightarrow> queue_t \<Rightarrow> (int \<times> size_t list \<times> queue_t) res" where
  "threadscan_queue_pop_bulk dbg vals d len q =
     (let head_idx = idx_head q;
          sz = head_idx - (idx_tail q - capacity q) in
      bindE (c_assert dbg (len < 0xF00000000000000)) (\<lambda>_.
      if sz = 0 then Inr (0, vals, q)
      else
        let head_idx = (if sz > len then head_idx - (sz - len) else head_idx);
            sz = (if sz > len then len else sz);
            popped = sz;
            head = INDEXIFY head_idx (capacity q);
            start = INDEXIFY (idx_tail q) (capacity q) in
        bindE (if head < start
               then bindE (memcpy vals d (elems q) (unat start) (unat (capacity q - start)))
                      (\<lambda>vals. Inr (vals, capacity q - start, 0))
               else Inr (vals, 0, start)) (\<lambda>(vals, values_offset, start).
        let elements = head - start in
        bindE (if elements > 0
               then memcpy vals (d + unat values_offset) (elems q) (unat start) (unat elements)
               else Inr vals) (\<lambda>vals.
        let q = q\<lparr>idx_tail := head_idx + capacity q\<rparr> in
        bindE (c_assert dbg (\<forall>x \<in> set (take (unat popped) (drop d vals)). x \<noteq> 0)) (\<lambda>_.
        Inr (sint (ucast popped :: 32 word), vals, q))))))"

subsection \<open>Contents and invariant\<close>

definition q_size :: "queue_t \<Rightarrow> nat" where
  "q_size q = unat (idx_head q - (idx_tail q - capacity q))"

definition q_list :: "queue_t \<Rightarrow> size_t list" where
  "q_list q = take (q_size q) (rotate (unat (idx_tail q)) (elems q))"

text \<open>
  The capacity is a power of two, the buffer has that many elements, and at least one of them is
  always unused.
\<close>

definition q_inv :: "queue_t \<Rightarrow> bool" where
  "q_inv q \<longleftrightarrow>
     (\<exists>k < 63. unat (capacity q) = 2 ^ k) \<and> length (elems q) = unat (capacity q) \<and>
     q_size q < unat (capacity q)"

text \<open>The absolute indices have not wrapped: the comparisons of \<^verbatim>\<open>threadscan_queue_is_full\<close> need this.\<close>

definition q_nowrap :: "queue_t \<Rightarrow> bool" where
  "q_nowrap q \<longleftrightarrow>
     unat (capacity q) \<le> unat (idx_tail q) \<and> unat (idx_tail q) - unat (capacity q) \<le> unat (idx_head q)"

lemma q_size_nowrap:
  assumes "q_nowrap q"
  shows "q_size q = unat (idx_head q) - (unat (idx_tail q) - unat (capacity q))"
proof -
  have "unat (idx_tail q - capacity q) = unat (idx_tail q) - unat (capacity q)"
    using assms by (simp add: q_nowrap_def unat_sub word_le_nat_alt)
  moreover from this have "idx_tail q - capacity q \<le> idx_head q"
    using assms by (simp add: q_nowrap_def word_le_nat_alt)
  ultimately show ?thesis by (simp add: q_size_def unat_sub)
qed

lemma length_q_list: "q_inv q \<Longrightarrow> length (q_list q) = q_size q"
  by (simp add: q_list_def q_inv_def)

text \<open>Masking with \<open>capacity - 1\<close> is reduction modulo the capacity.\<close>

lemma INDEXIFY_unat:
  assumes "\<exists>k < 63. unat cap = 2 ^ k"
  shows "unat (INDEXIFY x cap) = unat x mod unat cap"
proof -
  from assms obtain k where k: "k < 63" "unat cap = 2 ^ k" by auto
  then have "cap = 2 ^ k" by (simp add: word_unat_eq_iff unat_pow2)
  with k show ?thesis by (simp add: INDEXIFY_def word_and_pow2_minus_1)
qed

text \<open>Adding to a 64-bit counter and reducing modulo the capacity commute.\<close>

lemma unat_add_mod_pow2:
  assumes "\<exists>k < 63. N = 2 ^ k"
  shows "unat (x + y :: size_t) mod N = (unat x + unat y) mod N"
proof -
  from assms obtain k where "k < 63" "N = 2 ^ k" by auto
  then have "N dvd 2 ^ 64" using le_imp_power_dvd [of k 64 "2 :: nat"] by simp
  then show ?thesis by (simp add: unat_word_ariths mod_mod_cancel)
qed

lemma q_inv_cap: "q_inv q \<Longrightarrow> \<exists>k < 63. unat (capacity q) = 2 ^ k"
  by (simp add: q_inv_def)

lemma q_inv_cap_bounds:
  assumes "q_inv q"
  shows "0 < unat (capacity q)" and "unat (capacity q) < 2 ^ 63"
proof -
  obtain k where k: "k < 63" "unat (capacity q) = 2 ^ k" using q_inv_cap [OF assms] by auto
  then show "0 < unat (capacity q)" by simp
  show "unat (capacity q) < 2 ^ 63" unfolding k(2) using k(1) by (intro power_strict_increasing) auto
qed

lemma slot_shift:
  fixes cap :: size_t
  assumes "\<exists>k < 63. unat cap = 2 ^ k" and "x + cap = y + z"
  shows "unat x mod unat cap = (unat y + unat z) mod unat cap"
proof -
  have "unat (x + cap) mod unat cap = unat (y + z) mod unat cap" using assms(2) by simp
  then have "(unat x + unat cap) mod unat cap = (unat y + unat z) mod unat cap"
    by (simp only: unat_add_mod_pow2 [OF assms(1)])
  then show ?thesis by simp
qed

text \<open>The slot of the head is \<open>q_size\<close> places after the slot of the tail.\<close>

lemma head_slot:
  assumes "q_inv q"
  shows "unat (idx_head q) mod unat (capacity q) = (unat (idx_tail q) + q_size q) mod unat (capacity q)"
  unfolding q_size_def by (rule slot_shift [OF q_inv_cap [OF assms]]) simp

lemma nth_q_list:
  assumes "q_inv q" and "i < q_size q"
  shows "q_list q ! i = elems q ! ((unat (idx_tail q) + i) mod unat (capacity q))"
  using assms by (simp add: q_list_def q_inv_def nth_rotate)

subsection \<open>Functional behaviour\<close>

lemma threadscan_queue_init_correct:
  assumes "\<exists>k < 63. unat cap = 2 ^ k" and "length buf = unat cap"
  shows "q_inv (threadscan_queue_init buf cap)" and "q_nowrap (threadscan_queue_init buf cap)"
    and "q_list (threadscan_queue_init buf cap) = []"
  using assms by (auto simp: threadscan_queue_init_def q_inv_def q_nowrap_def q_list_def q_size_def)

lemma threadscan_queue_is_full_correct:
  assumes q: "q_inv q" "q_nowrap q"
  shows "threadscan_queue_is_full dbg q = Inr (unat (capacity q) \<le> length (q_list q) + 1)"
proof -
  have sz: "q_size q < unat (capacity q)" using q by (simp add: q_inv_def)
  have lt: "unat (idx_head q) < unat (idx_tail q)"
    using sz q(2) by (simp add: q_size_nowrap [OF q(2)] q_nowrap_def)
  then have "unat (idx_head q + 1) = unat (idx_head q) + 1"
    by (intro unat_succ_less [of _ "idx_tail q"]) (simp add: word_less_nat_alt)
  moreover have "unat (idx_tail q) \<le> unat (idx_head q) + 1 \<longleftrightarrow> unat (capacity q) \<le> q_size q + 1"
    using q(2) by (auto simp: q_size_nowrap [OF q(2)] q_nowrap_def)
  ultimately show ?thesis
    using lt q
    by (simp add: threadscan_queue_is_full_def c_assert_def word_less_nat_alt word_le_nat_alt length_q_list)
qed

text \<open>The queue after a push, without the assertion.\<close>

definition pushed :: "queue_t \<Rightarrow> size_t \<Rightarrow> queue_t" where
  "pushed q v = q\<lparr>elems := (elems q)[unat (idx_head q) mod unat (capacity q) := v],
                 idx_head := idx_head q + 1\<rparr>"

lemma pushed_simps [simp]:
  "capacity (pushed q v) = capacity q" "idx_tail (pushed q v) = idx_tail q"
  "idx_head (pushed q v) = idx_head q + 1"
  "elems (pushed q v) = (elems q)[unat (idx_head q) mod unat (capacity q) := v]"
  by (simp_all add: pushed_def)

lemma q_size_pushed:
  assumes "q_inv q"
  shows "q_size (pushed q v) = q_size q + 1"
proof -
  let ?sz = "idx_head q - (idx_tail q - capacity q)"
  have "?sz < capacity q" using assms by (simp add: q_inv_def q_size_def word_less_nat_alt)
  then have "unat (?sz + 1) = unat ?sz + 1" by (rule unat_succ_less)
  then show ?thesis by (simp add: q_size_def algebra_simps)
qed

lemma q_inv_pushed: "q_inv q \<Longrightarrow> q_size q + 1 < unat (capacity q) \<Longrightarrow> q_inv (pushed q v)"
  using q_size_pushed [of q v] by (simp add: q_inv_def)

lemma q_list_pushed:
  assumes q: "q_inv q" and room: "q_size q + 1 < unat (capacity q)"
  shows "q_list (pushed q v) = q_list q @ [v]"
proof (rule nth_equalityI)
  let ?N = "unat (capacity q)" and ?T = "unat (idx_tail q)"
  note q' = q_inv_pushed [OF q room, of v]
  show "length (q_list (pushed q v)) = length (q_list q @ [v])"
    using q q' by (simp add: length_q_list q_size_pushed)
  fix i
  assume "i < length (q_list (pushed q v))"
  then have i: "i \<le> q_size q" using q q' by (simp add: length_q_list q_size_pushed)
  have len: "length (elems q) = ?N" "0 < ?N" using q q_inv_cap_bounds by (auto simp: q_inv_def)
  have "q_list (pushed q v) ! i = (elems q)[(?T + q_size q) mod ?N := v] ! ((?T + i) mod ?N)"
    using i q q' by (simp add: nth_q_list q_size_pushed head_slot)
  also have "\<dots> = (q_list q @ [v]) ! i"
  proof (cases "i = q_size q")
    case True
    then show ?thesis using q len by (simp add: nth_append length_q_list)
  next
    case False
    then have "(?T + i) mod ?N \<noteq> (?T + q_size q) mod ?N"
      using i room add_mod_inj [of ?T i ?N "q_size q"] by auto
    then show ?thesis using False i q by (simp add: nth_append length_q_list nth_q_list)
  qed
  finally show "q_list (pushed q v) ! i = (q_list q @ [v]) ! i" .
qed

lemma q_nowrap_pushed:
  assumes q: "q_inv q" and nw: "q_nowrap q" and room: "q_size q + 1 < unat (capacity q)"
  shows "q_nowrap (pushed q v)" and "idx_head (pushed q v) < idx_tail (pushed q v)"
    and "unat (idx_head (pushed q v)) = unat (idx_head q) + 1"
proof -
  have "unat (idx_head q) + 1 < unat (idx_tail q)"
    using nw room by (simp add: q_size_nowrap [OF nw] q_nowrap_def)
  then have "idx_head q < idx_tail q" by (simp add: word_less_nat_alt)
  then show h: "unat (idx_head (pushed q v)) = unat (idx_head q) + 1" by (simp add: unat_succ_less)
  show "q_nowrap (pushed q v)" using nw h by (simp add: q_nowrap_def)
  show "idx_head (pushed q v) < idx_tail (pushed q v)"
    using h \<open>unat (idx_head q) + 1 < unat (idx_tail q)\<close> by (simp add: word_less_nat_alt)
qed

lemma threadscan_queue_push_eq:
  assumes q: "q_inv q" and nw: "dbg \<longrightarrow> q_nowrap q" and room: "length (q_list q) + 1 < unat (capacity q)"
  shows "threadscan_queue_push dbg q v = Inr (pushed q v)"
proof -
  let ?i = "INDEXIFY (idx_head q) (capacity q)"
  have i: "unat ?i = unat (idx_head q) mod unat (capacity q)"
    by (rule INDEXIFY_unat [OF q_inv_cap [OF q]])
  have "unat ?i < length (elems q)" using q q_inv_cap_bounds(1) [OF q] by (simp add: i q_inv_def)
  then have "wr (elems q) (uint ?i) v = Inr ((elems q)[unat ?i := v])"
    by (auto simp: wr_def uint_less_iff_unat unat_eq_nat_uint [symmetric])
  moreover have "dbg \<longrightarrow> idx_head q + 1 < idx_tail q"
    using q_nowrap_pushed(2) [OF q] nw room by (simp add: length_q_list [OF q])
  ultimately show ?thesis
    by (auto simp: threadscan_queue_push_def c_assert_def i pushed_def)
qed

text \<open>The queue after the \<open>m\<close> oldest values have been popped.\<close>

definition popped :: "queue_t \<Rightarrow> nat \<Rightarrow> queue_t" where
  "popped q m = q\<lparr>idx_tail := idx_tail q + of_nat m\<rparr>"

lemma unat_of_nat_64: "m < 2 ^ 64 \<Longrightarrow> unat (of_nat m :: size_t) = m"
  by (simp add: unat_of_nat)

lemma q_size_less:
  assumes "q_inv q"
  shows "q_size q < 2 ^ 63"
  using q_inv_cap_bounds(2) [OF assms] assms by (simp add: q_inv_def)

lemma q_size_popped:
  assumes q: "q_inv q" and m: "m \<le> q_size q"
  shows "q_size (popped q m) = q_size q - m"
proof -
  let ?sz = "idx_head q - (idx_tail q - capacity q)"
  have mw: "unat (of_nat m :: size_t) = m"
    using m q_size_less [OF q] by (intro unat_of_nat_64) simp
  have "q_size (popped q m) = unat (?sz - of_nat m)"
    by (simp add: q_size_def popped_def algebra_simps)
  moreover have "of_nat m \<le> ?sz" using m mw by (simp add: word_le_nat_alt q_size_def)
  ultimately show ?thesis by (simp only: unat_sub mw q_size_def)
qed

lemma popped_correct:
  assumes q: "q_inv q" and m: "m \<le> q_size q"
  shows "q_inv (popped q m)" and "q_list (popped q m) = drop m (q_list q)"
proof -
  let ?N = "unat (capacity q)"
  have len: "length (elems q) = ?N" and sz: "q_size q < ?N" using q by (auto simp: q_inv_def)
  note qs = q_size_popped [OF q m]
  show q': "q_inv (popped q m)"
    using q qs by (auto simp: q_inv_def popped_def)
  have "unat (idx_tail q + of_nat m) mod ?N = (unat (idx_tail q) + m) mod ?N"
    using unat_add_mod_pow2 [OF q_inv_cap [OF q]] m q_size_less [OF q]
    by (simp add: unat_of_nat_64)
  then have "((unat (idx_tail q + of_nat m)) + i) mod ?N = (unat (idx_tail q) + (m + i)) mod ?N" for i
    by (metis add.assoc mod_add_left_eq)
  then show "q_list (popped q m) = drop m (q_list q)"
    using q q' m qs
    by (intro nth_equalityI) (auto simp: length_q_list nth_q_list, simp add: popped_def)
qed

lemma q_nowrap_popped:
  assumes q: "q_inv q" and nw: "q_nowrap q" and m: "m \<le> q_size q"
    and wrap: "unat (idx_head q) + unat (capacity q) < 2 ^ 64"
  shows "q_nowrap (popped q m)"
proof -
  have "unat (idx_tail q) + m < 2 ^ 64"
    using m wrap nw by (auto simp: q_size_nowrap [OF nw] q_nowrap_def)
  then have "unat (idx_tail q + of_nat m) = unat (idx_tail q) + m"
    by (simp add: unat_word_ariths unat_of_nat)
  then show ?thesis
    using nw m by (auto simp: q_nowrap_def popped_def q_size_nowrap [OF nw])
qed

text \<open>The values popped are contiguous in the buffer, or are its end followed by its start.\<close>

lemma rotate_slices:
  assumes len: "length E = N" and m: "m < N" and h: "h = (T + m) mod N" and s: "s = T mod N"
  shows "h < s \<Longrightarrow> take m (rotate T E) = take (N - s) (drop s E) @ take h E \<and> m = N - s + h"
    and "\<not> h < s \<Longrightarrow> take m (rotate T E) = take (h - s) (drop s E) \<and> m = h - s"
proof -
  have sN: "s < N" and hN: "h < N" using m s h by simp_all
  have rot: "rotate T E = drop s E @ take s E" by (simp add: rotate_drop_take len s)
  have h': "h = (s + m) mod N" using h s by (simp add: mod_add_left_eq)
  have "m = N - s + h" if "h < s"
  proof -
    have "\<not> s + m < N" using that h' by auto
    then have "h = s + m - N" using h' sN m by (simp add: mod_if)
    then show ?thesis using sN \<open>\<not> s + m < N\<close> by simp
  qed
  moreover have "m = h - s" if "\<not> h < s"
  proof -
    have "s + m < N" using that h' sN m by (auto simp: mod_if split: if_splits)
    then show ?thesis using h' by simp
  qed
  ultimately show "h < s \<Longrightarrow> take m (rotate T E) = take (N - s) (drop s E) @ take h E \<and> m = N - s + h"
    and "\<not> h < s \<Longrightarrow> take m (rotate T E) = take (h - s) (drop s E) \<and> m = h - s"
    using sN hN m len by (auto simp: rot)
qed

text \<open>Two copies, one after the other, make one copy of the concatenation.\<close>

lemma memcpy_twice:
  assumes "d + n + n' \<le> length dst" and "s + n \<le> length src" and "s' + n' \<le> length src"
  shows "bindE (memcpy dst d src s n) (\<lambda>dst. memcpy dst (d + n) src s' n') =
    Inr (take d dst @ (take n (drop s src) @ take n' (drop s' src)) @ drop (d + (n + n')) dst)"
proof -
  let ?dst = "take d dst @ take n (drop s src) @ drop (d + n) dst"
  have 1: "memcpy dst d src s n = Inr ?dst" using assms by (intro memcpy_ok) auto
  have 2: "length (take d dst @ take n (drop s src)) = d + n" "length ?dst = length dst"
    using assms by auto
  have "memcpy ?dst (d + n) src s' n' = Inr (take (d + n) ?dst @ take n' (drop s' src) @ drop (d + n + n') ?dst)"
    using assms 2 by (intro memcpy_ok) auto
  then show ?thesis using 1 2(1) assms by (simp add: ac_simps)
qed

lemma memcpy_skip:
  "(if 0 < n then memcpy dst d src s (unat n) else Inr dst) = memcpy dst d src s (unat n)"
  for n :: size_t
  by (auto simp: memcpy_def word_gt_0)

text \<open>The copying part of \<^verbatim>\<open>threadscan_queue_pop_bulk\<close>: one copy, or two when the values wrap around.\<close>

lemma pop_copy:
  fixes h s cap :: size_t
  assumes E: "length E = unat cap" and m: "m < unat cap" and room: "d + m \<le> length vals"
    and h: "unat h = (T + m) mod unat cap" and s: "unat s = T mod unat cap"
  shows "bindE (if h < s
      then bindE (memcpy vals d E (unat s) (unat (cap - s))) (\<lambda>vals. Inr (vals, cap - s, 0))
      else Inr (vals, 0, s)) (\<lambda>(vals, values_offset, start).
    let elements = h - start in
    bindE (if elements > 0
           then memcpy vals (d + unat values_offset) E (unat start) (unat elements)
           else Inr vals) k) =
    k (take d vals @ take m (rotate T E) @ drop (d + m) vals)"
proof (cases "h < s")
  case True
  have hN: "unat h < unat cap" "unat s < unat cap" using m h s by simp_all
  have cs: "unat (cap - s) = unat cap - unat s" using hN by (simp add: unat_sub word_le_nat_alt)
  note sl = rotate_slices(1) [OF E m h s, folded word_less_nat_alt, OF True]
  have "bindE (memcpy vals d E (unat s) (unat cap - unat s))
      (\<lambda>vals. memcpy vals (d + (unat cap - unat s)) E 0 (unat h)) =
      Inr (take d vals @ (take (unat cap - unat s) (drop (unat s) E) @ take (unat h) (drop 0 E))
        @ drop (d + (unat cap - unat s + unat h)) vals)"
    using room hN E conjunct2 [OF sl] by (intro memcpy_twice) auto
  also have "\<dots> = Inr (take d vals @ take m (rotate T E) @ drop (d + m) vals)"
    by (simp only: conjunct1 [OF sl] drop_0 conjunct2 [OF sl, symmetric])
  finally have "bindE (bindE (memcpy vals d E (unat s) (unat cap - unat s))
      (\<lambda>vals. memcpy vals (d + (unat cap - unat s)) E 0 (unat h))) k =
      k (take d vals @ take m (rotate T E) @ drop (d + m) vals)" by simp
  then show ?thesis using True by (simp add: cs bindE_assoc Let_def memcpy_skip)
next
  case False
  have hN: "unat h < unat cap" "unat s < unat cap" using m h s by simp_all
  have cs: "unat (h - s) = unat h - unat s" using False by (simp add: unat_sub)
  note sl = rotate_slices(2) [OF E m h s, folded word_less_nat_alt, OF False]
  have "memcpy vals d E (unat s) (unat h - unat s) =
      Inr (take d vals @ take (unat h - unat s) (drop (unat s) E) @ drop (d + (unat h - unat s)) vals)"
    using room hN E conjunct2 [OF sl] by (intro memcpy_ok) auto
  also have "\<dots> = Inr (take d vals @ take m (rotate T E) @ drop (d + m) vals)"
    by (simp only: conjunct1 [OF sl] conjunct2 [OF sl, symmetric])
  finally show ?thesis using False by (simp add: cs Let_def memcpy_skip)
qed

lemma int_of_popped:
  assumes "unat sz = m" and "m < 2 ^ 31"
  shows "sint (ucast (sz :: size_t) :: 32 word) = int m"
proof -
  have u: "unat (ucast sz :: 32 word) = m"
    using assms by (simp add: unsigned_ucast_eq take_bit_nat_eq_self)
  have "uint (ucast sz :: 32 word) = int (unat (ucast sz :: 32 word))" by simp
  then show ?thesis using assms(2) sint_small_32 [of "ucast sz"] by (simp add: u)
qed

lemma threadscan_queue_pop_bulk_eq:
  assumes q: "q_inv q" and m: "m = min (unat len) (q_size q)" and room: "d + m \<le> length vals"
    and small: "m < 2 ^ 31" and len: "dbg \<longrightarrow> len < 0xF00000000000000"
    and nz: "dbg \<longrightarrow> 0 \<notin> set (take m (q_list q))"
  shows "threadscan_queue_pop_bulk dbg vals d len q =
    Inr (int m, take d vals @ take m (q_list q) @ drop (d + m) vals, popped q m)"
proof (cases "idx_head q - (idx_tail q - capacity q) = 0")
  case True
  then have "m = 0" using m by (simp add: q_size_def)
  with True len show ?thesis
    by (simp add: threadscan_queue_pop_bulk_def c_assert_def popped_def)
next
  case False
  define sz where "sz = idx_head q - (idx_tail q - capacity q)"
  define sz' where "sz' = (if sz > len then len else sz)"
  define hd' where "hd' = (if sz > len then idx_head q - (sz - len) else idx_head q)"
  have usz: "unat sz' = m" using m by (simp add: sz'_def q_size_def sz_def word_less_nat_alt)
  have szw: "sz' = of_nat m" by (simp add: usz [symmetric])
  have hd': "hd' + capacity q = idx_tail q + sz'" by (simp add: hd'_def sz'_def sz_def)
  have E: "length (elems q) = unat (capacity q)" and mN: "m < unat (capacity q)"
    using q m by (auto simp: q_inv_def)
  note pow = q_inv_cap [OF q]
  have h: "unat (INDEXIFY hd' (capacity q)) = (unat (idx_tail q) + m) mod unat (capacity q)"
    using slot_shift [OF pow hd'] by (simp add: INDEXIFY_unat [OF pow] usz)
  have s: "unat (INDEXIFY (idx_tail q) (capacity q)) = unat (idx_tail q) mod unat (capacity q)"
    by (simp add: INDEXIFY_unat [OF pow])
  have ql: "take m (q_list q) = take m (rotate (unat (idx_tail q)) (elems q))"
    using m by (simp add: q_list_def)
  let ?out = "take d vals @ take m (q_list q) @ drop (d + m) vals"
  have take_out: "take m (drop d ?out) = take m (q_list q)"
    using room m length_q_list [OF q] by simp
  have "threadscan_queue_pop_bulk dbg vals d len q =
    bindE (c_assert dbg (\<forall>x \<in> set (take (unat sz') (drop d ?out)). x \<noteq> 0)) (\<lambda>_.
      Inr (sint (ucast sz' :: 32 word), ?out, q\<lparr>idx_tail := hd' + capacity q\<rparr>))"
  proof -
    have "c_assert dbg (len < 0xF00000000000000) = Inr ()" using len by (simp add: c_assert_def)
    moreover have "(sz = 0) = False" using False by (simp add: sz_def)
    ultimately show ?thesis
      unfolding threadscan_queue_pop_bulk_def Let_def sz_def [symmetric] hd'_def [symmetric]
        sz'_def [symmetric]
      by (simp only: bindE_simps if_False pop_copy [OF E mN room h s, unfolded Let_def] ql)
  qed
  moreover have "c_assert dbg (\<forall>x \<in> set (take (unat sz') (drop d ?out)). x \<noteq> 0) = Inr ()"
    unfolding usz take_out using nz by (auto simp: c_assert_def)
  ultimately show ?thesis
    by (simp only: bindE_simps int_of_popped [OF usz small] hd' popped_def) (simp add: szw)
qed

text \<open>Pushing a list of values one after the other.\<close>

fun push_all :: "('q \<Rightarrow> size_t \<Rightarrow> 'q res) \<Rightarrow> 'q \<Rightarrow> size_t list \<Rightarrow> 'q res" where
  "push_all psh q [] = Inr q"
| "push_all psh q (v # vs) = bindE (psh q v) (\<lambda>q. push_all psh q vs)"

text \<open>
  The interface: a queue has contents (oldest first), room for fewer than \<open>room q\<close> values, and a
  budget of pushes after which its 64-bit counters would wrap.
\<close>

locale fifo_queue =
  fixes invar :: "'q \<Rightarrow> bool"
    and contents :: "'q \<Rightarrow> size_t list"
    and room :: "'q \<Rightarrow> nat"
    and budget :: "'q \<Rightarrow> nat"
    and push :: "'q \<Rightarrow> size_t \<Rightarrow> 'q res"
    and full :: "'q \<Rightarrow> bool res"
    and pop :: "nat \<Rightarrow> 'q \<Rightarrow> (size_t list \<times> 'q) res"
  assumes full_iff: "invar q \<Longrightarrow> full q = Inr (room q \<le> length (contents q) + 1)"
    and push_spec: "invar q \<Longrightarrow> length (contents q) + 1 < room q \<Longrightarrow> v \<noteq> 0 \<Longrightarrow> 0 < budget q \<Longrightarrow>
      returns (push q v) (\<lambda>q'. invar q' \<and> contents q' = contents q @ [v] \<and> room q' = room q \<and>
        budget q' = budget q - 1)"
    and pop_spec: "invar q \<Longrightarrow> m < 2 ^ 31 \<Longrightarrow>
      returns (pop m q) (\<lambda>(vs, q'). invar q' \<and> vs = take m (contents q) \<and>
        contents q' = drop m (contents q) \<and> room q' = room q \<and> budget q' = budget q)"
begin

text \<open>A push on a queue that is not full is possible, and leaves it at most full.\<close>

lemma push_when_not_full:
  assumes "invar q" and "full q = Inr False" and "v \<noteq> 0" and "0 < budget q"
  shows "returns (push q v) (\<lambda>q'. invar q' \<and> contents q' = contents q @ [v])"
  using push_spec [of q v] full_iff [of q] assms by (auto elim!: returns_mono)

lemma push_all_spec:
  "invar q \<Longrightarrow> length (contents q) + length vs < room q \<Longrightarrow> 0 \<notin> set vs \<Longrightarrow> length vs \<le> budget q \<Longrightarrow>
   returns (push_all push q vs) (\<lambda>q'. invar q' \<and> contents q' = contents q @ vs \<and> room q' = room q)"
proof (induction vs arbitrary: q)
  case (Cons v vs)
  then obtain q' where "push q v = Inr q'" "invar q'" "contents q' = contents q @ [v]"
    "room q' = room q" "budget q' = budget q - 1"
    using push_spec [of q v] by (fastforce elim!: returnsE)
  with Cons.prems Cons.IH [of q'] show ?case by auto
qed simp

text \<open>First in, first out: what was pushed comes out in order, after what was there before.\<close>

lemma fifo:
  assumes "invar q" and "length (contents q) + length vs < room q" and "0 \<notin> set vs"
    and "length vs \<le> budget q" and "length (contents q) + length vs < 2 ^ 31"
  shows "returns (bindE (push_all push q vs) (pop (length (contents q) + length vs)))
    (\<lambda>(out, q'). out = contents q @ vs \<and> contents q' = [])"
proof -
  obtain q' where q': "push_all push q vs = Inr q'" "invar q'" "contents q' = contents q @ vs"
    using push_all_spec [OF assms(1-4)] by (auto elim!: returnsE)
  with pop_spec [OF q'(2) assms(5)] show ?thesis by (auto elim!: returns_mono)
qed

end

text \<open>Popping up to \<open>m\<close> values into a fresh array.\<close>

definition pop_values :: "bool \<Rightarrow> nat \<Rightarrow> queue_t \<Rightarrow> (size_t list \<times> queue_t) res" where
  "pop_values dbg m q =
     bindE (threadscan_queue_pop_bulk dbg (replicate m 0) 0 (of_nat m) q) (\<lambda>(n, vals, q).
     Inr (take (nat n) vals, q))"

text \<open>The invariant of a thread's queue: no counter has wrapped and no value is null.\<close>

definition q_ok :: "queue_t \<Rightarrow> bool" where
  "q_ok q \<longleftrightarrow> q_inv q \<and> q_nowrap q \<and> 0 \<notin> set (q_list q) \<and>
     unat (idx_head q) + unat (capacity q) < 2 ^ 64"

definition q_budget :: "queue_t \<Rightarrow> nat" where
  "q_budget q = 2 ^ 64 - 1 - unat (capacity q) - unat (idx_head q)"

lemma pop_values_correct:
  assumes q: "q_ok q" and m: "m < 2 ^ 31"
  shows "returns (pop_values dbg m q) (\<lambda>(vs, q'). q_ok q' \<and> vs = take m (q_list q) \<and>
    q_list q' = drop m (q_list q) \<and> unat (capacity q') = unat (capacity q) \<and> q_budget q' = q_budget q)"
proof -
  define k where "k = min m (q_size q)"
  have mw: "unat (of_nat m :: size_t) = m" using m by (intro unat_of_nat_64) simp
  have qi: "q_inv q" using q by (simp add: q_ok_def)
  have mlt: "(of_nat m :: size_t) < 0xF00000000000000" using m mw by (simp add: word_less_nat_alt)
  have nz: "0 \<notin> set (take k (q_list q))" "0 \<notin> set (drop k (q_list q))"
    using q by (auto simp: q_ok_def dest: in_set_takeD in_set_dropD)
  have len: "length (q_list q) = q_size q" by (rule length_q_list [OF qi])
  have "threadscan_queue_pop_bulk dbg (replicate m 0) 0 (of_nat m) q =
      Inr (int k, take k (q_list q) @ drop k (replicate m 0), popped q k)"
    using threadscan_queue_pop_bulk_eq [OF qi, of k "of_nat m" 0 "replicate m 0" dbg] m mw nz(1) mlt
    by (simp add: k_def)
  moreover have "take k (q_list q) = take m (q_list q)" "drop k (q_list q) = drop m (q_list q)"
    by (auto simp: k_def len min_def)
  moreover have "q_ok (popped q k)"
    using q nz(2) popped_correct [OF qi, of k] q_nowrap_popped [OF qi, of k]
    by (simp add: q_ok_def k_def popped_def)
  ultimately show ?thesis
    using popped_correct(2) [OF qi, of k] len
    by (simp add: pop_values_def k_def q_budget_def popped_def)
qed

lemma push_correct:
  assumes q: "q_ok q" and room: "length (q_list q) + 1 < unat (capacity q)" and "v \<noteq> 0"
    and b: "0 < q_budget q"
  shows "returns (threadscan_queue_push dbg q v) (\<lambda>q'. q_ok q' \<and> q_list q' = q_list q @ [v] \<and>
    unat (capacity q') = unat (capacity q) \<and> q_budget q' = q_budget q - 1)"
proof -
  have qi: "q_inv q" "q_nowrap q" using q by (auto simp: q_ok_def)
  have room': "q_size q + 1 < unat (capacity q)" using room by (simp add: length_q_list [OF qi(1)])
  note nw = q_nowrap_pushed [OF qi room', of v]
  have "q_ok (pushed q v)"
    using q assms(3) b nw(1,3) q_inv_pushed [OF qi(1) room'] q_list_pushed [OF qi(1) room', of v]
    by (simp add: q_ok_def q_budget_def)
  then show ?thesis
    using threadscan_queue_push_eq [OF qi(1) _ room] qi(2) q_list_pushed [OF qi(1) room', of v] nw(3)
    by (simp add: q_budget_def)
qed

interpretation queue: fifo_queue q_ok q_list "\<lambda>q. unat (capacity q)" q_budget
  "threadscan_queue_push dbg" "threadscan_queue_is_full dbg" "pop_values dbg" for dbg
  by unfold_locales
     (use threadscan_queue_is_full_correct push_correct pop_values_correct in \<open>auto simp: q_ok_def\<close>)

subsection \<open>Properties\<close>

text \<open>
  (C19) First in, first out: values pushed on a thread's queue, as long as it is not full, come out of
  \<^verbatim>\<open>threadscan_queue_pop_bulk\<close> in the order they went in, after the values that were there before,
  wherever in the circular buffer they lie, and the queue is empty afterwards.
\<close>

theorem queue_fifo:
  assumes "q_ok q" and "length (q_list q) + length vs < unat (capacity q)" and "0 \<notin> set vs"
    and "length vs \<le> q_budget q" and "length (q_list q) + length vs < 2 ^ 31"
  shows "returns (bindE (push_all (threadscan_queue_push dbg) q vs)
      (pop_values dbg (length (q_list q) + length vs)))
    (\<lambda>(out, q'). out = q_list q @ vs \<and> q_list q' = [])"
  using assms by (rule queue.fifo)

theorem queue_fifo_witness:
  "returns (bindE (push_all (threadscan_queue_push True) (threadscan_queue_init [0, 0, 0, 0] 4) [8, 16])
      (pop_values True (length (q_list (threadscan_queue_init [0, 0, 0, 0] 4)) + length [8, 16 :: size_t])))
    (\<lambda>(out, q'). out = q_list (threadscan_queue_init [0, 0, 0, 0] 4) @ [8, 16] \<and> q_list q' = [])"
proof (rule queue_fifo)
  have k: "\<exists>k < 63. unat (4 :: size_t) = 2 ^ k" by (rule exI [of _ 2]) simp
  show "q_ok (threadscan_queue_init [0, 0, 0, 0] 4)"
    using threadscan_queue_init_correct [OF k, of "[0, 0, 0, 0]"]
    by (simp add: q_ok_def threadscan_queue_init_def)
qed (simp_all add: threadscan_queue_init_def q_list_def q_size_def q_budget_def)

text \<open>
  \<^verbatim>\<open>threadscan_queue_pop_bulk\<close> copies out the oldest \<open>min len size\<close> values and removes exactly
  those, also after the 64-bit counters of the queue have wrapped (the hypothesis \<open>q_inv\<close> allows it):
  masking the absolute indices stays correct.
\<close>

theorem queue_pop_bulk_exact:
  assumes "q_inv q" and "m = min (unat len) (length (q_list q))" and "d + m \<le> length vals"
    and "m < 2 ^ 31" and "len < 0xF00000000000000" and "0 \<notin> set (q_list q)"
  shows "\<exists>q'. threadscan_queue_pop_bulk dbg vals d len q =
      Inr (int m, take d vals @ take m (q_list q) @ drop (d + m) vals, q') \<and>
    q_inv q' \<and> q_list q' = drop m (q_list q)"
proof -
  have m: "m = min (unat len) (q_size q)" using assms(2) length_q_list [OF assms(1)] by simp
  have "0 \<notin> set (take m (q_list q))" using assms(6) by (meson in_set_takeD)
  then have "threadscan_queue_pop_bulk dbg vals d len q =
      Inr (int m, take d vals @ take m (q_list q) @ drop (d + m) vals, popped q m)"
    using assms by (intro threadscan_queue_pop_bulk_eq [OF assms(1) m]) auto
  then show ?thesis using popped_correct [OF assms(1), of m] m by auto
qed

text \<open>The witness has both counters past \<open>2 ^ 64 - 2\<close>: the two values wrap around the buffer.\<close>

theorem queue_pop_bulk_exact_witness:
  "\<exists>q'. threadscan_queue_pop_bulk True [0, 0, 0] 0 3
       \<lparr>elems = [16, 0, 0, 8], capacity = 4, idx_head = 1, idx_tail = 3\<rparr> =
      Inr (int 2, take 0 [0, 0, 0] @
        take 2 (q_list \<lparr>elems = [16, 0, 0, 8], capacity = 4, idx_head = 1, idx_tail = 3\<rparr>) @ drop (0 + 2) [0, 0, 0], q') \<and>
    q_inv q' \<and> q_list q' = drop 2 (q_list \<lparr>elems = [16, 0, 0, 8], capacity = 4, idx_head = 1, idx_tail = 3\<rparr>)"
proof (rule queue_pop_bulk_exact)
  have "q_list \<lparr>elems = [16, 0, 0, 8], capacity = 4, idx_head = 1, idx_tail = 3\<rparr> = [8, 16]"
    by (simp add: q_list_def q_size_def rotate_drop_take)
  then show "2 = min (unat (3 :: size_t))
      (length (q_list \<lparr>elems = [16, 0, 0, 8], capacity = 4, idx_head = 1, idx_tail = 3\<rparr>))"
    "0 \<notin> set (q_list \<lparr>elems = [16, 0, 0, 8], capacity = 4, idx_head = 1, idx_tail = 3\<rparr>)"
    by simp_all
  have "\<exists>k < 63. (4 :: nat) = 2 ^ k" by (rule exI [of _ 2]) simp
  then show "q_inv \<lparr>elems = [16, 0, 0, 8], capacity = 4, idx_head = 1, idx_tail = 3\<rparr>"
    by (simp add: q_inv_def q_size_def)
qed simp_all

text \<open>
  The test that guards every push: on a queue in its invariant \<^verbatim>\<open>threadscan_queue_is_full\<close> answers
  whether one more value would fill the buffer, so that one slot always stays unused.
\<close>

theorem queue_full_exact:
  assumes "q_ok q"
  shows "threadscan_queue_is_full dbg q = Inr (unat (capacity q) \<le> length (q_list q) + 1)"
  using assms by (rule queue.full_iff)

theorem queue_full_exact_witness:
  "threadscan_queue_is_full True (threadscan_queue_init [0, 0, 0, 0] 4) =
   Inr (unat (capacity (threadscan_queue_init [0, 0, 0, 0] 4)) \<le>
     length (q_list (threadscan_queue_init [0, 0, 0, 0] 4)) + 1)"
proof (rule queue_full_exact)
  have k: "\<exists>k < 63. unat (4 :: size_t) = 2 ^ k" by (rule exI [of _ 2]) simp
  show "q_ok (threadscan_queue_init [0, 0, 0, 0] 4)"
    using threadscan_queue_init_correct [OF k, of "[0, 0, 0, 0]"]
    by (simp add: q_ok_def threadscan_queue_init_def)
qed


end
