(* ===== verification/TS_Search.thy ===== *)
theory TS_Search
  imports TS_Prelude
begin

text \<open>
  The search of \<^verbatim>\<open>threadscan.c\<close>: the global \<^verbatim>\<open>g_tsdata\<close>, the two-level search for an address
  (\<^verbatim>\<open>generate_scan_map\<close>, \<^verbatim>\<open>iterative_search\<close>, \<^verbatim>\<open>binary_search\<close>), the scan of a range of memory
  (\<^verbatim>\<open>do_search\<close>, \<^verbatim>\<open>search_range\<close>) that marks the low bit of every address it finds, and the sweep
  (\<^verbatim>\<open>handle_unreferenced_ptrs\<close>) that frees the unmarked ones.

  The working buffer that \<^verbatim>\<open>threadscan_reclaim\<close> allocates is one list of 64-bit words; the scan map
  is the part of it that starts \<open>offset_list[0]\<close> bytes in. Memory of the scanned program is a partial
  map from addresses to 64-bit words.
\<close>

subsection \<open>Data\<close>

record threadscan_data =
  max_ptrs :: int
  n_addrs :: int
  buf_addrs :: size_t
  n_scan_map :: int
  buf_scan_map :: size_t
  working_buffer_sz :: size_t
  offset_list :: "size_t list"
  storage :: size_t

record mem_range =
  low :: size_t
  high :: size_t

definition PAGESIZE :: size_t where
  "PAGESIZE = 0x1000"

definition PAGEALIGN :: "size_t \<Rightarrow> size_t" where
  "PAGEALIGN addr = addr AND NOT (PAGESIZE - 1)"

definition PTR_MASK :: "size_t \<Rightarrow> size_t" where
  "PTR_MASK v = v AND NOT 3"

text \<open>\<^verbatim>\<open>PAGESIZE / sizeof(size_t)\<close>, as an \<^verbatim>\<open>int\<close> index.\<close>

definition page_elems :: int where
  "page_elems = uint (PAGESIZE div 8)"

text \<open>\<^verbatim>\<open>SET_LOW_BIT(&a[i])\<close>.\<close>

definition SET_LOW_BIT :: "size_t list \<Rightarrow> int \<Rightarrow> size_t list res" where
  "SET_LOW_BIT a i =
     bindE (rd a i) (\<lambda>v. if v AND 1 = 0 then wr a i (v + 1) else Inr a)"

text \<open>The index in the working buffer, in words, at which the scan map starts.\<close>

definition scan_map_index :: "threadscan_data \<Rightarrow> int" where
  "scan_map_index ts = uint (buf_scan_map ts - buf_addrs ts) div 8"

text \<open>Debug builds check that the addresses are strictly increasing and that none is zero.\<close>

function assert_monotonicity_loop :: "size_t list \<Rightarrow> int \<Rightarrow> size_t \<Rightarrow> int \<Rightarrow> unit res" where
  "assert_monotonicity_loop a n prev i =
     (if i < n then
        bindE (rd a i) (\<lambda>v.
        if v \<le> prev then Inl (Fatal ''The list is not monotonic'')
        else assert_monotonicity_loop a n v (i + 1))
      else Inr ())"
  by pat_completeness auto
termination
  by (relation "measure (\<lambda>(_, n, _, i). nat (n - i))") auto

declare assert_monotonicity_loop.simps [simp del]

definition assert_monotonicity :: "bool \<Rightarrow> size_t list \<Rightarrow> int \<Rightarrow> unit res" where
  "assert_monotonicity dbg a n = (if dbg then assert_monotonicity_loop a n 0 0 else Inr ())"

subsection \<open>The scan map and the search for one address\<close>

text \<open>The loop of \<^verbatim>\<open>generate_scan_map\<close>: \<open>a\<close> is the working buffer, \<open>so\<close> the index of the scan map.\<close>

function generate_scan_map_loop ::
  "int \<Rightarrow> int \<Rightarrow> size_t list \<Rightarrow> int \<Rightarrow> int \<Rightarrow> (size_t list \<times> int) res" where
  "generate_scan_map_loop so n a i nm =
     (if i < n then
        bindE (rd a i) (\<lambda>v.
        bindE (wr a (so + nm) v) (\<lambda>a.
        generate_scan_map_loop so n a (i + page_elems) (nm + 1)))
      else Inr (a, nm))"
  by pat_completeness auto
termination
  by (relation "measure (\<lambda>(_, n, _, i, _). nat (n - i))") (auto simp: page_elems_def PAGESIZE_def)

declare generate_scan_map_loop.simps [simp del]

definition generate_scan_map ::
  "threadscan_data \<Rightarrow> size_t list \<Rightarrow> (threadscan_data \<times> size_t list) res" where
  "generate_scan_map ts a =
     bindE (generate_scan_map_loop (scan_map_index ts) (n_addrs ts) a 0 0) (\<lambda>(a, nm).
     Inr (ts\<lparr>n_scan_map := nm\<rparr>, a))"

function iterative_loop :: "size_t \<Rightarrow> size_t list \<Rightarrow> int \<Rightarrow> int \<Rightarrow> int res" where
  "iterative_loop val a mn mx =
     (if mn < mx then
        bindE (rd a mn) (\<lambda>cmp.
        if cmp = val then Inr mn
        else if cmp > val then Inr (mn - 1)
        else iterative_loop val a (mn + 1) mx)
      else Inr (mn - 1))"
  by pat_completeness auto
termination
  by (relation "measure (\<lambda>(_, _, mn, mx). nat (mx - mn))") auto

declare iterative_loop.simps [simp del]

definition iterative_search :: "size_t \<Rightarrow> size_t list \<Rightarrow> int \<Rightarrow> int \<Rightarrow> int res" where
  "iterative_search val a mn mx =
     bindE (rd a mn) (\<lambda>v.
     if v > val \<or> mn = mx then Inr mn else iterative_loop val a mn mx)"

definition BINARY_THRESHOLD :: int where
  "BINARY_THRESHOLD = 32"

lemma middle_between:
  "BINARY_THRESHOLD \<le> mx - mn \<Longrightarrow> mn < (mx + mn) sdiv 2 \<and> (mx + mn) sdiv 2 < mx" for mn mx :: int
  by (auto simp: signed_divide_int_def sgn_if BINARY_THRESHOLD_def)

function binary_search :: "size_t \<Rightarrow> size_t list \<Rightarrow> int \<Rightarrow> int \<Rightarrow> int res" where
  "binary_search val a mn mx =
     (if mx - mn \<ge> BINARY_THRESHOLD then
        let mid = (mx + mn) sdiv 2 in
        bindE (rd a mid) (\<lambda>cmp.
        if cmp = val then Inr mid
        else if cmp > val then binary_search val a mn mid
        else binary_search val a mid mx)
      else iterative_search val a mn mx)"
  by pat_completeness auto
termination
  by (relation "measure (\<lambda>(_, _, mn, mx). nat (mx - mn))") (auto dest!: middle_between)

declare binary_search.simps [simp del]

subsection \<open>The scan of a range of memory\<close>

text \<open>
  The body of the loop of \<^verbatim>\<open>do_search\<close> for the word \<open>w\<close> read from memory. The last branch is the
  cross-check of a debug build.
\<close>

definition search_word ::
  "bool \<Rightarrow> threadscan_data \<Rightarrow> size_t \<Rightarrow> size_t \<Rightarrow> size_t list \<Rightarrow> size_t \<Rightarrow> size_t list res" where
  "search_word dbg ts min_ptr max_ptr a w =
     (let cmp = PTR_MASK w in
      if cmp < min_ptr \<or> cmp > max_ptr then Inr a
      else if min_ptr = cmp then SET_LOW_BIT a 0
      else if max_ptr = cmp then SET_LOW_BIT a (n_addrs ts - 1)
      else
        bindE (binary_search cmp (drop (nat (scan_map_index ts)) a) 0 (n_scan_map ts)) (\<lambda>v.
        bindE (binary_search cmp a (v * page_elems)
                 (if v = n_scan_map ts - 1 then n_addrs ts else (v + 1) * page_elems)) (\<lambda>loc.
        bindE (rd a loc) (\<lambda>x.
        if x = cmp then SET_LOW_BIT a loc
        else if dbg then
          bindE (binary_search cmp a 0 (n_addrs ts)) (\<lambda>loc2.
          bindE (rd a loc2) (\<lambda>y.
          bindE (c_assert dbg (y \<noteq> cmp)) (\<lambda>_. Inr a)))
        else Inr a))))"

text \<open>A read of one word of the scanned program's memory.\<close>

definition load :: "(size_t \<rightharpoonup> size_t) \<Rightarrow> size_t \<Rightarrow> size_t res" where
  "load um p = (case um p of None \<Rightarrow> Inl Bad_access | Some w \<Rightarrow> Inr w)"

text \<open>The loop of \<^verbatim>\<open>do_search\<close>: \<open>n\<close> words are left, the next one is at address \<open>p\<close>.\<close>

fun do_search_loop ::
  "bool \<Rightarrow> threadscan_data \<Rightarrow> size_t \<Rightarrow> size_t \<Rightarrow> (size_t \<rightharpoonup> size_t) \<Rightarrow> nat \<Rightarrow> size_t \<Rightarrow>
   size_t list \<Rightarrow> size_t list res" where
  "do_search_loop dbg ts min_ptr max_ptr um 0 p a = Inr a"
| "do_search_loop dbg ts min_ptr max_ptr um (Suc n) p a =
     bindE (load um p) (\<lambda>w.
     bindE (search_word dbg ts min_ptr max_ptr a w) (\<lambda>a.
     do_search_loop dbg ts min_ptr max_ptr um n (p + 8) a))"

definition do_search ::
  "bool \<Rightarrow> threadscan_data \<Rightarrow> (size_t \<rightharpoonup> size_t) \<Rightarrow> size_t \<Rightarrow> size_t \<Rightarrow> size_t list \<Rightarrow>
   size_t list res" where
  "do_search dbg ts um mem range_size a =
     bindE (rd a 0) (\<lambda>min_ptr.
     bindE (rd a (n_addrs ts - 1)) (\<lambda>max_ptr.
     bindE (c_assert dbg (min_ptr \<le> max_ptr)) (\<lambda>_.
     do_search_loop dbg ts min_ptr max_ptr um (unat range_size) mem a)))"

definition search_range ::
  "bool \<Rightarrow> threadscan_data \<Rightarrow> (size_t \<rightharpoonup> size_t) \<Rightarrow> mem_range \<Rightarrow> size_t list \<Rightarrow> size_t list res" where
  "search_range dbg ts um r a =
     bindE (assert_monotonicity dbg a (n_addrs ts)) (\<lambda>_.
     do_search dbg ts um (low r) ((high r - low r) div 8) a)"

subsection \<open>The sweep\<close>

text \<open>
  The loop of \<^verbatim>\<open>handle_unreferenced_ptrs\<close>; the calls of \<^verbatim>\<open>free\<close> are collected in \<open>freed\<close>. The marked
  branch writes \<^verbatim>\<open>addrs[write_position]\<close> first and clears \<^verbatim>\<open>addrs[i]\<close> second, also when the two are
  the same element.
\<close>

function sweep_loop ::
  "int \<Rightarrow> size_t list \<Rightarrow> int \<Rightarrow> int \<Rightarrow> size_t list \<Rightarrow> (size_t list \<times> int \<times> size_t list) res" where
  "sweep_loop cnt addrs wp i freed =
     (if i < cnt then
        bindE (rd addrs i) (\<lambda>v.
        if v AND 1 \<noteq> 0 then
          bindE (wr addrs wp (PTR_MASK v)) (\<lambda>addrs.
          bindE (wr addrs i 0) (\<lambda>addrs.
          sweep_loop cnt addrs (wp + 1) (i + 1) freed))
        else
          bindE (wr addrs i 0) (\<lambda>addrs.
          sweep_loop cnt addrs wp (i + 1) (freed @ [v])))
      else Inr (addrs, wp, freed))"
  by pat_completeness auto
termination
  by (relation "measure (\<lambda>(cnt, _, _, i, _). nat (cnt - i))") auto

declare sweep_loop.simps [simp del]

text \<open>Result: the array, the number of addresses kept, the addresses passed to \<^verbatim>\<open>free\<close>.\<close>

definition handle_unreferenced_ptrs ::
  "size_t list \<Rightarrow> int \<Rightarrow> (size_t list \<times> int \<times> size_t list) res" where
  "handle_unreferenced_ptrs addrs cnt = sweep_loop cnt addrs 0 0 []"

subsection \<open>Aligned addresses and marks\<close>

text \<open>Addresses from an allocator are at least 4-aligned: \<open>PTR_MASK\<close> leaves them alone.\<close>

definition aligned4 :: "size_t \<Rightarrow> bool" where
  "aligned4 x \<longleftrightarrow> PTR_MASK x = x"

lemma PTR_MASK_unat: "unat (PTR_MASK v) = unat v div 4 * 4"
  using unat_and_not_mask [of v 2] by (simp add: PTR_MASK_def mask_eq_exp_minus_1)

lemma aligned4_iff [bits]: "aligned4 x \<longleftrightarrow> 4 dvd unat x"
  by (metis aligned4_def word_unat_eq_iff PTR_MASK_unat dvd_div_mult_self dvd_triv_right)

lemma PTR_MASK_aligned [simp]: "aligned4 (PTR_MASK v)"
  by (simp add: aligned4_iff PTR_MASK_unat)

lemma aligned4_0 [simp]: "aligned4 0"
  by (simp add: aligned4_iff)

lemma aligned4_even: "aligned4 x \<Longrightarrow> x AND 1 = 0"
  by (auto simp: aligned4_iff word_and_1_iff)

lemma unat_mark: 
  assumes "aligned4 x" shows "unat (x + 1) = unat x + 1"
proof -
  have "unat x + 1 < 2 ^ 64" using assms unat_less_2p64 [of x] by (simp add: aligned4_iff) presburger
  then show ?thesis by (simp add: unat_word_ariths)
qed

lemma aligned4_mark_odd: "aligned4 x \<Longrightarrow> (x + 1) AND 1 \<noteq> 0"
  by (auto simp: word_and_1_iff unat_mark aligned4_iff)

lemma PTR_MASK_mark [simp]: "aligned4 x \<Longrightarrow> PTR_MASK (x + 1) = x"
  by (auto simp: word_unat_eq_iff PTR_MASK_unat unat_mark aligned4_iff)

text \<open>\<open>mark b x\<close>: the address \<open>x\<close> with its low bit set when \<open>b\<close>.\<close>

definition mark :: "bool \<Rightarrow> size_t \<Rightarrow> size_t" where
  "mark b x = (if b then x + 1 else x)"

lemma unat_mark_bounds: "aligned4 x \<Longrightarrow> unat x \<le> unat (mark b x) \<and> unat (mark b x) \<le> unat x + 1"
  by (simp add: mark_def unat_mark)

lemma aligned4_less: "aligned4 x \<Longrightarrow> aligned4 y \<Longrightarrow> x < y \<Longrightarrow> unat x + 4 \<le> unat y"
  unfolding aligned4_iff word_less_nat_alt by presburger

text \<open>How a marked address compares with an aligned value.\<close>

lemma mark_less_iff [simp]:
  assumes "aligned4 x" and "aligned4 c"
  shows "mark b x < c \<longleftrightarrow> x < c"
  using assms aligned4_less [of x c] by (auto simp: mark_def word_less_nat_alt unat_mark)

lemma less_mark_iff [simp]:
  assumes "aligned4 x" and "aligned4 c"
  shows "c < mark b x \<longleftrightarrow> c < x \<or> (c = x \<and> b)"
  using assms aligned4_less [of x c]
  by (auto simp: mark_def word_less_nat_alt unat_mark word_unat_eq_iff aligned4_iff)

lemma mark_eq_iff [simp]:
  assumes "aligned4 x" and "aligned4 c"
  shows "mark b x = c \<longleftrightarrow> x = c \<and> \<not> b"
  using mark_less_iff [OF assms, of b] less_mark_iff [OF assms, of b] by (metis mark_def not_less_iff_gr_or_eq)

subsection \<open>Correctness of the search for one address\<close>

text \<open>
  \<open>splits val a mn mx t\<close>: in the range from \<open>mn\<close> up to \<open>mx\<close>, everything before \<open>t\<close> is smaller than
  \<open>val\<close> and everything after \<open>t\<close> is larger; the element at \<open>t\<close> is \<open>val\<close> or larger. The search needs
  no more order than this, so it also works on an array some of whose elements are marked.
\<close>

definition splits :: "size_t \<Rightarrow> size_t list \<Rightarrow> int \<Rightarrow> int \<Rightarrow> int \<Rightarrow> bool" where
  "splits val a mn mx t \<longleftrightarrow>
     mn \<le> t \<and> t \<le> mx \<and> (\<forall>k. mn \<le> k \<and> k < t \<longrightarrow> a ! nat k < val) \<and>
     (t < mx \<longrightarrow> val \<le> a ! nat t) \<and> (\<forall>k. t < k \<and> k < mx \<longrightarrow> val < a ! nat k)"

lemma splits_le: "splits val a mn mx t \<Longrightarrow> mn \<le> k \<Longrightarrow> val \<le> a ! nat k \<Longrightarrow> t \<le> k"
  by (metis linorder_not_less splits_def)

lemma splits_ge: "splits val a mn mx t \<Longrightarrow> k < mx \<Longrightarrow> a ! nat k \<le> val \<Longrightarrow> k \<le> t"
  by (metis linorder_not_less splits_def)

text \<open>Where the search ends: at \<open>val\<close> itself, else just before the place where it would be.\<close>

definition found_at :: "size_t \<Rightarrow> size_t list \<Rightarrow> int \<Rightarrow> int \<Rightarrow> int \<Rightarrow> int" where
  "found_at val a mn mx t = (if t < mx \<and> a ! nat t = val then t else max mn (t - 1))"

lemma iterative_loop_correct:
  assumes "0 \<le> mn" "mn \<le> mx" "mx \<le> int (length a)" "splits val a mn mx t"
  shows "iterative_loop val a mn mx = Inr (if t < mx \<and> a ! nat t = val then t else t - 1)"
  using assms
proof (induction val a mn mx rule: iterative_loop.induct)
  case (1 val a mn mx)
  show ?case
  proof (cases "mn < mx")
    case True
    have rd: "rd a mn = Inr (a ! nat mn)" using "1.prems" True by simp
    show ?thesis
    proof (cases "mn < t")
      case lt: True
      then have less: "a ! nat mn < val" using "1.prems"(4) by (simp add: splits_def)
      have "splits val a (mn + 1) mx t" using "1.prems"(4) lt by (auto simp: splits_def)
      then have "iterative_loop val a (mn + 1) mx = Inr (if t < mx \<and> a ! nat t = val then t else t - 1)"
        using "1.prems" True less by (intro "1.IH" [OF True rd]) auto
      moreover have "a ! nat mn \<noteq> val" "\<not> val < a ! nat mn" using less by auto
      ultimately show ?thesis using True rd by (simp only: iterative_loop.simps [of val a mn mx]) simp
    next
      case False
      with "1.prems" True have "t = mn" "val \<le> a ! nat mn" by (auto simp: splits_def)
      with True rd show ?thesis by (auto simp: iterative_loop.simps [of val a mn mx])
    qed
  next
    case False
    with "1.prems" have "t = mn" "mn = mx" by (auto simp: splits_def)
    then show ?thesis by (subst iterative_loop.simps) simp
  qed
qed

lemma iterative_search_correct:
  assumes "0 \<le> mn" "mn < mx" "mx \<le> int (length a)" "splits val a mn mx t"
  shows "iterative_search val a mn mx = Inr (found_at val a mn mx t)"
proof (cases "a ! nat mn > val")
  case True
  with assms(2,4) have "t = mn" by (force simp: splits_def)
  with True assms show ?thesis by (simp add: iterative_search_def found_at_def)
next
  case False
  have "t = mn \<Longrightarrow> a ! nat t = val" using False assms(2,4) by (auto simp: splits_def)
  moreover have "mn \<le> t" using assms(4) by (simp add: splits_def)
  ultimately have "(if t < mx \<and> a ! nat t = val then t else t - 1) = found_at val a mn mx t"
    using assms(2) by (cases "t = mn") (auto simp: found_at_def)
  with False assms iterative_loop_correct [of mn mx a val t] show ?thesis
    by (simp add: iterative_search_def)
qed

lemma binary_search_correct:
  assumes "0 \<le> mn" "mn < mx" "mx \<le> int (length a)" "splits val a mn mx t"
  shows "binary_search val a mn mx = Inr (found_at val a mn mx t)"
  using assms
proof (induction val a mn mx rule: binary_search.induct)
  case (1 val a mn mx)
  show ?case
  proof (cases "mx - mn \<ge> BINARY_THRESHOLD")
    case True
    define mid where "mid = (mx + mn) sdiv 2"
    have mid: "mn < mid" "mid < mx" using middle_between [OF True] by (auto simp: mid_def)
    have rd: "rd a mid = Inr (a ! nat mid)" using "1.prems" mid by simp
    note unfold = binary_search.simps [of val a mn mx, folded mid_def]
    consider "a ! nat mid = val" | "a ! nat mid > val" | "a ! nat mid < val" by fastforce
    then show ?thesis
    proof cases
      case 1
      have "t = mid"
        using 1 mid splits_le [OF "1.prems"(4), of mid] splits_ge [OF "1.prems"(4), of mid] by simp
      with 1 True rd mid show ?thesis by (simp add: unfold found_at_def Let_def)
    next
      case 2
      then have "t \<le> mid" using mid splits_le [OF "1.prems"(4), of mid] by simp
      then have s: "splits val a mn mid t" using "1.prems"(4) mid by (auto simp: splits_def)
      have "binary_search val a mn mid = Inr (found_at val a mn mid t)"
        using "1.prems" mid s 2 by (intro "1.IH"(1) [OF True mid_def rd]) auto
      moreover have "found_at val a mn mid t = found_at val a mn mx t"
        using 2 mid \<open>t \<le> mid\<close> by (auto simp: found_at_def)
      ultimately show ?thesis using 2 True rd by (auto simp: unfold Let_def)
    next
      case 3
      then have "mid \<le> t" "mid \<noteq> t"
        using mid splits_ge [OF "1.prems"(4), of mid] "1.prems"(4) by (auto simp: splits_def)
      then have "mid < t" by simp
      then have s: "splits val a mid mx t" using "1.prems"(4) mid by (auto simp: splits_def)
      have "binary_search val a mid mx = Inr (found_at val a mid mx t)"
        using "1.prems" mid s 3 by (intro "1.IH"(2) [OF True mid_def rd]) auto
      moreover have "found_at val a mid mx t = found_at val a mn mx t"
        using mid \<open>mid < t\<close> by (auto simp: found_at_def)
      ultimately show ?thesis using 3 True rd by (auto simp: unfold Let_def)
    qed
  next
    case False
    with "1.prems" show ?thesis
      by (simp add: binary_search.simps [of val a mn mx] iterative_search_correct)
  qed
qed

subsection \<open>The state of a scan\<close>

text \<open>
  The addresses under reclamation: sorted, aligned, and no address twice. Zeros may repeat: the
  sweep leaves them behind (see below).
\<close>

definition addr_list :: "size_t list \<Rightarrow> bool" where
  "addr_list xs \<longleftrightarrow> sorted xs \<and> (\<forall>x \<in> set xs. aligned4 x) \<and> distinct (filter (\<lambda>x. x \<noteq> 0) xs)"

text \<open>The buffer \<open>a\<close> holds the addresses \<open>xs\<close>, those with an index in \<open>S\<close> marked.\<close>

definition marking :: "size_t list \<Rightarrow> nat set \<Rightarrow> size_t list \<Rightarrow> bool" where
  "marking xs S a \<longleftrightarrow>
     length xs \<le> length a \<and> (\<forall>i < length xs. a ! i = mark (i \<in> S) (xs ! i))"

text \<open>The number of pages of \<open>n\<close> addresses, and the scan map that goes with \<open>xs\<close>.\<close>

definition pages :: "nat \<Rightarrow> nat" where
  "pages n = (n + 511) div 512"

definition map_ready :: "threadscan_data \<Rightarrow> size_t list \<Rightarrow> size_t list \<Rightarrow> bool" where
  "map_ready ts xs a \<longleftrightarrow>
     n_addrs ts = int (length xs) \<and> n_scan_map ts = int (pages (length xs)) \<and>
     int (length xs) \<le> scan_map_index ts \<and>
     nat (scan_map_index ts) + pages (length xs) \<le> length a \<and>
     (\<forall>j < pages (length xs). a ! (nat (scan_map_index ts) + j) = xs ! (512 * j))"

text \<open>The indices that a word with masked value \<open>c\<close> marks.\<close>

definition hits :: "size_t list \<Rightarrow> size_t \<Rightarrow> nat set" where
  "hits xs c = {i. i < length xs \<and> xs ! i = c \<and> (c \<noteq> 0 \<or> i = 0)}"

lemma page_elems_512 [simp]: "page_elems = 512"
  by (simp add: page_elems_def PAGESIZE_def)

lemma addr_list_mono: "addr_list xs \<Longrightarrow> i \<le> j \<Longrightarrow> j < length xs \<Longrightarrow> xs ! i \<le> xs ! j"
  by (simp add: addr_list_def sorted_nth_mono)

lemma addr_list_inj:
  "addr_list xs \<Longrightarrow> i < length xs \<Longrightarrow> j < length xs \<Longrightarrow> xs ! i = xs ! j \<Longrightarrow> xs ! i \<noteq> 0 \<Longrightarrow> i = j"
  using distinct_filter_nth [of "\<lambda>x. x \<noteq> 0" xs i j] distinct_filter_nth [of "\<lambda>x. x \<noteq> 0" xs j i]
  by (cases i j rule: linorder_cases) (auto simp: addr_list_def)

lemma addr_list_aligned: "addr_list xs \<Longrightarrow> i < length xs \<Longrightarrow> aligned4 (xs ! i)"
  by (simp add: addr_list_def)

text \<open>In sorted addresses, any non-zero value has its place, and there is only one.\<close>

lemma addr_list_place:
  assumes xs: "addr_list xs" and "c \<noteq> 0" and "mn \<le> mx" and "mx \<le> length xs"
  obtains t where "mn \<le> t" "t \<le> mx" "\<And>k. mn \<le> k \<Longrightarrow> k < t \<Longrightarrow> xs ! k < c"
    "t < mx \<Longrightarrow> c \<le> xs ! t" "\<And>k. t < k \<Longrightarrow> k < mx \<Longrightarrow> c < xs ! k"
proof -
  define P where "P k \<longleftrightarrow> mn \<le> k \<and> (k = mx \<or> c \<le> xs ! k)" for k
  define t where "t = Least P"
  have "P mx" using assms(3) by (simp add: P_def)
  then have t: "P t" "t \<le> mx" unfolding t_def by (auto intro: LeastI Least_le)
  show ?thesis
  proof
    show "mn \<le> t" "t \<le> mx" using t by (auto simp: P_def)
    show "xs ! k < c" if "mn \<le> k" "k < t" for k
    proof -
      have "\<not> P k" using that(2) unfolding t_def by (rule not_less_Least)
      with that t(2) show ?thesis by (auto simp: P_def)
    qed
    show ct: "c \<le> xs ! t" if "t < mx" using t(1) that by (simp add: P_def)
    show "c < xs ! k" if k: "t < k" "k < mx" for k
    proof -
      have le: "c \<le> xs ! t" "xs ! t \<le> xs ! k"
        using k ct assms(4) addr_list_mono [OF xs, of t k] by auto
      moreover have "xs ! k \<noteq> c"
        using le addr_list_inj [OF xs, of t k] k assms(2,4) by (metis less_irrefl less_trans order.antisym order_less_le_trans)
      ultimately show ?thesis by simp
    qed
  qed
qed

lemma marking_splits:
  assumes xs: "addr_list xs" and m: "marking xs S a" and c: "aligned4 c" "c \<noteq> 0"
    and "mn \<le> mx" and "mx \<le> length xs"
  obtains t where "splits c a (int mn) (int mx) (int t)" "\<And>k. mn \<le> k \<Longrightarrow> k < mx \<Longrightarrow> xs ! k = c \<Longrightarrow> k = t"
proof -
  obtain t where t: "mn \<le> t" "t \<le> mx" and before: "\<And>k. mn \<le> k \<Longrightarrow> k < t \<Longrightarrow> xs ! k < c"
    and at: "t < mx \<Longrightarrow> c \<le> xs ! t" and after: "\<And>k. t < k \<Longrightarrow> k < mx \<Longrightarrow> c < xs ! k"
    using addr_list_place [OF xs c(2) assms(5,6)] by metis
  have a: "a ! k = mark (k \<in> S) (xs ! k)" "aligned4 (xs ! k)" if "k < mx" for k
    using that m assms(6) addr_list_aligned [OF xs] by (auto simp: marking_def)
  have "splits c a (int mn) (int mx) (int t)"
    unfolding splits_def
  proof (intro conjI allI impI)
    show "a ! nat k < c" if "int mn \<le> k \<and> k < int t" for k
      using that nat_mono [of "int mn" k] t before [of "nat k"] a [of "nat k"] c(1) by (simp add: nat_less_iff)
    show "c \<le> a ! nat (int t)" if "int t < int mx"
      using that at a [of t] c(1) by (simp add: linorder_not_less [symmetric])
    show "c < a ! nat k" if "int t < k \<and> k < int mx" for k
      using that after [of "nat k"] a [of "nat k"] c(1)
      by (simp add: nat_less_iff zless_nat_eq_int_zless)
  qed (use t in auto)
  moreover have "k = t" if "mn \<le> k" "k < mx" "xs ! k = c" for k
    using that before [of k] after [of k] by (cases k t rule: linorder_cases) auto
  ultimately show ?thesis using that by blast
qed

subsection \<open>One word of the scan\<close>

lemma marking_rd: "marking xs S a \<Longrightarrow> i < length xs \<Longrightarrow> rd a (int i) = Inr (mark (i \<in> S) (xs ! i))"
  by (auto simp: marking_def rd_def)

lemma SET_LOW_BIT_marking:
  assumes xs: "addr_list xs" and m: "marking xs S a" and i: "0 \<le> i" "nat i < length xs"
  obtains a' where "SET_LOW_BIT a i = Inr a'" "marking xs (insert (nat i) S) a'"
    "length a' = length a" "drop (length xs) a' = drop (length xs) a"
proof -
  have al: "aligned4 (xs ! nat i)" using addr_list_aligned [OF xs i(2)] .
  have ai: "a ! nat i = mark (nat i \<in> S) (xs ! nat i)" and len: "length xs \<le> length a"
    using m i by (auto simp: marking_def)
  have r: "rd a i = Inr (a ! nat i)" using i len by simp
  show ?thesis
  proof (cases "nat i \<in> S")
    case True
    then have "a ! nat i AND 1 \<noteq> 0" using ai aligned4_mark_odd [OF al] by (simp add: mark_def)
    with r m True show ?thesis by (intro that [of a]) (auto simp: SET_LOW_BIT_def insert_absorb)
  next
    case False
    then have "a ! nat i = xs ! nat i" using ai by (simp add: mark_def)
    with r i len al have "SET_LOW_BIT a i = Inr (a[nat i := xs ! nat i + 1])"
      by (simp add: SET_LOW_BIT_def aligned4_even)
    moreover have "marking xs (insert (nat i) S) (a[nat i := xs ! nat i + 1])"
      using m i by (auto simp: marking_def nth_list_update mark_def)
    ultimately show ?thesis using i by (intro that [of "a[nat i := xs ! nat i + 1]"]) auto
  qed
qed

lemma map_ready_frame:
  assumes "map_ready ts xs a" and "length a' = length a" and "drop (length xs) a' = drop (length xs) a"
  shows "map_ready ts xs a'"
proof -
  have same: "a' ! k = a ! k" if "length xs \<le> k" "k < length a" for k
    using arg_cong [OF assms(3), of "\<lambda>l. l ! (k - length xs)"] that assms(2) by simp
  have "a' ! (nat (scan_map_index ts) + j) = xs ! (512 * j)" if "j < pages (length xs)" for j
  proof -
    have "length xs \<le> nat (scan_map_index ts) + j" "nat (scan_map_index ts) + j < length a"
      using assms(1) that by (auto simp: map_ready_def)
    then show ?thesis using same assms(1) that by (simp add: map_ready_def)
  qed
  with assms(1,2) show ?thesis by (simp add: map_ready_def)
qed

lemma pages_pos: "0 < n \<Longrightarrow> 0 < pages n"
  by (simp add: pages_def)

lemma pages_less: "j < pages n \<longleftrightarrow> 512 * j < n"
  by (auto simp: pages_def)

text \<open>The place that the search returns is bracketed by the elements around it.\<close>

lemma found_at_bracket:
  assumes sp: "splits c a 0 n t" and "0 < n" and "a ! 0 \<le> c"
  shows "0 \<le> found_at c a 0 n t" and "found_at c a 0 n t < n"
    and "a ! nat (found_at c a 0 n t) \<le> c"
    and "found_at c a 0 n t + 1 < n \<Longrightarrow> c < a ! nat (found_at c a 0 n t + 1)"
proof -
  have t: "0 \<le> t" "t \<le> n" using sp by (auto simp: splits_def)
  show "0 \<le> found_at c a 0 n t" "found_at c a 0 n t < n"
    using t assms(2) by (auto simp: found_at_def)
  show "a ! nat (found_at c a 0 n t) \<le> c"
  proof (cases "t < n \<and> a ! nat t = c \<or> t = 0")
    case False
    then have "found_at c a 0 n t = t - 1" "a ! nat (t - 1) < c"
      using t sp by (auto simp: found_at_def splits_def)
    then show ?thesis by simp
  qed (use assms(3) in \<open>auto simp: found_at_def\<close>)
  show "c < a ! nat (found_at c a 0 n t + 1)" if n: "found_at c a 0 n t + 1 < n"
  proof (cases "t < n \<and> a ! nat t = c")
    case True
    with n sp show ?thesis by (auto simp: found_at_def splits_def)
  next
    case False
    show ?thesis
    proof (cases "t = 0")
      case True
      with False n sp show ?thesis by (auto simp: found_at_def splits_def)
    next
      case nz: False
      with False t have "found_at c a 0 n t = t - 1" by (auto simp: found_at_def)
      with False n sp show ?thesis by (auto simp: splits_def)
    qed
  qed
qed

text \<open>The addresses of the scan map: every 512th one.\<close>

definition page_heads :: "size_t list \<Rightarrow> size_t list" where
  "page_heads xs = map (\<lambda>j. xs ! (512 * j)) [0..<pages (length xs)]"

lemma length_page_heads [simp]: "length (page_heads xs) = pages (length xs)"
  by (simp add: page_heads_def)

lemma nth_page_heads [simp]: "j < pages (length xs) \<Longrightarrow> page_heads xs ! j = xs ! (512 * j)"
  by (simp add: page_heads_def)

lemma addr_list_page_heads:
  assumes xs: "addr_list xs"
  shows "addr_list (page_heads xs)"
  unfolding addr_list_def
proof (intro conjI)
  show "sorted (page_heads xs)"
    by (auto simp: sorted_iff_nth_mono pages_less intro!: addr_list_mono [OF xs])
  show "\<forall>x \<in> set (page_heads xs). aligned4 x"
    by (auto simp: page_heads_def pages_less intro: addr_list_aligned [OF xs])
  have "inj_on (\<lambda>j. xs ! (512 * j)) {j. j < pages (length xs) \<and> xs ! (512 * j) \<noteq> 0}"
    using addr_list_inj [OF xs, of "512 * _" "512 * _"] by (fastforce simp: inj_on_def pages_less)
  then show "distinct (filter (\<lambda>x. x \<noteq> 0) (page_heads xs))"
    by (simp add: page_heads_def filter_map distinct_map o_def)
qed

text \<open>The first level of the search: the page on which a value between the extremes lies.\<close>

lemma level1_correct:
  assumes xs: "addr_list xs" and rdy: "map_ready ts xs a" and c: "aligned4 c" "c \<noteq> 0"
    and first: "xs ! 0 \<le> c" and ne: "xs \<noteq> []"
  obtains v where "binary_search c (drop (nat (scan_map_index ts)) a) 0 (n_scan_map ts) = Inr (int v)"
    "v < pages (length xs)" "xs ! (512 * v) \<le> c"
    "v + 1 < pages (length xs) \<Longrightarrow> c < xs ! (512 * (v + 1))"
proof -
  let ?M = "page_heads xs" and ?a = "drop (nat (scan_map_index ts)) a"
  have mark: "marking ?M {} ?a"
    using rdy by (auto simp: marking_def map_ready_def mark_def)
  have nth: "?a ! k = xs ! (512 * k)" if "k < pages (length xs)" for k
    using rdy that by (simp add: map_ready_def)
  obtain t where sp: "splits c ?a 0 (int (length ?M)) (int t)"
    using marking_splits [OF addr_list_page_heads [OF xs] mark c, of 0 "length ?M"] by auto
  have pos: "0 < int (length ?M)" using ne pages_pos [of "length xs"] by simp
  have a0: "?a ! 0 \<le> c" using first pos nth [of 0] by simp
  note br = found_at_bracket [OF sp pos a0]
  define v where "v = nat (found_at c ?a 0 (int (length ?M)) (int t))"
  have v: "found_at c ?a 0 (int (length ?M)) (int t) = int v" using br(1) by (simp add: v_def)
  have vlt: "v < pages (length xs)" using br(2) unfolding v by simp
  show ?thesis
  proof (rule that [OF _ vlt])
    show "binary_search c ?a 0 (n_scan_map ts) = Inr (int v)"
      using binary_search_correct [OF _ pos _ sp] v rdy by (auto simp: map_ready_def)
    show "xs ! (512 * v) \<le> c" using br(3) unfolding v by (simp add: nth vlt)
    show "c < xs ! (512 * (v + 1))" if "v + 1 < pages (length xs)"
      using br(4) that nth [OF that] unfolding v by (simp add: nat_add_distrib)
  qed
qed

text \<open>The second level: the page contains every occurrence of the value.\<close>

lemma level2_range:
  assumes xs: "addr_list xs" and c: "c \<noteq> 0" and v: "v < pages (length xs)" "xs ! (512 * v) \<le> c"
    "v + 1 < pages (length xs) \<Longrightarrow> c < xs ! (512 * (v + 1))"
    and k: "k < length xs" "xs ! k = c"
  shows "512 * v \<le> k" and "v + 1 < pages (length xs) \<Longrightarrow> k < 512 * (v + 1)"
proof -
  have vl: "512 * v < length xs" using v(1) by (simp add: pages_less)
  show "512 * v \<le> k"
  proof (rule ccontr)
    assume "\<not> 512 * v \<le> k"
    then have "xs ! k \<le> xs ! (512 * v)" using vl by (intro addr_list_mono [OF xs]) auto
    with v(2) k(2) have "xs ! k = xs ! (512 * v)" by simp
    with addr_list_inj [OF xs k(1) vl] k(2) c \<open>\<not> 512 * v \<le> k\<close> show False by simp
  qed
  show "k < 512 * (v + 1)" if v1: "v + 1 < pages (length xs)"
  proof (rule ccontr)
    assume "\<not> k < 512 * (v + 1)"
    then have "xs ! (512 * (v + 1)) \<le> xs ! k" using k(1) by (intro addr_list_mono [OF xs]) auto
    with v(3) [OF v1] k(2) show False by simp
  qed
qed

text \<open>
  What the search of one page finds: the index of the address if it is there and unmarked, and
  otherwise an index that holds something else.
\<close>

lemma page_search_correct:
  assumes xs: "addr_list xs" and m: "marking xs S a" and c: "aligned4 c" "c \<noteq> 0"
    and b: "mn < mx" "mx \<le> length xs"
  obtains loc where "binary_search c a (int mn) (int mx) = Inr (int loc)" "mn \<le> loc" "loc < mx"
    "\<And>k. mn \<le> k \<Longrightarrow> k < mx \<Longrightarrow> xs ! k = c \<Longrightarrow> k \<notin> S \<Longrightarrow> loc = k"
    "a ! loc = c \<longleftrightarrow> xs ! loc = c \<and> loc \<notin> S"
proof -
  obtain t where sp: "splits c a (int mn) (int mx) (int t)"
    and uniq: "\<And>k. mn \<le> k \<Longrightarrow> k < mx \<Longrightarrow> xs ! k = c \<Longrightarrow> k = t"
    using marking_splits [OF xs m c, of mn mx] b by auto
  have t: "mn \<le> t" "t \<le> mx" using sp by (auto simp: splits_def)
  have len: "length xs \<le> length a" using m by (simp add: marking_def)
  have a: "a ! k = c \<longleftrightarrow> xs ! k = c \<and> k \<notin> S" if "k < mx" for k
    using that m b addr_list_aligned [OF xs, of k] c(1) by (auto simp: marking_def)
  define loc where "loc = nat (found_at c a (int mn) (int mx) (int t))"
  have loc: "found_at c a (int mn) (int mx) (int t) = int loc" "mn \<le> loc" "loc < mx"
    using t b by (auto simp: loc_def found_at_def max_def)
  show ?thesis
  proof (rule that [OF _ loc(2,3)])
    show "binary_search c a (int mn) (int mx) = Inr (int loc)"
      using binary_search_correct [OF _ _ _ sp] b len by (simp add: loc(1))
    show "loc = k" if k: "mn \<le> k" "k < mx" "xs ! k = c" "k \<notin> S" for k
      using uniq [OF k(1-3)] a [OF k(2)] k by (simp add: loc_def found_at_def)
    show "a ! loc = c \<longleftrightarrow> xs ! loc = c \<and> loc \<notin> S" using a [OF loc(3)] .
  qed
qed

text \<open>The part of the word's treatment that goes through both levels.\<close>

lemma search_levels_correct:
  assumes xs: "addr_list xs" "xs \<noteq> []" and rdy: "map_ready ts xs a" and m: "marking xs S a"
    and c: "aligned4 c" "c \<noteq> 0" "xs ! 0 \<le> c"
  obtains v loc where
    "binary_search c (drop (nat (scan_map_index ts)) a) 0 (n_scan_map ts) = Inr v"
    "binary_search c a (v * page_elems)
       (if v = n_scan_map ts - 1 then n_addrs ts else (v + 1) * page_elems) = Inr (int loc)"
    "loc < length xs" "a ! loc = c \<longleftrightarrow> xs ! loc = c \<and> loc \<notin> S"
    "\<And>k. k < length xs \<Longrightarrow> xs ! k = c \<Longrightarrow> k \<notin> S \<Longrightarrow> loc = k"
proof -
  obtain v where l1: "binary_search c (drop (nat (scan_map_index ts)) a) 0 (n_scan_map ts) = Inr (int v)"
    and v: "v < pages (length xs)" "xs ! (512 * v) \<le> c"
      "v + 1 < pages (length xs) \<Longrightarrow> c < xs ! (512 * (v + 1))"
    using level1_correct [OF xs(1) rdy c(1,2,3) xs(2)] by blast
  define mx where "mx = (if v + 1 = pages (length xs) then length xs else 512 * (v + 1))"
  have mx: "512 * v < mx" "mx \<le> length xs"
    using v(1) pages_less [of v "length xs"] pages_less [of "v + 1" "length xs"]
    by (auto simp: mx_def)
  have mx_eq: "(if int v = n_scan_map ts - 1 then n_addrs ts else (int v + 1) * page_elems) = int mx"
    using rdy by (auto simp: mx_def map_ready_def)
  obtain loc where l2: "binary_search c a (int (512 * v)) (int mx) = Inr (int loc)"
    and loc: "loc < mx" "a ! loc = c \<longleftrightarrow> xs ! loc = c \<and> loc \<notin> S"
    and only: "\<And>k. 512 * v \<le> k \<Longrightarrow> k < mx \<Longrightarrow> xs ! k = c \<Longrightarrow> k \<notin> S \<Longrightarrow> loc = k"
    using page_search_correct [OF xs(1) m c(1,2) mx] by blast
  show ?thesis
  proof (rule that [OF l1 _ _ loc(2)])
    show "binary_search c a (int v * page_elems)
       (if int v = n_scan_map ts - 1 then n_addrs ts else (int v + 1) * page_elems) = Inr (int loc)"
      using l2 unfolding mx_eq by (simp add: mult.commute)
    show "loc < length xs" using loc(1) mx(2) by simp
    show "loc = k" if k: "k < length xs" "xs ! k = c" "k \<notin> S" for k
    proof (rule only [OF _ _ k(2,3)])
      show "512 * v \<le> k" using level2_range(1) [OF xs(1) c(2) v k(1,2)] .
      show "k < mx" using level2_range(2) [OF xs(1) c(2) v k(1,2)] k(1) v(1) by (auto simp: mx_def)
    qed
  qed
qed

text \<open>\<open>a'\<close> is the buffer \<open>a\<close> with exactly the addresses in \<open>S\<close> marked and nothing else changed.\<close>

definition scanned :: "size_t list \<Rightarrow> size_t list \<Rightarrow> nat set \<Rightarrow> size_t list \<Rightarrow> bool" where
  "scanned xs a S a' \<longleftrightarrow>
     marking xs S a' \<and> length a' = length a \<and> drop (length xs) a' = drop (length xs) a"

lemma hits_below: "addr_list xs \<Longrightarrow> c < xs ! 0 \<Longrightarrow> hits xs c = {}"
  using addr_list_mono [of xs 0] by (fastforce simp: hits_def)

lemma hits_above:
  assumes xs: "addr_list xs" and c: "xs ! (length xs - 1) < c"
  shows "hits xs c = {}"
proof -
  have "xs ! i \<noteq> c" if "i < length xs" for i
  proof -
    have "xs ! i \<le> xs ! (length xs - 1)" using that by (intro addr_list_mono [OF xs]) auto
    with c show ?thesis by auto
  qed
  then show ?thesis by (auto simp: hits_def)
qed

lemma hits_at:
  assumes "addr_list xs" and "i < length xs" and "xs ! i = c" and "c \<noteq> 0 \<or> i = 0"
  shows "hits xs c = {i}"
proof (intro set_eqI iffI)
  fix k
  assume "k \<in> hits xs c"
  then have k: "k < length xs" "xs ! k = c" "c \<noteq> 0 \<or> k = 0" by (auto simp: hits_def)
  show "k \<in> {i}"
  proof (cases "c = 0")
    case False
    with k addr_list_inj [OF assms(1) k(1) assms(2)] assms(3) show ?thesis by simp
  qed (use k assms(4) in simp)
qed (use assms in \<open>simp add: hits_def\<close>)

lemma SET_LOW_BIT_hits:
  assumes "addr_list xs" "marking xs S a" "i < length xs" "xs ! i = c" "c \<noteq> 0 \<or> i = 0"
  shows "returns (SET_LOW_BIT a (int i)) (scanned xs a (S \<union> hits xs c))"
proof -
  obtain a' where "SET_LOW_BIT a (int i) = Inr a'" "marking xs (insert i S) a'"
    "length a' = length a" "drop (length xs) a' = drop (length xs) a"
    using SET_LOW_BIT_marking [OF assms(1,2), of "int i"] assms(3) by auto
  then show ?thesis by (simp add: scanned_def hits_at [OF assms(1,3,4,5)])
qed

lemma search_word_correct:
  assumes xs: "addr_list xs" "xs \<noteq> []" and rdy: "map_ready ts xs a" and m: "marking xs S a"
    and mn: "mn = mark (0 \<in> S0) (xs ! 0)" and mx: "mx = mark (length xs - 1 \<in> S0) (xs ! (length xs - 1))"
    and "S0 \<subseteq> S"
  shows "returns (search_word dbg ts mn mx a w) (scanned xs a (S \<union> hits xs (PTR_MASK w)))"
proof -
  define c where "c = PTR_MASK w"
  let ?n = "length xs"
  have c: "aligned4 c" by (simp add: c_def)
  have al: "aligned4 (xs ! 0)" "aligned4 (xs ! (?n - 1))" and first: "0 < ?n"
    using xs addr_list_aligned by auto
  have n: "n_addrs ts - 1 = int (?n - 1)" "n_addrs ts = int ?n"
    using rdy xs(2) by (cases xs; simp add: map_ready_def)+
  have le: "xs ! 0 \<le> xs ! (?n - 1)" using first by (intro addr_list_mono [OF xs(1)]) auto
  have unchanged: "scanned xs a (S \<union> hits xs c) a" if "hits xs c \<subseteq> S"
    using that m by (simp add: scanned_def Un_absorb2)
  consider (below) "c < mn" | (above) "mx < c" | (min) "mn = c" | (max) "mn \<noteq> c" "\<not> c < mn" "mx = c"
    | (mid) "\<not> c < mn" "\<not> mx < c" "mn \<noteq> c" "mx \<noteq> c" by blast
  then have "returns (search_word dbg ts mn mx a w) (scanned xs a (S \<union> hits xs c))"
  proof cases
    case below
    then have "hits xs c \<subseteq> S"
      using al c first hits_below [OF xs(1)] hits_at [OF xs(1) first] assms(7) by (auto simp: mn)
    with below unchanged show ?thesis by (simp add: search_word_def c_def [symmetric])
  next
    case above
    then have "hits xs c \<subseteq> S" using al c hits_above [OF xs(1)] by (simp add: mx)
    with above unchanged show ?thesis by (simp add: search_word_def c_def [symmetric])
  next
    case min
    then have x0: "xs ! 0 = c" "0 \<notin> S0" using al c by (auto simp: mn)
    moreover have "\<not> mx < c" using le x0 al c by (simp add: mx not_less)
    ultimately show ?thesis
      using min SET_LOW_BIT_hits [OF xs(1) m first] by (simp add: search_word_def c_def [symmetric])
  next
    case max
    then have xl: "xs ! (?n - 1) = c" using al c by (auto simp: mx)
    moreover have "c \<noteq> 0" using max(1,2) le xl al c by (auto simp: mn)
    ultimately show ?thesis
      using max first SET_LOW_BIT_hits [OF xs(1) m, of "?n - 1" c]
      unfolding search_word_def c_def [symmetric] n(1) by simp
  next
    case mid
    then have c0: "xs ! 0 \<le> c" "c \<noteq> 0" using al c by (auto simp: mn not_less)
    obtain v loc where l1: "binary_search c (drop (nat (scan_map_index ts)) a) 0 (n_scan_map ts) = Inr v"
      and l2: "binary_search c a (v * page_elems)
        (if v = n_scan_map ts - 1 then n_addrs ts else (v + 1) * page_elems) = Inr (int loc)"
      and loc: "loc < ?n" "a ! loc = c \<longleftrightarrow> xs ! loc = c \<and> loc \<notin> S"
      and only: "\<And>k. k < ?n \<Longrightarrow> xs ! k = c \<Longrightarrow> k \<notin> S \<Longrightarrow> loc = k"
      using search_levels_correct [OF xs rdy m c c0(2,1)] by blast
    have r: "rd a (int loc) = Inr (a ! loc)" using loc(1) m by (simp add: marking_def)
    note unf = search_word_def [of dbg ts mn mx a w, folded c_def]
    show ?thesis
    proof (cases "a ! loc = c")
      case True
      then show ?thesis
        using mid l1 l2 r loc SET_LOW_BIT_hits [OF xs(1) m loc(1), of c] c0
        by (simp add: unf Let_def)
    next
      case False
      have "hits xs c \<subseteq> S"
      proof (intro subsetI, rule ccontr)
        fix k
        assume "k \<in> hits xs c" and kS: "k \<notin> S"
        then have "k < ?n" "xs ! k = c" by (simp_all add: hits_def)
        with only [OF _ _ kS] loc(2) kS False show False by simp
      qed
      obtain loc2 where l3: "binary_search c a (int 0) (int ?n) = Inr (int loc2)" "loc2 < ?n"
        and l3_iff: "a ! loc2 = c \<longleftrightarrow> xs ! loc2 = c \<and> loc2 \<notin> S"
        using page_search_correct [OF xs(1) m c c0(2) first order_refl] by blast
      have "a ! loc2 \<noteq> c" using only [OF l3(2)] l3_iff False by auto
      moreover have "rd a (int loc2) = Inr (a ! loc2)" using l3(2) m by (simp add: marking_def)
      ultimately show ?thesis
        using mid l1 l2 r False l3(1) n(2) unchanged [OF \<open>hits xs c \<subseteq> S\<close>]
        by (simp add: unf Let_def wp)
    qed
  qed
  then show ?thesis by (simp add: c_def)
qed

subsection \<open>The scan of a range\<close>

text \<open>The words that a scan of \<open>n\<close> words from address \<open>p\<close> reads.\<close>

fun words_at :: "(size_t \<rightharpoonup> size_t) \<Rightarrow> size_t \<Rightarrow> nat \<Rightarrow> size_t list res" where
  "words_at um p 0 = Inr []"
| "words_at um p (Suc n) =
     bindE (load um p) (\<lambda>w. bindE (words_at um (p + 8) n) (\<lambda>ws. Inr (w # ws)))"

text \<open>The indices that the words \<open>ws\<close> mark.\<close>

definition all_hits :: "size_t list \<Rightarrow> size_t list \<Rightarrow> nat set" where
  "all_hits xs ws = (\<Union>w \<in> set ws. hits xs (PTR_MASK w))"

lemma all_hits_simps [simp]:
  "all_hits xs [] = {}"
  "all_hits xs (w # ws) = hits xs (PTR_MASK w) \<union> all_hits xs ws"
  "all_hits xs (ws @ ws') = all_hits xs ws \<union> all_hits xs ws'"
  by (auto simp: all_hits_def)

lemma scanned_trans: "scanned xs a S b \<Longrightarrow> scanned xs b S' c \<Longrightarrow> scanned xs a S' c"
  by (simp add: scanned_def)

lemma scanned_ready: "scanned xs a S b \<Longrightarrow> map_ready ts xs a \<Longrightarrow> map_ready ts xs b"
  by (auto simp: scanned_def intro: map_ready_frame)

lemma do_search_loop_correct:
  assumes xs: "addr_list xs" "xs \<noteq> []"
    and mn: "mn = mark (0 \<in> S0) (xs ! 0)" and mx: "mx = mark (length xs - 1 \<in> S0) (xs ! (length xs - 1))"
  shows "map_ready ts xs a \<Longrightarrow> marking xs S a \<Longrightarrow> S0 \<subseteq> S \<Longrightarrow> words_at um p n = Inr ws \<Longrightarrow>
    returns (do_search_loop dbg ts mn mx um n p a) (scanned xs a (S \<union> all_hits xs ws))"
proof (induction n arbitrary: p a S ws)
  case 0
  then show ?case by (simp add: scanned_def)
next
  case (Suc n)
  from Suc.prems(4) obtain w ws' where w: "load um p = Inr w"
    and ws': "words_at um (p + 8) n = Inr ws'" "ws = w # ws'"
    by (auto simp: bindE_Inr_iff)
  from search_word_correct [OF xs Suc.prems(1,2) mn mx Suc.prems(3)] obtain b where
    b: "search_word dbg ts mn mx a w = Inr b" "scanned xs a (S \<union> hits xs (PTR_MASK w)) b"
    by (rule returnsE)
  have "returns (do_search_loop dbg ts mn mx um n (p + 8) b)
    (scanned xs b (S \<union> hits xs (PTR_MASK w) \<union> all_hits xs ws'))"
    using b(2) Suc.prems(1,3) ws'(1)
    by (intro Suc.IH) (auto simp: scanned_def intro: scanned_ready [OF b(2)])
  with w b ws'(2) show ?case
    by (auto simp: Un_assoc elim!: returns_mono intro: scanned_trans)
qed

text \<open>
  \<^verbatim>\<open>do_search\<close> marks exactly the addresses that occur in the range, whatever was marked before and
  wherever in the two-level structure they are.
\<close>

lemma do_search_correct:
  assumes xs: "addr_list xs" "xs \<noteq> []" and rdy: "map_ready ts xs a" and m: "marking xs S a"
    and ws: "words_at um p (unat range_size) = Inr ws"
    and dbg: "dbg \<longrightarrow> length xs = 1 \<or> xs ! 0 < xs ! (length xs - 1)"
  shows "returns (do_search dbg ts um p range_size a) (scanned xs a (S \<union> all_hits xs ws))"
proof -
  have first: "0 < length xs" and len: "length xs \<le> length a"
    using xs(2) m by (auto simp: marking_def)
  have n: "n_addrs ts - 1 = int (length xs - 1)"
    using rdy xs(2) by (cases xs; simp add: map_ready_def)
  have rds: "rd a 0 = Inr (mark (0 \<in> S) (xs ! 0))"
    "rd a (n_addrs ts - 1) = Inr (mark (length xs - 1 \<in> S) (xs ! (length xs - 1)))"
    using marking_rd [OF m, of 0] first by (simp, unfold n, intro marking_rd [OF m]) simp
  have al: "aligned4 (xs ! 0)" "aligned4 (xs ! (length xs - 1))"
    using first addr_list_aligned [OF xs(1)] by auto
  have "mark (0 \<in> S) (xs ! 0) \<le> mark (length xs - 1 \<in> S) (xs ! (length xs - 1))" if dbg
  proof (cases "length xs = 1")
    case False
    with dbg that al have "mark (0 \<in> S) (xs ! 0) < xs ! (length xs - 1)" by simp
    also have "\<dots> \<le> mark (length xs - 1 \<in> S) (xs ! (length xs - 1))"
      using unat_mark_bounds [OF al(2)] by (simp add: word_le_nat_alt)
    finally show ?thesis by simp
  qed simp
  then show ?thesis
    using rds do_search_loop_correct [OF xs refl refl rdy m order_refl ws]
    by (simp add: do_search_def wp)
qed

subsection \<open>Monotonicity in debug builds\<close>

lemma assert_monotonicity_loop_ok:
  assumes "n \<le> length a" and "\<And>k. i \<le> k \<Longrightarrow> k < n \<Longrightarrow> (if k = i then prev else a ! (k - 1)) < a ! k"
  shows "assert_monotonicity_loop a (int n) prev (int i) = Inr ()"
  using assms
proof (induction "n - i" arbitrary: i prev)
  case 0
  then show ?case by (subst assert_monotonicity_loop.simps) simp
next
  case (Suc d)
  then have i: "i < n" by simp
  have "assert_monotonicity_loop a (int n) (a ! i) (int (Suc i)) = Inr ()"
  proof (rule Suc.hyps(1) [OF _ Suc.prems(1)])
    show "(if k = Suc i then a ! i else a ! (k - 1)) < a ! k" if "Suc i \<le> k" "k < n" for k
      using Suc.prems(2) [of k] that by (cases "k = Suc i") auto
  qed (use Suc.hyps(2) in simp)
  moreover have "prev < a ! i" using Suc.prems(2) [of i] i by simp
  ultimately show ?case
    using i Suc.prems(1) by (subst assert_monotonicity_loop.simps) (simp add: not_le add.commute)
qed

lemma addr_list_strict:
  "addr_list xs \<Longrightarrow> 0 \<notin> set xs \<Longrightarrow> i < j \<Longrightarrow> j < length xs \<Longrightarrow> xs ! i < xs ! j"
  using addr_list_mono [of xs i j] addr_list_inj [of xs i j] nth_mem [of i xs]
  by (metis less_imp_le less_trans nat_less_le order.not_eq_order_implies_strict)

text \<open>Strictly increasing non-zero addresses pass the debug check, whatever is marked.\<close>

lemma assert_monotonicity_ok:
  assumes xs: "addr_list xs" and m: "marking xs S a" and nz: "dbg \<longrightarrow> 0 \<notin> set xs"
  shows "assert_monotonicity dbg a (int (length xs)) = Inr ()"
proof (cases dbg)
  case True
  have "(if k = 0 then 0 else a ! (k - 1)) < a ! k" if k: "k < length xs" for k
  proof (cases k)
    case 0
    have "0 < xs ! 0" using nz True k 0 nth_mem [of 0 xs] by (metis word_gt_0)
    then show ?thesis using k 0 m addr_list_aligned [OF xs k] by (simp add: marking_def)
  next
    case (Suc j)
    have "mark (j \<in> S) (xs ! j) < xs ! k"
      using Suc k nz True addr_list_strict [OF xs, of j k] addr_list_aligned [OF xs] by simp
    also have "xs ! k \<le> mark (k \<in> S) (xs ! k)"
      using unat_mark_bounds [OF addr_list_aligned [OF xs k]] by (simp add: word_le_nat_alt)
    finally show ?thesis using Suc k m by (simp add: marking_def)
  qed
  then show ?thesis
    using True m assert_monotonicity_loop_ok [of "length xs" a 0 0]
    by (simp add: assert_monotonicity_def marking_def)
qed (simp add: assert_monotonicity_def)

lemma search_range_correct:
  assumes xs: "addr_list xs" "xs \<noteq> []" and rdy: "map_ready ts xs a" and m: "marking xs S a"
    and ws: "words_at um (low r) (unat ((high r - low r) div 8)) = Inr ws"
    and nz: "dbg \<longrightarrow> 0 \<notin> set xs"
  shows "returns (search_range dbg ts um r a) (scanned xs a (S \<union> all_hits xs ws))"
proof -
  have "dbg \<longrightarrow> length xs = 1 \<or> xs ! 0 < xs ! (length xs - 1)"
  proof (intro impI disjCI)
    assume "dbg" and "\<not> xs ! 0 < xs ! (length xs - 1)"
    then show "length xs = 1"
      using nz addr_list_strict [OF xs(1), of 0 "length xs - 1"] xs(2) by (cases xs; cases "tl xs") auto
  qed
  then show ?thesis
    using do_search_correct [OF xs rdy m ws] assert_monotonicity_ok [OF xs(1) m nz] rdy
    by (simp add: search_range_def map_ready_def)
qed

subsection \<open>The scan map\<close>

lemma generate_scan_map_loop_correct:
  assumes "length xs \<le> so" "so + pages (length xs) \<le> length a" "take (length xs) a = xs"
    "nm \<le> pages (length xs)" "\<And>j. j < nm \<Longrightarrow> a ! (so + j) = xs ! (512 * j)"
  shows "\<exists>a'. generate_scan_map_loop (int so) (int (length xs)) a (int (512 * nm)) (int nm)
      = Inr (a', int (pages (length xs))) \<and> length a' = length a \<and> take (length xs) a' = xs \<and>
      (\<forall>j < pages (length xs). a' ! (so + j) = xs ! (512 * j))"
  using assms(2-)
proof (induction "pages (length xs) - nm" arbitrary: nm a)
  case 0
  then have "nm = pages (length xs)" by simp
  moreover from this have "length xs \<le> 512 * nm" by (simp add: pages_def)
  ultimately show ?case
    using 0 by (subst generate_scan_map_loop.simps) auto
next
  case (Suc d)
  then have lt: "nm < pages (length xs)" by simp
  then have nl: "512 * nm < length xs" by (simp add: pages_less)
  have len: "length xs \<le> length a" using assms(1) Suc.prems(1) by simp
  have v: "a ! (512 * nm) = xs ! (512 * nm)"
    using Suc.prems(2) nl by (metis nth_take)
  let ?b = "a[so + nm := xs ! (512 * nm)]"
  have "\<exists>a'. generate_scan_map_loop (int so) (int (length xs)) ?b (int (512 * Suc nm)) (int (Suc nm))
      = Inr (a', int (pages (length xs))) \<and> length a' = length ?b \<and> take (length xs) a' = xs \<and>
      (\<forall>j < pages (length xs). a' ! (so + j) = xs ! (512 * j))"
    using Suc.hyps(2) Suc.prems lt assms(1)
    by (intro Suc.hyps(1)) (auto simp: nth_list_update less_Suc_eq)
  moreover have "generate_scan_map_loop (int so) (int (length xs)) a (int (512 * nm)) (int nm) =
      generate_scan_map_loop (int so) (int (length xs)) ?b (int (512 * Suc nm)) (int (Suc nm))"
    using nl len v lt Suc.prems(1) assms(1)
    by (subst generate_scan_map_loop.simps) (simp add: algebra_simps nat_add_distrib nat_mult_distrib)
  ultimately show ?case by simp
qed

lemma generate_scan_map_correct:
  assumes "n_addrs ts = int (length xs)" "int (length xs) \<le> scan_map_index ts"
    "nat (scan_map_index ts) + pages (length xs) \<le> length a" "take (length xs) a = xs"
  shows "\<exists>a'. generate_scan_map ts a = Inr (ts\<lparr>n_scan_map := int (pages (length xs))\<rparr>, a') \<and>
    length a' = length a \<and> marking xs {} a' \<and> map_ready (ts\<lparr>n_scan_map := int (pages (length xs))\<rparr>) xs a'"
proof -
  define so where "so = nat (scan_map_index ts)"
  have so: "scan_map_index ts = int so" using assms(2) by (simp add: so_def)
  obtain a' where loop: "generate_scan_map_loop (int so) (int (length xs)) a 0 0
      = Inr (a', int (pages (length xs)))" and a': "length a' = length a" "take (length xs) a' = xs"
      "\<forall>j < pages (length xs). a' ! (so + j) = xs ! (512 * j)"
    using generate_scan_map_loop_correct [of xs so a 0] assms(2-4) so by auto
  have "marking xs {} a'"
    unfolding marking_def mark_def
    using a'(1,2) assms(2,3) so by (auto intro: nth_take [symmetric, THEN trans] simp: nth_take)
  moreover have "map_ready (ts\<lparr>n_scan_map := int (pages (length xs))\<rparr>) xs a'"
    using a' assms so by (auto simp: map_ready_def scan_map_index_def)
  ultimately show ?thesis
    using loop a'(1) assms(1) so by (simp add: generate_scan_map_def)
qed

subsection \<open>The sweep\<close>

definition is_marked :: "size_t \<Rightarrow> bool" where
  "is_marked v \<longleftrightarrow> v AND 1 \<noteq> 0"

text \<open>
  What the sweep leaves at the front of the array: the marked addresses with their marks removed,
  except that every marked address before the first unmarked one has become zero.
\<close>

definition kept :: "size_t list \<Rightarrow> size_t list" where
  "kept as = replicate (length (takeWhile is_marked as)) 0 @
             map PTR_MASK (filter is_marked (dropWhile is_marked as))"

lemma length_kept: "length (kept as) = length (filter is_marked as)"
proof -
  have "filter is_marked as = takeWhile is_marked as @ filter is_marked (dropWhile is_marked as)"
    by (induction as) auto
  then show ?thesis by (simp add: kept_def)
qed

lemma length_kept_le: "length (kept as) \<le> length as"
  by (simp add: length_kept)

lemma length_kept_eq: "length (kept as) = length as \<longleftrightarrow> (\<forall>x \<in> set as. is_marked x)"
proof
  assume "length (kept as) = length as"
  then show "\<forall>x \<in> set as. is_marked x"
    by (metis length_kept length_filter_less less_irrefl)
qed (simp add: length_kept)

lemma kept_all: "\<forall>x \<in> set as. is_marked x \<Longrightarrow> kept as = replicate (length as) 0"
  by (simp add: kept_def takeWhile_eq_all_conv [THEN iffD2] dropWhile_eq_Nil_conv [THEN iffD2])

lemma kept_snoc_unmarked: "\<not> is_marked v \<Longrightarrow> kept (as @ [v]) = kept as"
  by (cases "\<forall>x \<in> set as. is_marked x")
     (auto simp: kept_all, auto simp: kept_def takeWhile_append dropWhile_append)

lemma kept_snoc_all: "\<forall>x \<in> set as. is_marked x \<Longrightarrow> is_marked v \<Longrightarrow> kept (as @ [v]) = kept as @ [0]"
  by (simp add: kept_all replicate_append_same)

lemma kept_snoc_marked:
  "\<not> (\<forall>x \<in> set as. is_marked x) \<Longrightarrow> is_marked v \<Longrightarrow> kept (as @ [v]) = kept as @ [PTR_MASK v]"
  by (auto simp: kept_def takeWhile_append dropWhile_append)

text \<open>The two writes of the sweep when \<^verbatim>\<open>write_position\<close> is behind \<^verbatim>\<open>i\<close>.\<close>

lemma sweep_move:
  "(ks @ replicate (Suc e) 0 @ v # ds)[length ks := m, length ks + Suc e := 0] =
   (ks @ [m]) @ replicate (Suc e) (0 :: size_t) @ ds"
  by (simp add: list_update_append replicate_app_Cons_same)

lemma sweep_loop_correct:
  assumes "n \<le> length as" and "i \<le> n"
    and "a = kept (take i as) @ replicate (i - length (kept (take i as))) 0 @ drop i as"
  shows "sweep_loop (int n) a (int (length (kept (take i as)))) (int i) (filter (\<lambda>v. \<not> is_marked v) (take i as)) =
    Inr (kept (take n as) @ replicate (n - length (kept (take n as))) 0 @ drop n as,
         int (length (kept (take n as))), filter (\<lambda>v. \<not> is_marked v) (take n as))"
  using assms
proof (induction "n - i" arbitrary: i a)
  case 0
  then show ?case by (subst sweep_loop.simps) simp
next
  case (Suc d)
  then have i: "i < n" "i < length as" using assms(1) by auto
  define v where "v = as ! i"
  define w where "w = length (kept (take i as))"
  have tk: "take (Suc i) as = take i as @ [v]" using i by (simp add: v_def take_Suc_conv_app_nth)
  have dr: "drop i as = v # drop (Suc i) as" using i by (simp add: v_def Cons_nth_drop_Suc)
  have wi: "w \<le> i" using length_kept_le [of "take i as"] i by (simp add: w_def)
  have len: "length a = length as" using Suc.prems(3) wi i by (simp add: w_def)
  have ai: "a ! i = v" using Suc.prems(3) wi by (simp add: nth_append w_def dr)
  define b where "b = kept (take (Suc i) as) @ replicate (Suc i - length (kept (take (Suc i) as))) 0 @ drop (Suc i) as"
  have IH: "sweep_loop (int n) b (int (length (kept (take (Suc i) as)))) (int (Suc i))
      (filter (\<lambda>v. \<not> is_marked v) (take (Suc i) as)) =
    Inr (kept (take n as) @ replicate (n - length (kept (take n as))) 0 @ drop n as,
         int (length (kept (take n as))), filter (\<lambda>v. \<not> is_marked v) (take n as))"
    using Suc.hyps(2) i assms(1) by (intro Suc.hyps(1)) (auto simp: b_def)
  have aw: "a = kept (take i as) @ replicate (i - w) 0 @ v # drop (Suc i) as"
    using Suc.prems(3) dr by (simp add: w_def)
  show ?case
  proof (cases "is_marked v")
    case True
    have "a[w := PTR_MASK v, i := 0] = b \<and> length (kept (take (Suc i) as)) = Suc w"
    proof (cases "\<forall>x \<in> set (take i as). is_marked x")
      case all: True
      then have "w = i" using length_kept_eq [of "take i as"] i by (simp add: w_def)
      then show ?thesis
        using all True by (simp add: aw b_def tk kept_snoc_all list_update_append w_def [symmetric])
    next
      case some: False
      then have "w \<noteq> i" using length_kept_eq [of "take i as"] i by (simp add: w_def)
      then have "w < i" using wi by simp
      then obtain e where e: "i - w = Suc e" by (metis Suc_diff_Suc)
      have "i = length (kept (take i as)) + Suc e" using e by (simp add: w_def)
      then have "a[w := PTR_MASK v, i := 0] =
          (kept (take i as) @ [PTR_MASK v]) @ replicate (Suc e) 0 @ drop (Suc i) as"
        using sweep_move [of "kept (take i as)" e v "drop (Suc i) as" "PTR_MASK v"] e
        unfolding aw by (simp add: w_def)
      moreover have "Suc i - Suc w = Suc e" using e by simp
      ultimately show ?thesis
        using some True by (simp add: b_def tk kept_snoc_marked w_def [symmetric])
    qed
    with True IH i len ai wi show ?thesis
      by (subst sweep_loop.simps) (simp add: is_marked_def tk w_def [symmetric] add.commute)
  next
    case False
    have "a[i := 0] = b \<and> length (kept (take (Suc i) as)) = w"
      using False wi
      by (simp add: aw b_def tk kept_snoc_unmarked list_update_append w_def [symmetric] Suc_diff_le
          replicate_append_same)
    with False IH i len ai show ?thesis
      by (subst sweep_loop.simps) (simp add: is_marked_def tk w_def [symmetric] add.commute)
  qed
qed

lemma handle_unreferenced_ptrs_eq:
  assumes "0 \<le> n" and "n \<le> int (length as)"
  shows "handle_unreferenced_ptrs as n =
    Inr (kept (take (nat n) as) @ replicate (nat n - length (kept (take (nat n) as))) 0 @ drop (nat n) as,
         int (length (kept (take (nat n) as))), filter (\<lambda>v. \<not> is_marked v) (take (nat n) as))"
  using sweep_loop_correct [of "nat n" as 0 as] assms
  by (simp add: handle_unreferenced_ptrs_def kept_def)

subsection \<open>Properties\<close>

lemma all_hits_nonzero:
  "i < length xs \<Longrightarrow> xs ! i \<noteq> 0 \<Longrightarrow> i \<in> all_hits xs ws \<longleftrightarrow> (\<exists>w \<in> set ws. PTR_MASK w = xs ! i)"
  unfolding all_hits_def hits_def by (simp, metis)

text \<open>
  (C6) The scan of a range marks exactly what it should: after \<^verbatim>\<open>search_range\<close> an address is marked
  precisely if it was marked before or some word of the range, its two low bits ignored, equals it. The
  scan map and the rest of the working buffer are untouched, and the scan ends without a fault. The
  addresses may be any number of pages; both levels of the search are covered.
\<close>

theorem search_range_marks_exactly:
  assumes "addr_list xs" and "xs \<noteq> []" and "map_ready ts xs a" and "marking xs S a"
    and "words_at um (low r) (unat ((high r - low r) div 8)) = Inr ws"
    and "dbg \<longrightarrow> 0 \<notin> set xs"
  shows "returns (search_range dbg ts um r a) (\<lambda>a'.
    length a' = length a \<and> drop (length xs) a' = drop (length xs) a \<and>
    (\<forall>i < length xs. xs ! i \<noteq> 0 \<longrightarrow>
       a' ! i = mark (i \<in> S \<or> (\<exists>w \<in> set ws. PTR_MASK w = xs ! i)) (xs ! i)))"
  by (rule returns_mono [OF search_range_correct [OF assms]])
     (auto simp: scanned_def marking_def all_hits_nonzero)

definition example_ts :: threadscan_data where
  "example_ts = \<lparr>max_ptrs = 8, n_addrs = 3, buf_addrs = 0x10000, n_scan_map = 1, buf_scan_map = 0x10020,
     working_buffer_sz = 4096, offset_list = [0x20, 0], storage = 0\<rparr>"

theorem search_range_marks_exactly_witness:
  "returns (search_range True example_ts [0x7000 \<mapsto> 34] \<lparr>low = 0x7000, high = 0x7008\<rparr> [16, 32, 48, 0, 16]) (\<lambda>a'.
    length a' = length [16, 32, 48, 0, 16 :: size_t] \<and>
    drop (length [16, 32, 48 :: size_t]) a' = drop (length [16, 32, 48 :: size_t]) [16, 32, 48, 0, 16] \<and>
    (\<forall>i < length [16, 32, 48 :: size_t]. [16, 32, 48] ! i \<noteq> (0 :: size_t) \<longrightarrow>
       a' ! i = mark (i \<in> {} \<or> (\<exists>w \<in> set [34]. PTR_MASK w = [16, 32, 48] ! i)) ([16, 32, 48] ! i)))"
proof (rule search_range_marks_exactly)
  show "addr_list [16, 32, 48]" by (simp add: addr_list_def aligned4_def PTR_MASK_def)
  show "map_ready example_ts [16, 32, 48] [16, 32, 48, 0, 16]"
    by (simp add: map_ready_def example_ts_def pages_def scan_map_index_def)
  show "marking [16, 32, 48] {} [16, 32, 48, 0, 16]"
    by (auto simp: marking_def mark_def less_Suc_eq numeral_3_eq_3)
qed (simp_all add: load_def)

text \<open>
  \<^verbatim>\<open>generate_scan_map\<close> on a buffer that starts with the addresses \<open>xs\<close>: it takes the first address of
  every page of 512, leaves \<open>xs\<close> in place, and establishes what the search needs.
\<close>

theorem generate_scan_map_ready:
  assumes "n_addrs ts = int (length xs)" and "int (length xs) \<le> scan_map_index ts"
    and "nat (scan_map_index ts) + pages (length xs) \<le> length a" and "take (length xs) a = xs"
  shows "\<exists>ts' a'. generate_scan_map ts a = Inr (ts', a') \<and> length a' = length a \<and>
    marking xs {} a' \<and> map_ready ts' xs a'"
  using generate_scan_map_correct [OF assms] by auto

theorem generate_scan_map_ready_witness:
  "\<exists>ts' a'. generate_scan_map example_ts [16, 32, 48, 0, 0] = Inr (ts', a') \<and>
    length a' = length [16, 32, 48, 0, 0 :: size_t] \<and> marking [16, 32, 48] {} a' \<and> map_ready ts' [16, 32, 48] a'"
  by (rule generate_scan_map_ready) (simp_all add: example_ts_def scan_map_index_def pages_def)

text \<open>
  The binary search with its linear end game, on any sorted stretch \<open>mn .. mx\<close> of an array in
  which \<open>val\<close> would come at position \<open>t\<close>: the result is \<open>t\<close> if \<open>val\<close> is there, else the position just
  before it; every access is inside the stretch.
\<close>

theorem binary_search_finds:
  assumes "0 \<le> mn" and "mn < mx" and "mx \<le> int (length a)"
    and "mn \<le> t" and "t \<le> mx" and "\<forall>k. mn \<le> k \<and> k < t \<longrightarrow> a ! nat k < val"
    and "t < mx \<longrightarrow> val \<le> a ! nat t" and "\<forall>k. t < k \<and> k < mx \<longrightarrow> val < a ! nat k"
  shows "binary_search val a mn mx =
    Inr (if t < mx \<and> a ! nat t = val then t else max mn (t - 1))"
  using binary_search_correct [of mn mx a val t] assms by (simp add: splits_def found_at_def)

theorem binary_search_finds_witness:
  "binary_search 20 [16, 32] 0 2 =
    Inr (if 1 < (2 :: int) \<and> [16, 32] ! nat 1 = (20 :: size_t) then 1 else max 0 (1 - 1))"
proof (rule binary_search_finds)
  show "\<forall>k. 0 \<le> k \<and> k < 1 \<longrightarrow> [16, 32] ! nat k < (20 :: size_t)"
  proof (intro allI impI)
    fix k :: int
    assume "0 \<le> k \<and> k < 1"
    then have "k = 0" by simp
    then show "[16, 32] ! nat k < (20 :: size_t)" by simp
  qed
qed simp_all

text \<open>
  (C22) The sweep over the first \<open>n\<close> addresses frees exactly the unmarked ones, in order. Of the marked
  ones it keeps those behind the first unmarked address, marks removed; a marked address before the
  first unmarked one is written to its own place and then overwritten with zero, so it is lost.
\<close>

theorem sweep_exact:
  assumes "0 \<le> n" and "n \<le> int (length as)"
  shows "\<exists>a'. handle_unreferenced_ptrs as n =
      Inr (a', int (length (filter is_marked (take (nat n) as))),
           filter (\<lambda>v. \<not> is_marked v) (take (nat n) as)) \<and>
    take (length (filter is_marked (take (nat n) as))) a' =
      replicate (length (takeWhile is_marked (take (nat n) as))) 0 @
      map PTR_MASK (filter is_marked (dropWhile is_marked (take (nat n) as)))"
  using handle_unreferenced_ptrs_eq [OF assms] length_kept [of "take (nat n) as"]
  by (simp add: kept_def)

theorem sweep_exact_witness:
  "\<exists>a'. handle_unreferenced_ptrs [17, 32, 49] 3 =
      Inr (a', int (length (filter is_marked (take (nat 3) [17, 32, 49]))),
           filter (\<lambda>v. \<not> is_marked v) (take (nat 3) [17, 32, 49])) \<and>
    take (length (filter is_marked (take (nat 3) [17, 32, 49]))) a' =
      replicate (length (takeWhile is_marked (take (nat 3) [17, 32, 49]))) 0 @
      map PTR_MASK (filter is_marked (dropWhile is_marked (take (nat 3) [17, 32, 49])))"
  by (rule sweep_exact) simp_all

text \<open>
  (C27) A scan when no address is under reclamation reads in front of the working buffer: \<^verbatim>\<open>do_search\<close>
  takes \<^verbatim>\<open>buf_addrs[n_addrs - 1]\<close> without looking at \<^verbatim>\<open>n_addrs\<close>.
\<close>

theorem do_search_empty_faults:
  assumes "n_addrs ts = 0"
  shows "do_search dbg ts um p range_size a = Inl Bad_access"
  using assms by (simp add: do_search_def rd_def)

theorem do_search_empty_faults_witness:
  "do_search False (example_ts\<lparr>n_addrs := 0\<rparr>) Map.empty 0x7000 1 [0, 0, 0, 0] = Inl Bad_access"
  by (rule do_search_empty_faults) simp


end
