(* ===== verification/TS_Alloc.thy ===== *)
theory TS_Alloc
  imports TS_Search
begin

text \<open>
  The page allocator of \<^verbatim>\<open>alloc.c\<close>: every block the library maps is described by a metadata node.
  The nodes of the mapped blocks form a circular doubly linked list sorted by address, the unused
  nodes a singly linked free list; nodes live in pages that are themselves mapped and described by
  their own first node.

  The metadata nodes are a typed store from addresses to nodes. The kernel is a parameter: its state
  \<open>'o\<close> and the calls \<open>mmap\<close> and \<open>munmap\<close>, about which \<open>kernel_ok\<close> states the documented behaviour.
  Each operation runs under \<^verbatim>\<open>list_lock\<close> and is one step here; \<^verbatim>\<open>mprotect\<close> is left out (it sets the
  protection the pages have already, and a failure is only reported).
\<close>

subsection \<open>Data\<close>

record memory_metadata =
  m_addr :: size_t
  m_length :: size_t
  m_next :: size_t
  m_prev :: size_t

type_synonym mheap = "size_t \<rightharpoonup> memory_metadata"

record 'o alloc_state =
  nodes :: mheap
  free_list :: size_t
  alloc_list :: size_t
  os :: 'o

record 'o kernel =
  sys_mmap :: "'o \<Rightarrow> size_t \<Rightarrow> size_t option \<times> 'o"
  sys_munmap :: "'o \<Rightarrow> size_t \<Rightarrow> size_t \<Rightarrow> int \<times> 'o"
  mapped :: "'o \<Rightarrow> (size_t \<times> size_t) set"

definition ALLOC_BLOCKSIZE :: size_t where
  "ALLOC_BLOCKSIZE = PAGESIZE"

text \<open>\<^verbatim>\<open>sizeof(memory_metadata_t)\<close>: four fields of eight bytes.\<close>

definition METADATA_SIZE :: size_t where
  "METADATA_SIZE = 32"

subsection \<open>Access to the nodes\<close>

definition node_at :: "mheap \<Rightarrow> size_t \<Rightarrow> memory_metadata res" where
  "node_at h p = (case h p of None \<Rightarrow> Inl Bad_access | Some m \<Rightarrow> Inr m)"

definition upd_node :: "mheap \<Rightarrow> size_t \<Rightarrow> (memory_metadata \<Rightarrow> memory_metadata) \<Rightarrow> mheap res" where
  "upd_node h p f = (case h p of None \<Rightarrow> Inl Bad_access | Some m \<Rightarrow> Inr (h(p \<mapsto> f m)))"

definition LOW_ADDR :: "memory_metadata \<Rightarrow> size_t" where
  "LOW_ADDR m = m_addr m"

definition HIGH_ADDR :: "memory_metadata \<Rightarrow> size_t" where
  "HIGH_ADDR m = LOW_ADDR m + m_length m"

subsection \<open>Operations\<close>

text \<open>\<open>None\<close> stands for \<^verbatim>\<open>MAP_FAILED\<close>.\<close>

definition mmap_wrap :: "bool \<Rightarrow> 'o kernel \<Rightarrow> size_t \<Rightarrow> 'o alloc_state \<Rightarrow> (size_t \<times> 'o alloc_state) res" where
  "mmap_wrap dbg k sz s =
     (case sys_mmap k (os s) sz of
        (None, os') \<Rightarrow> Inl (Fatal ''threadscan: failed mmap().'')
      | (Some ptr, os') \<Rightarrow> bindE (c_assert dbg (ptr \<noteq> 0)) (\<lambda>_. Inr (ptr, s\<lparr>os := os'\<rparr>)))"

text \<open>Unmapping a block destroys the nodes that lie in it.\<close>

definition munmap_wrap :: "'o kernel \<Rightarrow> size_t \<Rightarrow> size_t \<Rightarrow> 'o alloc_state \<Rightarrow> int \<times> 'o alloc_state" where
  "munmap_wrap k addr len s =
     (case sys_munmap k (os s) addr len of (ret, os') \<Rightarrow>
        (ret, s\<lparr>os := os',
               nodes := (if ret = 0 then nodes s |` {p. p - addr \<ge> len} else nodes s)\<rparr>))"

text \<open>The loop \<^verbatim>\<open>while (LOW_ADDR(curr) < HIGH_ADDR(meta)) curr = curr->next\<close>.\<close>

definition find_place :: "mheap \<Rightarrow> size_t \<Rightarrow> size_t \<Rightarrow> size_t res" where
  "find_place h hi = loopE (\<lambda>cur.
     bindE (node_at h cur) (\<lambda>c.
     Inr (if LOW_ADDR c < hi then Inl (m_next c) else Inr cur)))"

text \<open>
  The four assignments that link \<open>meta\<close> in before \<open>curr\<close>: with \<^verbatim>\<open>meta->next\<close> first in one branch of
  \<^verbatim>\<open>metadata_do_insert\<close> and \<^verbatim>\<open>meta->prev\<close> first in the other.
\<close>

definition link_before :: "mheap \<Rightarrow> size_t \<Rightarrow> size_t \<Rightarrow> mheap res" where
  "link_before h meta cur =
     bindE (node_at h cur) (\<lambda>c.
     bindE (upd_node h meta (\<lambda>m. m\<lparr>m_next := cur, m_prev := m_prev c\<rparr>)) (\<lambda>h.
     bindE (node_at h cur) (\<lambda>c.
     bindE (upd_node h (m_prev c) (\<lambda>m. m\<lparr>m_next := meta\<rparr>)) (\<lambda>h.
     upd_node h cur (\<lambda>m. m\<lparr>m_prev := meta\<rparr>)))))"

definition metadata_do_insert :: "size_t \<Rightarrow> 'o alloc_state \<Rightarrow> 'o alloc_state res" where
  "metadata_do_insert meta s =
     (let h = nodes s; al = alloc_list s in
      if al = 0 then
        bindE (upd_node h meta (\<lambda>m. m\<lparr>m_next := meta, m_prev := meta\<rparr>)) (\<lambda>h.
        Inr (s\<lparr>nodes := h, alloc_list := meta\<rparr>))
      else
        bindE (node_at h al) (\<lambda>a.
        bindE (node_at h (m_prev a)) (\<lambda>z.
        bindE (node_at h meta) (\<lambda>m.
        if HIGH_ADDR z \<le> LOW_ADDR m then
          bindE (link_before h meta al) (\<lambda>h. Inr (s\<lparr>nodes := h\<rparr>))
        else
          bindE (find_place h (HIGH_ADDR m) al) (\<lambda>cur.
          bindE (link_before h meta cur) (\<lambda>h.
          Inr (s\<lparr>nodes := h, alloc_list := (if cur = al then meta else al)\<rparr>)))))))"

definition metadata_insert :: "size_t \<Rightarrow> 'o alloc_state \<Rightarrow> 'o alloc_state res" where
  "metadata_insert meta s = metadata_do_insert meta s"

text \<open>The loop \<^verbatim>\<open>for (curr = alloc_list; curr->addr != addr; curr = curr->next)\<close>.\<close>

definition find_addr :: "mheap \<Rightarrow> size_t \<Rightarrow> size_t \<Rightarrow> size_t res" where
  "find_addr h addr = loopE (\<lambda>cur.
     bindE (node_at h cur) (\<lambda>c.
     Inr (if m_addr c \<noteq> addr then Inl (m_next c) else Inr cur)))"

definition metadata_remove :: "bool \<Rightarrow> size_t \<Rightarrow> 'o alloc_state \<Rightarrow> (size_t \<times> 'o alloc_state) res" where
  "metadata_remove dbg addr s =
     bindE (c_assert dbg (alloc_list s \<noteq> 0)) (\<lambda>_.
     bindE (find_addr (nodes s) addr (alloc_list s)) (\<lambda>cur.
     if cur = 0 then Inl (Fatal ''threadscan: internal error'')
     else
       bindE (node_at (nodes s) cur) (\<lambda>c.
       bindE (upd_node (nodes s) (m_next c) (\<lambda>m. m\<lparr>m_prev := m_prev c\<rparr>)) (\<lambda>h.
       bindE (node_at h cur) (\<lambda>c.
       bindE (upd_node h (m_prev c) (\<lambda>m. m\<lparr>m_next := m_next c\<rparr>)) (\<lambda>h.
       bindE (node_at h cur) (\<lambda>c.
       let al = (if cur = alloc_list s then m_next c else alloc_list s) in
       bindE (upd_node h cur (\<lambda>m. m\<lparr>m_next := 0, m_prev := 0\<rparr>)) (\<lambda>h.
       Inr (cur, s\<lparr>nodes := h, alloc_list := al\<rparr>)))))))))"

text \<open>
  The memory \<^verbatim>\<open>mmap\<close> returns is zero: a block used for nodes holds one zero node at every multiple of
  the node size.
\<close>

definition zero_nodes :: "size_t \<Rightarrow> size_t \<Rightarrow> mheap" where
  "zero_nodes p len q =
     (if q - p \<le> len - METADATA_SIZE \<and> (q - p) mod METADATA_SIZE = 0
      then Some \<lparr>m_addr = 0, m_length = 0, m_next = 0, m_prev = 0\<rparr> else None)"

text \<open>The loop that turns the rest of a page into free nodes.\<close>

function carve_loop :: "size_t \<Rightarrow> size_t \<Rightarrow> mheap \<Rightarrow> size_t \<Rightarrow> (mheap \<times> size_t) res" where
  "carve_loop p offset h fl =
     (if offset < ALLOC_BLOCKSIZE - METADATA_SIZE then
        bindE (upd_node h (p + offset) (\<lambda>m. m\<lparr>m_next := fl\<rparr>)) (\<lambda>h.
        carve_loop p (offset + METADATA_SIZE) h (p + offset))
      else Inr (h, fl))"
  by pat_completeness auto
termination
proof (relation "measure (\<lambda>(_, offset, _, _). 4096 - unat offset)")
  show "wf (measure (\<lambda>(_ :: size_t, offset :: size_t, _ :: mheap, _ :: size_t). 4096 - unat offset))"
    by simp
next
  fix p offset :: size_t and h h' :: mheap and fl :: size_t
  assume "offset < ALLOC_BLOCKSIZE - METADATA_SIZE"
  then have "unat offset < 4064"
    by (simp add: ALLOC_BLOCKSIZE_def METADATA_SIZE_def PAGESIZE_def word_less_nat_alt)
  moreover from this have "unat (offset + METADATA_SIZE) = unat offset + 32"
    by (simp add: METADATA_SIZE_def unat_word_ariths)
  ultimately show "((p, offset + METADATA_SIZE, h', p + offset), (p, offset, h, fl))
      \<in> measure (\<lambda>(_, offset, _, _). 4096 - unat offset)"
    by simp
qed

declare carve_loop.simps [simp del]

definition metadata_new :: "bool \<Rightarrow> 'o kernel \<Rightarrow> 'o alloc_state \<Rightarrow> (size_t \<times> 'o alloc_state) res" where
  "metadata_new dbg k s =
     bindE
       (if free_list s = 0 then
          bindE (mmap_wrap dbg k ALLOC_BLOCKSIZE s) (\<lambda>(p, s).
          bindE (upd_node (nodes s ++ zero_nodes p ALLOC_BLOCKSIZE) p
                  (\<lambda>m. m\<lparr>m_addr := p, m_length := ALLOC_BLOCKSIZE\<rparr>)) (\<lambda>h.
          bindE (metadata_do_insert p (s\<lparr>nodes := h\<rparr>)) (\<lambda>s.
          bindE (carve_loop p METADATA_SIZE (nodes s) (free_list s)) (\<lambda>(h, fl).
          Inr (s\<lparr>nodes := h, free_list := fl\<rparr>)))))
        else Inr s) (\<lambda>s.
     let ret = free_list s in
     bindE (c_assert dbg (ret \<noteq> 0)) (\<lambda>_.
     bindE (node_at (nodes s) ret) (\<lambda>m.
     Inr (ret, s\<lparr>free_list := m_next m\<rparr>))))"

definition metadata_free :: "size_t \<Rightarrow> 'o alloc_state \<Rightarrow> 'o alloc_state res" where
  "metadata_free meta s =
     bindE (upd_node (nodes s) meta (\<lambda>m. m\<lparr>m_next := free_list s\<rparr>)) (\<lambda>h.
     Inr (s\<lparr>nodes := h, free_list := meta\<rparr>))"

definition threadscan_alloc_mmap ::
  "bool \<Rightarrow> 'o kernel \<Rightarrow> size_t \<Rightarrow> 'o alloc_state \<Rightarrow> (size_t \<times> 'o alloc_state) res" where
  "threadscan_alloc_mmap dbg k sz s =
     bindE (metadata_new dbg k s) (\<lambda>(meta, s).
     bindE (c_assert dbg (sz mod PAGESIZE = 0)) (\<lambda>_.
     bindE (c_assert dbg (meta \<noteq> 0)) (\<lambda>_.
     bindE (upd_node (nodes s) meta (\<lambda>m. m\<lparr>m_length := sz\<rparr>)) (\<lambda>h.
     bindE (mmap_wrap dbg k sz (s\<lparr>nodes := h\<rparr>)) (\<lambda>(ptr, s).
     bindE (upd_node (nodes s) meta (\<lambda>m. m\<lparr>m_addr := ptr\<rparr>)) (\<lambda>h.
     bindE (c_assert dbg (ptr \<noteq> 0)) (\<lambda>_.
     bindE (metadata_insert meta (s\<lparr>nodes := h\<rparr>)) (\<lambda>s.
     bindE (node_at (nodes s) meta) (\<lambda>m.
     Inr (m_addr m, s))))))))))"

definition threadscan_alloc_munmap ::
  "bool \<Rightarrow> 'o kernel \<Rightarrow> size_t \<Rightarrow> 'o alloc_state \<Rightarrow> 'o alloc_state res" where
  "threadscan_alloc_munmap dbg k ptr s =
     bindE (c_assert dbg (ptr \<noteq> 0)) (\<lambda>_.
     bindE (metadata_remove dbg ptr s) (\<lambda>(meta, s).
     if meta = 0 then Inl (Fatal ''threadscan: lost track of memory.'')
     else
       bindE (node_at (nodes s) meta) (\<lambda>m.
       case munmap_wrap k (m_addr m) (m_length m) s of (ret, s) \<Rightarrow>
       if ret \<noteq> 0 then Inl (Fatal ''threadscan: failed munmap().'')
       else metadata_free meta s)))"

subsection \<open>Linked structures\<close>

text \<open>\<open>chain h xs\<close>: each element's \<^verbatim>\<open>next\<close> is the one after it, whose \<^verbatim>\<open>prev\<close> points back.\<close>

fun chain :: "mheap \<Rightarrow> size_t list \<Rightarrow> bool" where
  "chain h (a # b # xs) \<longleftrightarrow>
     (\<exists>m. h a = Some m \<and> m_next m = b) \<and> (\<exists>m. h b = Some m \<and> m_prev m = a) \<and> chain h (b # xs)"
| "chain h _ = True"

definition ring :: "mheap \<Rightarrow> size_t list \<Rightarrow> bool" where
  "ring h ns \<longleftrightarrow> ns \<noteq> [] \<and> distinct ns \<and> chain h (ns @ [hd ns])"

fun flist :: "mheap \<Rightarrow> size_t \<Rightarrow> size_t list \<Rightarrow> bool" where
  "flist h p [] \<longleftrightarrow> p = 0"
| "flist h p (x # xs) \<longleftrightarrow> p = x \<and> x \<noteq> 0 \<and> (\<exists>m. h x = Some m \<and> flist h (m_next m) xs)"

text \<open>\<open>relinked S h h'\<close>: only links of nodes in \<open>S\<close> differ.\<close>

definition region :: "memory_metadata \<Rightarrow> size_t \<times> size_t" where
  "region m = (m_addr m, m_length m)"

definition reg :: "mheap \<Rightarrow> size_t \<Rightarrow> size_t \<times> size_t" where
  "reg h n = region (the (h n))"

definition relinked :: "size_t set \<Rightarrow> mheap \<Rightarrow> mheap \<Rightarrow> bool" where
  "relinked S h h' \<longleftrightarrow>
     (\<forall>x. map_option region (h' x) = map_option region (h x)) \<and> (\<forall>x. x \<notin> S \<longrightarrow> h' x = h x)"

lemma region_upd [simp]:
  "region (m\<lparr>m_next := v\<rparr>) = region m" "region (m\<lparr>m_prev := v\<rparr>) = region m"
  by (simp_all add: region_def)

lemma relinked_refl [simp]: "relinked S h h"
  by (simp add: relinked_def)

lemma relinked_trans: "relinked S h h' \<Longrightarrow> relinked S h' h'' \<Longrightarrow> relinked S h h''"
  by (simp add: relinked_def)

lemma relinked_mono: "relinked S h h' \<Longrightarrow> S \<subseteq> T \<Longrightarrow> relinked T h h'"
  by (auto simp: relinked_def)

lemma relinked_upd:
  "x \<in> S \<Longrightarrow> h x = Some m \<Longrightarrow> region m' = region m \<Longrightarrow> relinked S h (h(x \<mapsto> m'))"
  by (simp add: relinked_def)

lemma relinked_reg: "relinked S h h' \<Longrightarrow> reg h' n = reg h n" if "h n = Some m"
  using that unfolding relinked_def reg_def
  by (metis (no_types, lifting) map_option_eq_Some option.sel)

lemma relinked_dom: "relinked S h h' \<Longrightarrow> dom h' = dom h"
  unfolding relinked_def dom_def by (metis map_option_is_None)

lemma relinked_SomeD: "relinked S h h' \<Longrightarrow> h x = Some m \<Longrightarrow> \<exists>m'. h' x = Some m' \<and> region m' = region m"
  unfolding relinked_def by (metis map_option_eq_Some)

lemma chain_append: "chain h (xs @ y # ys) \<longleftrightarrow> chain h (xs @ [y]) \<and> chain h (y # ys)"
proof (induction xs)
  case (Cons a xs)
  then show ?case by (cases xs) auto
qed simp

lemma chain_SomeD: "chain h xs \<Longrightarrow> 2 \<le> length xs \<Longrightarrow> x \<in> set xs \<Longrightarrow> \<exists>m. h x = Some m"
proof (induction xs)
  case (Cons a xs)
  show ?case
  proof (cases xs)
    case (Cons b r)
    then show ?thesis using Cons.prems Cons.IH by (cases r) auto
  qed (use Cons.prems in simp)
qed simp

lemma ring_rotate: "ring h (us @ vs) \<Longrightarrow> ring h (vs @ us)"
proof (cases us; cases vs)
  fix a us' b vs'
  assume r: "ring h (us @ vs)" and u: "us = a # us'" and v: "vs = b # vs'"
  then have "chain h ((a # us') @ b # vs' @ [a])" "distinct (us @ vs)" by (simp_all add: ring_def)
  then have "chain h (a # us' @ [b])" "chain h (b # vs' @ [a])"
    using chain_append [of h "a # us'" b "vs' @ [a]"] by simp_all
  then have "chain h ((b # vs') @ a # us' @ [b])" using chain_append [of h "b # vs'" a "us' @ [b]"] by simp
  then show ?thesis using \<open>distinct (us @ vs)\<close> by (auto simp: ring_def u v)
qed auto

lemma ring_SomeD: "ring h ns \<Longrightarrow> x \<in> set ns \<Longrightarrow> \<exists>m. h x = Some m"
  by (rule chain_SomeD [of h "ns @ [hd ns]"]) (auto simp: ring_def Suc_le_eq)

text \<open>A chain depends on the \<^verbatim>\<open>next\<close> of all but its last and the \<^verbatim>\<open>prev\<close> of all but its first element.\<close>

lemma chain_cong:
  assumes "chain h xs"
    and "\<And>x m. x \<in> set (butlast xs) \<Longrightarrow> h x = Some m \<Longrightarrow> \<exists>m'. h' x = Some m' \<and> m_next m' = m_next m"
    and "\<And>x m. x \<in> set (tl xs) \<Longrightarrow> h x = Some m \<Longrightarrow> \<exists>m'. h' x = Some m' \<and> m_prev m' = m_prev m"
  shows "chain h' xs"
  using assms
proof (induction h xs rule: chain.induct)
  case (1 h a b xs)
  have "chain h' (b # xs)"
    using 1 by (intro "1.IH") (auto split: if_splits)
  moreover obtain m n where "h a = Some m" "m_next m = b" "h b = Some n" "m_prev n = a" using "1.prems"(1) by auto
  ultimately show ?case using "1.prems"(2) [of a m] "1.prems"(3) [of b n] by auto
qed auto

lemma chain_same: "chain h xs \<Longrightarrow> (\<And>x. x \<in> set xs \<Longrightarrow> h' x = h x) \<Longrightarrow> chain h' xs"
  by (induction h xs rule: chain.induct) auto

lemma chain_relinked:
  assumes "chain h xs" and "relinked S h h'" and "set xs \<inter> S = {}"
  shows "chain h' xs"
proof (rule chain_cong [OF assms(1)])
  have same: "h' x = h x" if "x \<in> set xs" for x using assms(2,3) that by (auto simp: relinked_def)
  then show "\<exists>m'. h' x = Some m' \<and> m_next m' = m_next m"
    if "x \<in> set (butlast xs)" "h x = Some m" for x m using that by (auto dest: in_set_butlastD)
  show "\<exists>m'. h' x = Some m' \<and> m_prev m' = m_prev m" if "x \<in> set (tl xs)" "h x = Some m" for x m
    using same that by (cases xs) auto
qed

lemma ring_relinked:
  assumes "ring h ns" "relinked S h h'" "set ns \<inter> S = {}"
  shows "ring h' ns"
proof -
  have "set (ns @ [hd ns]) \<inter> S = {}" using assms by (cases ns) (auto simp: ring_def)
  then show ?thesis using assms(1) chain_relinked [OF _ assms(2)] by (simp add: ring_def)
qed

lemma flist_cong: "flist h p fs \<Longrightarrow> (\<And>x. x \<in> set fs \<Longrightarrow> h' x = h x) \<Longrightarrow> flist h' p fs"
  by (induction h p fs rule: flist.induct) auto

lemma flist_relinked: "flist h p fs \<Longrightarrow> relinked S h h' \<Longrightarrow> set fs \<inter> S = {} \<Longrightarrow> flist h' p fs"
  by (erule flist_cong) (auto simp: relinked_def)

lemma flist_SomeD: "flist h p fs \<Longrightarrow> x \<in> set fs \<Longrightarrow> \<exists>m. h x = Some m"
  by (induction h p fs rule: flist.induct) auto

subsection \<open>Links are changed correctly\<close>

lemma node_at_Some [simp]: "h p = Some m \<Longrightarrow> node_at h p = Inr m"
  by (simp add: node_at_def)

lemma upd_node_Some [simp]: "h p = Some m \<Longrightarrow> upd_node h p f = Inr (h(p \<mapsto> f m))"
  by (simp add: upd_node_def)

lemma ring_Cons_iff:
  "ring h (c # ws) \<longleftrightarrow> distinct (c # ws) \<and> chain h (c # ws) \<and>
     (\<exists>m. h c = Some m \<and> m_prev m = last (c # ws)) \<and>
     (\<exists>m. h (last (c # ws)) = Some m \<and> m_next m = c)"
proof -
  obtain bs l where bs: "c # ws = bs @ [l]" by (cases "c # ws" rule: rev_cases) auto
  then have "chain h (c # ws @ [c]) \<longleftrightarrow> chain h (bs @ l # [c])"
    by (metis append.assoc append_Cons append_Nil)
  also have "\<dots> \<longleftrightarrow> chain h (c # ws) \<and> (\<exists>m. h l = Some m \<and> m_next m = c) \<and> (\<exists>m. h c = Some m \<and> m_prev m = l)"
    by (subst chain_append) (simp add: bs)
  moreover have "last (c # ws) = l" by (simp only: bs last_snoc)
  ultimately show ?thesis unfolding ring_def by simp metis
qed

lemma link_before_ring:
  assumes r: "ring h (c # ws)" and new: "x \<notin> set (c # ws)" "h x = Some mx"
  obtains h' where "link_before h x c = Inr h'" "ring h' (c # ws @ [x])"
    "relinked (insert x (set (c # ws))) h h'"
proof -
  define l where "l = last (c # ws)"
  obtain mc ml where e: "h c = Some mc" "m_prev mc = l" "h l = Some ml" "m_next ml = c"
    using r unfolding l_def ring_Cons_iff by blast
  have d: "distinct (c # ws)" using r by (simp add: ring_def)
  have l: "l \<in> set (c # ws)" "l \<noteq> x" "c \<noteq> x" using new by (auto simp: l_def)
  define h1 where "h1 = h(x \<mapsto> mx\<lparr>m_next := c, m_prev := l\<rparr>)"
  define h2 where "h2 = h1(l \<mapsto> ml\<lparr>m_next := x\<rparr>)"
  define mc2 where "mc2 = (if l = c then ml\<lparr>m_next := x\<rparr> else mc)"
  define h' where "h' = h2(c \<mapsto> mc2\<lparr>m_prev := x\<rparr>)"
  have run: "link_before h x c = Inr h'"
    using e l new(2) by (simp add: link_before_def h'_def h2_def h1_def mc2_def)
  have region: "relinked (insert x (set (c # ws))) h h'"
    using e l new(2) unfolding h'_def h2_def h1_def mc2_def
    by (auto simp: relinked_def region_def)
  have at_x: "h' x = Some (mx\<lparr>m_next := c, m_prev := l\<rparr>)"
    using l by (simp add: h'_def h2_def h1_def)
  have at_l: "\<exists>m. h' l = Some m \<and> m_next m = x" by (simp add: h'_def h2_def mc2_def)
  have at_c: "h' c = Some (mc2\<lparr>m_prev := x\<rparr>)" by (simp add: h'_def)
  have "chain h' (c # ws)"
  proof (rule chain_cong [of h])
    show "chain h (c # ws)" using r by (simp only: ring_Cons_iff)
  next
    fix y m
    assume y: "y \<in> set (butlast (c # ws))" "h y = Some m"
    then have "y \<noteq> l" "y \<noteq> x"
      using d new(1) butlast_not_last [of "c # ws" y] in_set_butlastD [of y "c # ws"] by (auto simp: l_def)
    then show "\<exists>m'. h' y = Some m' \<and> m_next m' = m_next m"
      using y e by (auto simp: h'_def h2_def h1_def mc2_def)
  next
    fix y m
    assume y: "y \<in> set (tl (c # ws))" "h y = Some m"
    then have "y \<noteq> c" "y \<noteq> x" using d new(1) by auto
    then show "\<exists>m'. h' y = Some m' \<and> m_prev m' = m_prev m"
      using y e by (auto simp: h'_def h2_def h1_def)
  qed
  moreover have "chain h' (butlast (c # ws) @ l # [x])"
  proof -
    have "chain h' (butlast (c # ws) @ [l])"
      using \<open>chain h' (c # ws)\<close> by (simp add: l_def del: butlast.simps last.simps)
    then show ?thesis using at_l at_x by (subst chain_append) auto
  qed
  then have "chain h' ((butlast (c # ws) @ [l]) @ [x])" by simp
  then have "chain h' (c # ws @ [x])" by (simp add: l_def del: butlast.simps last.simps)
  then have "ring h' (c # ws @ [x])"
    using d new(1) at_c at_x by (auto simp: ring_Cons_iff)
  then show ?thesis using that run region by blast
qed

lemma unlink_ring:
  assumes r: "ring h (c # ws)" and ws: "ws \<noteq> []"
    and c: "h c = Some mc" and nx: "h (m_next mc) = Some mn"
    and h1: "h1 = h(m_next mc \<mapsto> mn\<lparr>m_prev := m_prev mc\<rparr>)" and pv: "h1 (m_prev mc) = Some mp"
  shows "ring (h1(m_prev mc \<mapsto> mp\<lparr>m_next := m_next mc\<rparr>)) ws"
proof -
  obtain b r' where b: "ws = b # r'" using ws by (cases ws) auto
  have d: "distinct (c # b # r')" using r by (simp add: ring_def b)
  have cb: "m_next mc = b" "m_prev mc = last (b # r')"
    using r c by (auto simp: ring_Cons_iff b)
  let ?h = "h1(last (b # r') \<mapsto> mp\<lparr>m_next := b\<rparr>)"
  have last_in: "last (b # r') \<in> set (b # r')" by (rule last_in_set) simp
  have "chain ?h (b # r')"
  proof (rule chain_cong [of h])
    show "chain h (b # r')" using r by (simp add: ring_Cons_iff b)
  next
    fix y m
    assume y: "y \<in> set (butlast (b # r'))" "h y = Some m"
    then have "y \<noteq> last (b # r')" using d butlast_not_last [of "b # r'" y] by simp
    then show "\<exists>m'. ?h y = Some m' \<and> m_next m' = m_next m"
      using y nx cb by (auto simp: h1)
  next
    fix y m
    assume y: "y \<in> set (tl (b # r'))" "h y = Some m"
    then show "\<exists>m'. ?h y = Some m' \<and> m_prev m' = m_prev m"
      using d pv cb by (auto simp: h1 split: if_splits)
  qed
  moreover have "\<exists>m. ?h b = Some m \<and> m_prev m = last (b # r')"
    using pv cb nx by (auto simp: h1 split: if_splits)
  ultimately show ?thesis using d cb by (auto simp: ring_Cons_iff b)
qed

subsection \<open>The walks along the list\<close>

lemma walk_stops:
  assumes "chain h (us @ [c])" and "\<exists>m. h c = Some m \<and> \<not> go m"
    and "\<And>u m. u \<in> set us \<Longrightarrow> h u = Some m \<Longrightarrow> go m"
  shows "loopE (\<lambda>cur. bindE (node_at h cur) (\<lambda>m. Inr (if go m then Inl (m_next m) else Inr cur)))
           (hd (us @ [c])) = Inr c"
  using assms
proof (induction us)
  case Nil
  then show ?case by (subst loopE_unfold) auto
next
  case (Cons u us)
  obtain m where m: "h u = Some m" "m_next m = hd (us @ [c])" "chain h (us @ [c])"
    using Cons.prems(1) by (cases us) auto
  moreover have "go m" using Cons.prems(3) [of u m] m by simp
  moreover have "loopE (\<lambda>cur. bindE (node_at h cur) (\<lambda>m. Inr (if go m then Inl (m_next m) else Inr cur)))
      (hd (us @ [c])) = Inr c"
    using m(3) Cons.prems by (intro Cons.IH) auto
  ultimately show ?case by (subst loopE_unfold) simp
qed

lemma ring_next_in: "ring h ns \<Longrightarrow> x \<in> set ns \<Longrightarrow> h x = Some m \<Longrightarrow> m_next m \<in> set ns"
proof -
  assume r: "ring h ns" and x: "x \<in> set ns" "h x = Some m"
  then obtain us vs where ns: "ns = us @ x # vs" by (meson split_list)
  then have "ring h (x # vs @ us)" using r ring_rotate [of h us "x # vs"] by simp
  then have "chain h ((x # vs @ us) @ [x])" by (simp add: ring_def)
  then have "m_next m \<in> set (x # vs @ us)" using x by (cases "vs @ us") auto
  then show ?thesis by (auto simp: ns)
qed

text \<open>
  On a ring the walk of \<^verbatim>\<open>metadata_remove\<close> for an address that no node has goes round for ever.
\<close>

lemma find_addr_hangs:
  assumes r: "ring h ns" and absent: "\<And>n m. n \<in> set ns \<Longrightarrow> h n = Some m \<Longrightarrow> m_addr m \<noteq> a"
    and start: "p \<in> set ns"
  shows "find_addr h a p = Inl Hang"
  unfolding find_addr_def
proof (rule loopE_hangs [where I = "\<lambda>n. n \<in> set ns"])
  fix n
  assume n: "n \<in> set ns"
  then obtain m where "h n = Some m" using ring_SomeD [OF r] by blast
  then show "\<exists>s'. bindE (node_at h n) (\<lambda>c. Inr (if m_addr c \<noteq> a then Inl (m_next c) else Inr n)) =
      Inr (Inl s') \<and> s' \<in> set ns"
    using absent [OF n] ring_next_in [OF r n] by auto
qed (rule start)

subsection \<open>Insertion keeps the list sorted\<close>

definition before :: "size_t \<times> size_t \<Rightarrow> size_t \<times> size_t \<Rightarrow> bool" where
  "before r r' \<longleftrightarrow> unat (fst r) + unat (snd r) \<le> unat (fst r')"

definition apart :: "size_t \<times> size_t \<Rightarrow> size_t \<times> size_t \<Rightarrow> bool" where
  "apart r r' \<longleftrightarrow> before r r' \<or> before r' r"

definition block_ok :: "size_t \<times> size_t \<Rightarrow> bool" where
  "block_ok r \<longleftrightarrow> fst r \<noteq> 0 \<and> snd r \<noteq> 0 \<and> unat (fst r) + unat (snd r) < 2 ^ 64"

definition blocks_ok :: "(size_t \<times> size_t) list \<Rightarrow> bool" where
  "blocks_ok rs \<longleftrightarrow> sorted_wrt before rs \<and> (\<forall>r \<in> set rs. block_ok r)"

lemma unat_HIGH: "block_ok (region m) \<Longrightarrow> unat (HIGH_ADDR m) = unat (m_addr m) + unat (m_length m)"
  by (simp add: HIGH_ADDR_def LOW_ADDR_def block_ok_def region_def unat_word_ariths)

lemma high_le_low: "block_ok (region m) \<Longrightarrow> HIGH_ADDR m \<le> LOW_ADDR m' \<longleftrightarrow> before (region m) (region m')"
  by (simp add: word_le_nat_alt unat_HIGH before_def region_def LOW_ADDR_def)

lemma low_less_high:
  "block_ok (region m) \<Longrightarrow> LOW_ADDR m' < HIGH_ADDR m \<longleftrightarrow> \<not> before (region m) (region m')"
  by (simp add: high_le_low [symmetric] not_le)

lemma before_trans: "before r s \<Longrightarrow> before s t \<Longrightarrow> before r t"
  by (simp add: before_def)

lemma before_antisym: "block_ok r \<Longrightarrow> before r s \<Longrightarrow> \<not> before s r"
  using unat_eq_zero [of "snd r"] by (auto simp: before_def block_ok_def)

lemma blocks_ok_insert:
  assumes "blocks_ok (us @ vs)" and "block_ok r"
    and "\<forall>u \<in> set us. before u r" and "vs \<noteq> [] \<Longrightarrow> before r (hd vs)"
  shows "blocks_ok (us @ r # vs)"
proof -
  have "before r v" if "v \<in> set vs" for v
  proof (cases vs)
    case (Cons w vs')
    then show ?thesis
      using assms(1,4) that by (auto simp: blocks_ok_def sorted_wrt_append intro: before_trans)
  qed (use that in simp)
  then show ?thesis using assms by (auto simp: blocks_ok_def sorted_wrt_append)
qed

text \<open>\<open>alloc_ring s ns\<close>: the allocated list of \<open>s\<close> consists of the nodes \<open>ns\<close>, in address order.\<close>

definition alloc_ring :: "'o alloc_state \<Rightarrow> size_t list \<Rightarrow> bool" where
  "alloc_ring s ns \<longleftrightarrow>
     (if ns = [] then alloc_list s = 0 else alloc_list s = hd ns \<and> ring (nodes s) ns) \<and>
     0 \<notin> set ns \<and> blocks_ok (map (reg (nodes s)) ns)"

lemma map_reg_relinked:
  assumes "relinked S h h'" "\<And>n. n \<in> set ns \<Longrightarrow> \<exists>m. h n = Some m"
  shows "map (reg h') ns = map (reg h) ns"
  using assms relinked_reg by (metis (no_types, lifting) map_eq_conv)

lemma find_place_first:
  assumes r: "ring h ns" and mx: "block_ok (region mx)"
    and ex: "n \<in> set ns" "before (region mx) (reg h n)"
  obtains us c vs where "ns = us @ c # vs" "find_place h (HIGH_ADDR mx) (hd ns) = Inr c"
    "before (region mx) (reg h c)" "\<forall>u \<in> set us. \<not> before (region mx) (reg h u)"
proof -
  obtain us c vs where ns: "ns = us @ c # vs" and c: "before (region mx) (reg h c)"
    and us: "\<forall>u \<in> set us. \<not> before (region mx) (reg h u)"
    using split_list_first_prop [of ns "\<lambda>n. before (region mx) (reg h n)"] ex by blast
  have go: "LOW_ADDR m < HIGH_ADDR mx \<longleftrightarrow> \<not> before (region mx) (reg h n)" if "h n = Some m" for n m
    using low_less_high [OF mx, of m] that by (simp add: reg_def)
  obtain mc where mc: "h c = Some mc" using ring_SomeD [OF r, of c] by (auto simp: ns)
  have "chain h (us @ c # vs @ [hd ns])" using r by (simp add: ring_def ns)
  then have "chain h (us @ [c])" by (simp only: chain_append [of h us c "vs @ [hd ns]"])
  then have "find_place h (HIGH_ADDR mx) (hd (us @ [c])) = Inr c"
    unfolding find_place_def using mc c us go by (intro walk_stops) auto
  moreover have "hd (us @ [c]) = hd ns" by (cases us) (auto simp: ns)
  ultimately show ?thesis using that ns c us by simp
qed

lemma metadata_do_insert_correct:
  assumes inv: "alloc_ring s ns" and x: "x \<notin> set ns" "x \<noteq> 0" "nodes s x = Some mx"
    and ok: "block_ok (region mx)" and apart: "\<forall>n \<in> set ns. apart (reg (nodes s) n) (region mx)"
  obtains h' us vs where "ns = us @ vs"
    "metadata_do_insert x s = Inr (s\<lparr>nodes := h', alloc_list := hd (us @ x # vs)\<rparr>)"
    "relinked (insert x (set ns)) (nodes s) h'"
    "alloc_ring (s\<lparr>nodes := h', alloc_list := hd (us @ x # vs)\<rparr>) (us @ x # vs)"
proof (cases "ns = []")
  case True
  let ?h = "(nodes s)(x \<mapsto> mx\<lparr>m_next := x, m_prev := x\<rparr>)"
  have "ring ?h [x]" by (simp add: ring_def)
  moreover have "blocks_ok (map (reg ?h) [x])" using ok by (simp add: blocks_ok_def reg_def)
  ultimately show ?thesis
    using True inv x by (intro that [of "[]" "[]" ?h])
      (auto simp: alloc_ring_def metadata_do_insert_def Let_def relinked_def)
next
  case False
  note obtained = that
  define h where "h = nodes s"
  obtain c ws where cw: "ns = c # ws" using False by (cases ns) auto
  have r: "ring h ns" and al: "alloc_list s = c" "c \<noteq> 0" and bl: "blocks_ok (map (reg h) ns)"
    using inv by (auto simp: alloc_ring_def h_def cw)
  obtain mc mz where e: "h c = Some mc" "m_prev mc = last ns" "h (last ns) = Some mz"
    using r by (auto simp: ring_Cons_iff cw)
  have rz: "reg h (last ns) = region mz" by (simp add: reg_def e)
  have okz: "block_ok (region mz)" using bl last_in_set [OF False] rz by (force simp: blocks_ok_def)
  have finish: ?thesis
    if split: "ns = us @ vs" and run: "metadata_do_insert x s = Inr (s\<lparr>nodes := h', alloc_list := hd (us @ x # vs)\<rparr>)"
      and ring': "ring h' (us @ x # vs)" and rel: "relinked (insert x (set ns)) h h'"
      and us: "\<forall>u \<in> set us. before (reg h u) (region mx)"
      and vs: "vs \<noteq> [] \<Longrightarrow> before (region mx) (reg h (hd vs))" for h' us vs
  proof -
    have same: "map (reg h') (us @ x # vs) = map (reg h) (us @ x # vs)"
      using rel ring_SomeD [OF r] x(3) by (intro map_reg_relinked) (auto simp: split h_def)
    have "blocks_ok (map (reg h) us @ region mx # map (reg h) vs)"
      using bl ok us vs by (intro blocks_ok_insert) (auto simp: split hd_map)
    moreover have "reg h x = region mx" by (simp add: reg_def x(3) h_def)
    ultimately have "blocks_ok (map (reg h') (us @ x # vs))" unfolding same by simp
    moreover have "0 \<notin> set (us @ x # vs)" using inv x(2) by (auto simp: alloc_ring_def split)
    ultimately show ?thesis
      using split run ring' rel by (intro obtained [of us vs h']) (auto simp: alloc_ring_def h_def)
  qed
  show ?thesis
  proof (cases "before (region mz) (region mx)")
    case True
    obtain h' where h': "link_before h x c = Inr h'" "ring h' (c # ws @ [x])"
      "relinked (insert x (set (c # ws))) h h'"
      using r x by (auto simp: cw h_def intro: link_before_ring)
    have "before (reg h n) (region mx)" if "n \<in> set ns" for n
    proof -
      have "n = last ns \<or> n \<in> set (butlast ns)" using that
        by (metis append_butlast_last_id False Un_iff set_append set_ConsD empty_iff list.set(1))
      moreover have "before (reg h n) (region mz)" if "n \<in> set (butlast ns)"
      proof -
        have "sorted_wrt before (map (reg h) (butlast ns @ [last ns]))"
          using bl False by (simp add: blocks_ok_def)
        then show ?thesis using that rz by (auto simp: sorted_wrt_append)
      qed
      ultimately show ?thesis using True rz by (auto intro: before_trans)
    qed
    moreover have "metadata_do_insert x s = Inr (s\<lparr>nodes := h', alloc_list := hd (ns @ [x])\<rparr>)"
      using h'(1) e al x(3) True high_le_low [OF okz, of mx]
      by (simp add: metadata_do_insert_def Let_def h_def cw)
    ultimately show ?thesis using h' by (intro finish [of ns "[]" h']) (auto simp: cw)
  next
    case not_last: False
    then have "before (region mx) (reg h (last ns))"
      using apart last_in_set [OF False] rz by (auto simp: apart_def h_def)
    then obtain us d vs where d: "ns = us @ d # vs" "find_place h (HIGH_ADDR mx) (hd ns) = Inr d"
      "before (region mx) (reg h d)" "\<forall>u \<in> set us. \<not> before (region mx) (reg h u)"
      using find_place_first [OF r ok last_in_set [OF False]] by blast
    have "ring h (d # vs @ us)" using r ring_rotate [of h us "d # vs"] by (simp add: d)
    then obtain h' where h': "link_before h x d = Inr h'" "ring h' (d # (vs @ us) @ [x])"
      "relinked (insert x (set (d # vs @ us))) h h'"
      using x by (auto simp: d h_def intro: link_before_ring)
    have "ring h' ((us @ [x]) @ d # vs)" using h'(2) ring_rotate [of h' "d # vs" "us @ [x]"] by simp
    moreover have "metadata_do_insert x s = Inr (s\<lparr>nodes := h', alloc_list := hd (us @ x # d # vs)\<rparr>)"
    proof -
      have "(if d = c then x else c) = hd (us @ x # d # vs)"
        using d(1) r by (cases us) (auto simp: cw ring_def)
      then show ?thesis
        using h'(1) d(2) e al x(3) not_last high_le_low [OF okz, of mx]
        by (simp add: metadata_do_insert_def Let_def h_def cw)
    qed
    moreover have "\<forall>u \<in> set us. before (reg h u) (region mx)"
      using d(1,4) apart by (auto simp: apart_def h_def)
    moreover have "relinked (insert x (set ns)) h h'" using h'(3) by (simp add: d Un_commute)
    ultimately show ?thesis using d by (intro finish [of us "d # vs" h']) auto
  qed
qed

subsection \<open>Removal\<close>

lemma find_addr_first:
  assumes r: "ring h ns" and bl: "blocks_ok (map (reg h) ns)"
    and c: "ns = us @ c # vs" "h c = Some mc"
  shows "find_addr h (m_addr mc) (hd ns) = Inr c"
proof -
  have "m_addr m \<noteq> m_addr mc" if "u \<in> set us" "h u = Some m" for u m
  proof -
    have "reg h u = region m" "reg h c = region mc" using that c(2) by (simp_all add: reg_def)
    then have "before (region m) (region mc)" "block_ok (region m)"
      using bl that by (force simp: c(1) blocks_ok_def sorted_wrt_append)+
    then show ?thesis
      using unat_eq_zero [of "m_length m"] by (auto simp: before_def block_ok_def region_def)
  qed
  moreover have "chain h (us @ c # vs @ [hd ns])" using r by (simp add: ring_def c(1))
  then have "chain h (us @ [c])" by (simp only: chain_append [of h us c "vs @ [hd ns]"])
  ultimately have "find_addr h (m_addr mc) (hd (us @ [c])) = Inr c"
    unfolding find_addr_def using c(2) by (intro walk_stops) auto
  moreover have "hd (us @ [c]) = hd ns" by (cases us) (auto simp: c)
  ultimately show ?thesis by simp
qed

lemma metadata_remove_correct:
  assumes inv: "alloc_ring s ns" and c: "ns = us @ c # vs" "nodes s c = Some mc"
    and more: "us @ vs \<noteq> []"
  obtains h' where
    "metadata_remove dbg (m_addr mc) s = Inr (c, s\<lparr>nodes := h', alloc_list := hd (us @ vs)\<rparr>)"
    "relinked (set ns) (nodes s) h'"
    "alloc_ring (s\<lparr>nodes := h', alloc_list := hd (us @ vs)\<rparr>) (us @ vs)"
proof -
  define h where "h = nodes s"
  have r: "ring h ns" and al: "alloc_list s = hd ns" "hd ns \<noteq> 0" and bl: "blocks_ok (map (reg h) ns)"
    and c0: "c \<noteq> 0"
    using inv c(1) by (cases us; force simp: alloc_ring_def h_def)+
  have rc: "ring h (c # vs @ us)" using r ring_rotate [of h us "c # vs"] by (simp add: c)
  have hc: "h c = Some mc" by (simp add: h_def c)
  obtain b w where bw: "vs @ us = b # w" using more by (cases "vs @ us") auto
  define l where "l = last (b # w)"
  have links: "m_next mc = b" "m_prev mc = l" using rc hc by (auto simp: ring_Cons_iff bw l_def)
  have d: "distinct (c # b # w)" using rc by (simp add: ring_def bw)
  have l: "l \<in> set (b # w)" "l \<noteq> c" using d last_in_set [of "b # w"] by (auto simp: l_def)
  obtain mb ml where mb: "h b = Some mb" and ml: "h l = Some ml"
    using ring_SomeD [OF rc, of b] ring_SomeD [OF rc, of l] l(1) unfolding bw by auto
  define h1 where "h1 = h(b \<mapsto> mb\<lparr>m_prev := l\<rparr>)"
  obtain mp where mp: "h1 l = Some mp" "region mp = region ml"
    using ml mb by (cases "l = b") (auto simp: h1_def)
  define h2 where "h2 = h1(l \<mapsto> mp\<lparr>m_next := b\<rparr>)"
  have h1c: "h1 c = Some mc" "h2 c = Some mc" using d l hc by (auto simp: h1_def h2_def)
  define h' where "h' = h2(c \<mapsto> mc\<lparr>m_next := 0, m_prev := 0\<rparr>)"
  have "ring h2 (b # w)"
    using unlink_ring [OF rc _ hc, of mb h1 mp] mb mp(1) by (simp add: bw links h1_def h2_def)
  moreover have "relinked {c} h2 h'" unfolding h'_def
    using h1c by (intro relinked_upd) (auto simp: region_def)
  ultimately have "ring h' (b # w)" by (rule ring_relinked) (use d in simp)
  then have ring': "ring h' (us @ vs)" using ring_rotate [of h' vs us] by (simp add: bw)
  have rel: "relinked (set ns) h h'"
  proof -
    have sub: "c \<in> set ns" "b \<in> set ns" "l \<in> set ns"
    proof -
      have "set (b # w) = set vs \<union> set us" by (simp only: bw [symmetric] set_append)
      then show "c \<in> set ns" "b \<in> set ns" "l \<in> set ns" using l(1) by (auto simp: c(1))
    qed
    have "relinked (set ns) h h1" unfolding h1_def using sub mb by (intro relinked_upd) auto
    moreover have "relinked (set ns) h1 h2" unfolding h2_def
      using sub(3) mp(1) by (intro relinked_upd [where m = mp]) auto
    ultimately show ?thesis
      using \<open>relinked {c} h2 h'\<close> sub relinked_mono [of "{c}" h2 h' "set ns"] by (blast intro: relinked_trans)
  qed
  have "(if c = hd ns then b else hd ns) = hd (us @ vs)"
    using bw r by (cases us) (auto simp: c(1) ring_def)
  then have run: "metadata_remove dbg (m_addr mc) s = Inr (c, s\<lparr>nodes := h', alloc_list := hd (us @ vs)\<rparr>)"
    using find_addr_first [OF r bl c(1) hc] al c0 hc mb mp h1c links
    by (simp add: metadata_remove_def c_assert_def h_def [symmetric] Let_def)
       (simp add: h1_def [symmetric], simp add: h2_def [symmetric], auto simp: h'_def split: if_splits)
  have same: "map (reg h') (us @ vs) = map (reg h) (us @ vs)"
    using rel ring_SomeD [OF r] by (intro map_reg_relinked) (auto simp: c(1))
  have "blocks_ok (map (reg h') (us @ vs))"
    unfolding same using bl by (auto simp: c(1) blocks_ok_def sorted_wrt_append)
  then show ?thesis using that run rel ring' inv more by (auto simp: alloc_ring_def h_def c(1))
qed

subsection \<open>The kernel\<close>

text \<open>
  What the allocator relies on, from the manual pages of \<^verbatim>\<open>mmap\<close> and \<^verbatim>\<open>munmap\<close>: a private anonymous
  mapping of a positive number of pages is page-aligned, not at address zero, does not reach the end
  of the address space and overlaps no existing mapping; unmapping an existing mapping succeeds and
  removes that mapping only.
\<close>

definition kernel_ok :: "'o kernel \<Rightarrow> bool" where
  "kernel_ok k \<longleftrightarrow>
     (\<forall>st sz p st'. sys_mmap k st sz = (Some p, st') \<longrightarrow> sz \<noteq> 0 \<longrightarrow> sz mod PAGESIZE = 0 \<longrightarrow>
        p mod PAGESIZE = 0 \<and> block_ok (p, sz) \<and> (\<forall>r \<in> mapped k st. apart r (p, sz)) \<and>
        mapped k st' = insert (p, sz) (mapped k st)) \<and>
     (\<forall>st p sz. (p, sz) \<in> mapped k st \<longrightarrow>
        (\<exists>st'. sys_munmap k st p sz = (0, st') \<and> mapped k st' = mapped k st - {(p, sz)}))"

definition mmap_fails :: "'o kernel \<Rightarrow> bool" where
  "mmap_fails k \<longleftrightarrow> (\<exists>st sz. fst (sys_mmap k st sz) = None)"

text \<open>\<open>okay b m P\<close>: the computation returns with \<open>P\<close>, or, if \<open>b\<close>, ends the process because \<^verbatim>\<open>mmap\<close> failed.\<close>

definition okay :: "bool \<Rightarrow> 'a res \<Rightarrow> ('a \<Rightarrow> bool) \<Rightarrow> bool" where
  "okay b m P \<longleftrightarrow> returns m P \<or> m = Inl (Fatal ''threadscan: failed mmap().'') \<and> b"

lemma okayI: "returns m P \<Longrightarrow> okay b m P"
  by (simp add: okay_def)

lemma okay_Inr [simp]: "okay b (Inr x) P = P x"
  by (simp add: okay_def)

lemma okay_bindE: "okay b m Q \<Longrightarrow> (\<And>x. Q x \<Longrightarrow> okay b (f x) P) \<Longrightarrow> okay b (bindE m f) P"
  by (cases m) (auto simp: okay_def)

lemma okay_mono: "okay b m P \<Longrightarrow> (\<And>x. P x \<Longrightarrow> Q x) \<Longrightarrow> okay b m Q"
  by (auto simp: okay_def intro: returns_mono)

lemma okay_returns: "\<not> b \<Longrightarrow> okay b m P \<longleftrightarrow> returns m P"
  by (simp add: okay_def)

lemma mmap_wrap_okay:
  assumes "kernel_ok k" "sz \<noteq> 0" "sz mod PAGESIZE = 0"
  shows "okay (mmap_fails k) (mmap_wrap dbg k sz s) (\<lambda>(p, s'). \<exists>st. s' = s\<lparr>os := st\<rparr> \<and> p mod PAGESIZE = 0 \<and>
    block_ok (p, sz) \<and> (\<forall>r \<in> mapped k (os s). apart r (p, sz)) \<and>
    mapped k st = insert (p, sz) (mapped k (os s)))"
proof (cases "sys_mmap k (os s) sz")
  case (Pair r st)
  show ?thesis
  proof (cases r)
    case None
    then have "mmap_fails k" using Pair by (metis mmap_fails_def fst_conv)
    then show ?thesis using Pair None by (simp add: mmap_wrap_def okay_def)
  next
    case (Some p)
    then have "p mod PAGESIZE = 0 \<and> block_ok (p, sz) \<and> (\<forall>r \<in> mapped k (os s). apart r (p, sz)) \<and>
        mapped k st = insert (p, sz) (mapped k (os s))"
      using assms Pair by (simp add: kernel_ok_def)
    then show ?thesis using Pair Some by (auto simp: mmap_wrap_def c_assert_def block_ok_def)
  qed
qed

subsection \<open>A page of nodes\<close>

definition slot :: "size_t \<Rightarrow> nat \<Rightarrow> size_t" where
  "slot p i = p + 32 * of_nat i"

lemma unat_slot: "i < 128 \<Longrightarrow> unat p + 4096 < 2 ^ 64 \<Longrightarrow> unat (slot p i) = unat p + 32 * i"
proof -
  assume i: "i < 128" and p: "unat p + 4096 < 2 ^ 64"
  have "unat (32 * of_nat i :: size_t) = 32 * i"
    using i by (simp add: unat_word_ariths unsigned_of_nat take_bit_nat_eq_self)
  then show ?thesis using i p by (simp add: slot_def unat_word_ariths)
qed

lemma slot_inj: "unat p + 4096 < 2 ^ 64 \<Longrightarrow> inj_on (slot p) {..<128}"
proof (rule inj_onI)
  fix i j
  assume p: "unat p + 4096 < 2 ^ 64" and i: "i \<in> {..<128}" and j: "j \<in> {..<128}"
    and eq: "slot p i = slot p j"
  have "unat (slot p i) = unat p + 32 * i" by (rule unat_slot) (use p i in simp_all)
  moreover have "unat (slot p j) = unat p + 32 * j" by (rule unat_slot) (use p j in simp_all)
  ultimately show "i = j" unfolding eq by linarith
qed

lemma zero_nodes_iff:
  assumes p: "unat p + 4096 < 2 ^ 64"
  shows "zero_nodes p ALLOC_BLOCKSIZE q \<noteq> None \<longleftrightarrow> (\<exists>i < 128. q = slot p i)"
proof -
  have *: "zero_nodes p ALLOC_BLOCKSIZE q \<noteq> None \<longleftrightarrow> unat (q - p) \<le> 4064 \<and> unat (q - p) mod 32 = 0"
  proof -
    have "q - p \<le> 0x1000 - 32 \<longleftrightarrow> unat (q - p) \<le> 4064" by (simp add: word_le_nat_alt)
    moreover have "(q - p) mod 32 = 0 \<longleftrightarrow> unat ((q - p) mod 32) = 0" by (simp only: unat_eq_zero)
    ultimately show ?thesis
      by (simp add: zero_nodes_def ALLOC_BLOCKSIZE_def PAGESIZE_def METADATA_SIZE_def unat_mod_distrib)
  qed
  show ?thesis
  proof
    assume "zero_nodes p ALLOC_BLOCKSIZE q \<noteq> None"
    then have u: "unat (q - p) = 32 * (unat (q - p) div 32)" "unat (q - p) div 32 < 128"
      using * by auto
    have "q = p + of_nat (unat (q - p))" by simp
    also have "\<dots> = slot p (unat (q - p) div 32)" by (subst u(1)) (simp add: slot_def)
    finally show "\<exists>i < 128. q = slot p i" using u(2) by blast
  next
    assume "\<exists>i < 128. q = slot p i"
    then obtain i where i: "i < 128" "q = slot p i" by blast
    then have "unat (q - p) = 32 * i" using unat_slot [of i 0] by (simp add: slot_def)
    then show "zero_nodes p ALLOC_BLOCKSIZE q \<noteq> None" using i(1) unfolding * by simp
  qed
qed

lemma carve_loop_correct:
  assumes "k \<le> 127" "unat p + 4096 < 2 ^ 64" "p \<noteq> 0" "flist h fl fs"
    and "\<And>i. k \<le> i \<Longrightarrow> i < 127 \<Longrightarrow> \<exists>m. h (slot p i) = Some m"
    and "\<And>i. k \<le> i \<Longrightarrow> i < 127 \<Longrightarrow> slot p i \<notin> set fs"
  shows "\<exists>h' fl'. carve_loop p (32 * of_nat k) h fl = Inr (h', fl') \<and>
    flist h' fl' (rev (map (slot p) [k..<127]) @ fs) \<and> relinked (slot p ` {k..<127}) h h'"
  using assms
proof (induction "127 - k" arbitrary: k h fl fs)
  case 0
  then have "k = 127" by simp
  then show ?case using 0
    by (subst carve_loop.simps) (simp add: ALLOC_BLOCKSIZE_def METADATA_SIZE_def PAGESIZE_def)
next
  case (Suc n)
  then have k: "k < 127" by simp
  have "unat (32 * of_nat k :: size_t) = 32 * k"
    using unat_slot [of k 0] k by (simp add: slot_def)
  then have go: "32 * of_nat k < ALLOC_BLOCKSIZE - METADATA_SIZE"
    using k by (simp add: word_less_nat_alt ALLOC_BLOCKSIZE_def METADATA_SIZE_def PAGESIZE_def)
  let ?x = "slot p k"
  obtain m where m: "h ?x = Some m" using Suc.prems(5) [of k] k by auto
  define h1 where "h1 = h(?x \<mapsto> m\<lparr>m_next := fl\<rparr>)"
  have "unat ?x \<noteq> 0" using unat_slot [of k p] k Suc.prems(2,3) unat_eq_zero [of p] by simp
  then have x0: "?x \<noteq> 0" by (metis unat_0)
  have rel1: "relinked {?x} h h1" unfolding h1_def using m by (intro relinked_upd) auto
  have fl1: "flist h1 ?x (?x # fs)"
  proof -
    have "?x \<notin> set fs" using Suc.prems(6) [of k] k by simp
    then have "flist h1 fl fs" by (intro flist_cong [OF Suc.prems(4)]) (auto simp: h1_def)
    then show ?thesis using x0 by (simp add: h1_def)
  qed
  have neq: "slot p i \<noteq> ?x" if "Suc k \<le> i" "i < 127" for i
    using that k inj_onD [OF slot_inj [OF Suc.prems(2)], of i k] by auto
  obtain h' fl' where h': "carve_loop p (32 * of_nat (Suc k)) h1 ?x = Inr (h', fl')"
    "flist h' fl' (rev (map (slot p) [Suc k..<127]) @ ?x # fs)" "relinked (slot p ` {Suc k..<127}) h1 h'"
  proof -
    have "\<exists>h' fl'. carve_loop p (32 * of_nat (Suc k)) h1 ?x = Inr (h', fl') \<and>
        flist h' fl' (rev (map (slot p) [Suc k..<127]) @ ?x # fs) \<and>
        relinked (slot p ` {Suc k..<127}) h1 h'"
    proof (rule Suc.hyps(1))
      show "\<exists>m. h1 (slot p i) = Some m" if "Suc k \<le> i" "i < 127" for i
        using Suc.prems(5) [of i] that by (simp add: h1_def)
      show "slot p i \<notin> set (?x # fs)" if "Suc k \<le> i" "i < 127" for i
        using Suc.prems(6) [of i] neq [OF that] that by simp
    qed (use Suc.hyps(2) Suc.prems(2,3) k fl1 in simp_all)
    then show ?thesis using that by blast
  qed
  have "carve_loop p (32 * of_nat k) h fl = Inr (h', fl')"
    using go m h'(1) by (subst carve_loop.simps) (simp add: slot_def h1_def METADATA_SIZE_def algebra_simps)
  moreover have "rev (map (slot p) [k..<127]) = rev (map (slot p) [Suc k..<127]) @ [?x]"
    using k by (simp add: upt_conv_Cons)
  moreover have "relinked (slot p ` {k..<127}) h h'"
    by (rule relinked_trans [OF relinked_mono [OF rel1] relinked_mono [OF h'(3)]]) (use k in auto)
  ultimately show ?case using h'(2) by auto
qed

subsection \<open>The invariant\<close>

text \<open>
  A node lies in a page that a node of the list describes as its own page. \<open>client\<close> are the blocks
  that are not such pages: what the callers of \<^verbatim>\<open>threadscan_alloc_mmap\<close> own.
\<close>

definition in_node_page :: "mheap \<Rightarrow> size_t list \<Rightarrow> size_t \<Rightarrow> bool" where
  "in_node_page h ns x \<longleftrightarrow> (\<exists>b \<in> set ns. reg h b = (b, ALLOC_BLOCKSIZE) \<and>
     unat b \<le> unat x \<and> unat x < unat b + 4096)"

definition client :: "mheap \<Rightarrow> size_t list \<Rightarrow> (size_t \<times> size_t) set" where
  "client h ns = reg h ` {n \<in> set ns. fst (reg h n) \<noteq> n}"

definition alloc_inv :: "'o kernel \<Rightarrow> 'o alloc_state \<Rightarrow> size_t list \<Rightarrow> size_t list \<Rightarrow> bool" where
  "alloc_inv k s ns fs \<longleftrightarrow>
     alloc_ring s ns \<and> flist (nodes s) (free_list s) fs \<and> distinct (ns @ fs) \<and>
     reg (nodes s) ` set ns \<subseteq> mapped k (os s) \<and>
     (\<forall>n \<in> set ns \<union> set fs. in_node_page (nodes s) ns n)"

definition alloc_abs :: "'o kernel \<Rightarrow> 'o alloc_state \<Rightarrow> (size_t \<times> size_t) set \<Rightarrow> bool" where
  "alloc_abs k s D \<longleftrightarrow> (\<exists>ns fs. alloc_inv k s ns fs \<and> D = client (nodes s) ns)"

text \<open>The state of the program when it starts: no nodes and two empty lists.\<close>

definition alloc_init :: "'o \<Rightarrow> 'o alloc_state" where
  "alloc_init st = \<lparr>nodes = Map.empty, free_list = 0, alloc_list = 0, os = st\<rparr>"

lemma alloc_abs_init: "alloc_abs k (alloc_init st) {}"
  unfolding alloc_abs_def
  by (intro exI [of _ "[]"]) (simp add: alloc_inv_def alloc_ring_def alloc_init_def blocks_ok_def client_def)

text \<open>\<open>spare k s ns fs x\<close>: the invariant, and \<open>x\<close> is a node taken off the free list.\<close>

definition spare :: "'o kernel \<Rightarrow> 'o alloc_state \<Rightarrow> size_t list \<Rightarrow> size_t list \<Rightarrow> size_t \<Rightarrow> bool" where
  "spare k s ns fs x \<longleftrightarrow> alloc_inv k s ns fs \<and> x \<noteq> 0 \<and> x \<notin> set ns \<and> x \<notin> set fs \<and>
     (\<exists>m. nodes s x = Some m) \<and> in_node_page (nodes s) ns x"

lemma alloc_ring_upd [simp]:
  "alloc_ring (s\<lparr>os := st\<rparr>) ns = alloc_ring s ns"
  "alloc_ring (s\<lparr>free_list := fl\<rparr>) ns = alloc_ring s ns"
  by (auto simp: alloc_ring_def)

lemma alloc_ring_SomeD: "alloc_ring s ns \<Longrightarrow> n \<in> set ns \<Longrightarrow> \<exists>m. nodes s n = Some m"
  by (auto simp: alloc_ring_def split: if_splits dest: ring_SomeD)

lemma in_node_page_cong:
  "(\<And>n. n \<in> set ns \<Longrightarrow> reg h' n = reg h n) \<Longrightarrow> set ns \<subseteq> set ns' \<Longrightarrow>
   in_node_page h ns x \<Longrightarrow> in_node_page h' ns' x"
  unfolding in_node_page_def by (elim bexE) (rule bexI, auto)

lemma client_cong:
  "(\<And>n. n \<in> set ns \<Longrightarrow> reg h' n = reg h n) \<Longrightarrow> client h' ns = client h ns"
  unfolding client_def by (auto simp: image_def)

lemma alloc_inv_cong:
  assumes inv: "alloc_inv k s ns fs" and same: "\<And>n. n \<in> set ns \<union> set fs \<Longrightarrow> h n = nodes s n"
  shows "alloc_inv k (s\<lparr>nodes := h\<rparr>) ns fs"
proof -
  have regs: "reg h n = reg (nodes s) n" if "n \<in> set ns" for n
    using same [of n] that by (simp add: reg_def)
  have maps: "map (reg h) ns = map (reg (nodes s)) ns" using regs by simp
  have "ring h ns" if "ring (nodes s) ns"
  proof -
    have "h n = nodes s n" if "n \<in> set (ns @ [hd ns])" for n
      using that same \<open>ring (nodes s) ns\<close> by (cases ns) (auto simp: ring_def)
    then show ?thesis using that chain_same [of "nodes s" "ns @ [hd ns]" h] by (simp add: ring_def)
  qed
  then have "alloc_ring (s\<lparr>nodes := h\<rparr>) ns"
    using inv by (auto simp: alloc_inv_def alloc_ring_def maps simp del: map_eq_conv split: if_splits)
  moreover have "flist h (free_list s) fs" using inv same by (auto simp: alloc_inv_def intro: flist_cong)
  moreover have "in_node_page h ns n" if "n \<in> set ns \<union> set fs" for n
    using inv that regs in_node_page_cong [of ns h "nodes s" ns n] unfolding alloc_inv_def by blast
  ultimately show ?thesis using inv regs by (auto simp: alloc_inv_def)
qed

text \<open>Taking the first node of a free list that is not empty.\<close>

lemma take_free_node:
  assumes inv: "alloc_inv k s ns fs" and ne: "fs \<noteq> []"
  shows "\<exists>x m. free_list s = x \<and> x \<noteq> 0 \<and> nodes s x = Some m \<and>
    spare k (s\<lparr>free_list := m_next m\<rparr>) ns (tl fs) x"
proof -
  obtain x fs' where fs: "fs = x # fs'" using ne by (cases fs) auto
  then obtain m where "free_list s = x" "x \<noteq> 0" "nodes s x = Some m" "flist (nodes s) (m_next m) fs'"
    using inv by (auto simp: alloc_inv_def)
  then show ?thesis using inv fs by (auto simp: alloc_inv_def spare_def)
qed

text \<open>Inserting a block that is apart from all mapped ones.\<close>

lemma insert_block:
  assumes inv: "alloc_inv k (s\<lparr>os := st\<rparr>) ns fs" and x: "x \<notin> set ns" "x \<notin> set fs" "x \<noteq> 0"
    and node: "nodes s x = Some mx" "block_ok (region mx)"
    and apart: "\<forall>r \<in> mapped k st. apart r (region mx)"
    and os: "mapped k (os s) = insert (region mx) (mapped k st)"
    and page: "in_node_page (nodes s) (x # ns) x"
  obtains s' us vs where "metadata_do_insert x s = Inr s'" "ns = us @ vs"
    "alloc_inv k s' (us @ x # vs) fs" "relinked (insert x (set ns)) (nodes s) (nodes s')"
    "free_list s' = free_list s" "os s' = os s"
proof -
  have ring: "alloc_ring s ns" using inv by (simp add: alloc_inv_def)
  have ap: "\<forall>n \<in> set ns. apart (reg (nodes s) n) (region mx)"
    using inv apart by (auto simp: alloc_inv_def)
  obtain h' us vs where i: "ns = us @ vs"
    "metadata_do_insert x s = Inr (s\<lparr>nodes := h', alloc_list := hd (us @ x # vs)\<rparr>)"
    "relinked (insert x (set ns)) (nodes s) h'"
    "alloc_ring (s\<lparr>nodes := h', alloc_list := hd (us @ x # vs)\<rparr>) (us @ x # vs)"
    using metadata_do_insert_correct [OF ring x(1,3) node(1,2) ap] by blast
  have same: "reg h' n = reg (nodes s) n" if "n \<in> set (x # ns)" for n
    using that relinked_reg [OF _ i(3), of n] alloc_ring_SomeD [OF ring, of n] node(1) by auto
  have regx: "reg (nodes s) x = region mx" by (simp add: reg_def node)
  have "alloc_inv k (s\<lparr>nodes := h', alloc_list := hd (us @ x # vs)\<rparr>) (us @ x # vs) fs"
    unfolding alloc_inv_def
  proof (intro conjI)
    show "flist (nodes (s\<lparr>nodes := h', alloc_list := hd (us @ x # vs)\<rparr>))
        (free_list (s\<lparr>nodes := h', alloc_list := hd (us @ x # vs)\<rparr>)) fs"
      using inv x(2) flist_relinked [OF _ i(3)] by (auto simp: alloc_inv_def)
    show "distinct ((us @ x # vs) @ fs)" using inv x by (auto simp: alloc_inv_def i(1))
    show "reg (nodes (s\<lparr>nodes := h', alloc_list := hd (us @ x # vs)\<rparr>)) ` set (us @ x # vs)
        \<subseteq> mapped k (os (s\<lparr>nodes := h', alloc_list := hd (us @ x # vs)\<rparr>))"
      using inv same regx by (auto simp: alloc_inv_def i(1) os)
    have "in_node_page h' (us @ x # vs) n" if "in_node_page (nodes s) (x # ns) n" for n
      using that same by (elim in_node_page_cong [rotated 2]) (auto simp: i(1))
    moreover have "in_node_page (nodes s) (x # ns) n" if "n \<in> set ns \<union> set fs" for n
      using that inv by (auto simp: alloc_inv_def in_node_page_def)
    ultimately show "\<forall>n \<in> set (us @ x # vs) \<union> set fs.
        in_node_page (nodes (s\<lparr>nodes := h', alloc_list := hd (us @ x # vs)\<rparr>)) (us @ x # vs) n"
      using page by (auto simp: i(1))
  qed (rule i(4))
  then show ?thesis using that i by fastforce
qed

lemma client_insert:
  "client h (us @ x # vs) = (if fst (reg h x) = x then {} else {reg h x}) \<union> client h (us @ vs)"
  by (auto simp: client_def)

subsection \<open>A fresh node\<close>

lemma slot_0 [simp]: "slot p 0 = p"
  by (simp add: slot_def)

text \<open>No node in use lies in a newly mapped page.\<close>

lemma in_use_not_slot:
  assumes inv: "alloc_inv k s ns fs" and n: "n \<in> set ns \<union> set fs"
    and ap: "\<forall>r \<in> mapped k (os s). apart r (p, ALLOC_BLOCKSIZE)"
    and p: "unat p + 4096 < 2 ^ 64" and i: "i < 128"
  shows "n \<noteq> slot p i"
proof
  assume n_slot: "n = slot p i"
  obtain b where b: "b \<in> set ns" "reg (nodes s) b = (b, ALLOC_BLOCKSIZE)" "unat b \<le> unat n"
    "unat n < unat b + 4096"
    using inv n unfolding alloc_inv_def in_node_page_def by blast
  have "(b, ALLOC_BLOCKSIZE) \<in> mapped k (os s)" using inv b(1,2) by (force simp: alloc_inv_def)
  then have "apart (b, ALLOC_BLOCKSIZE) (p, ALLOC_BLOCKSIZE)" using ap by blast
  then have "unat b + 4096 \<le> unat p \<or> unat p + 4096 \<le> unat b"
    by (simp add: apart_def before_def ALLOC_BLOCKSIZE_def PAGESIZE_def)
  moreover have "unat n = unat p + 32 * i" unfolding n_slot by (rule unat_slot [OF i p])
  ultimately show False using b(3,4) i by linarith
qed

lemma zero_nodes_outside:
  "(\<And>i. i < 128 \<Longrightarrow> n \<noteq> slot p i) \<Longrightarrow> unat p + 4096 < 2 ^ 64 \<Longrightarrow> zero_nodes p ALLOC_BLOCKSIZE n = None"
  using zero_nodes_iff [of p n] by blast

lemma zero_nodes_slot:
  "i < 128 \<Longrightarrow> unat p + 4096 < 2 ^ 64 \<Longrightarrow>
   zero_nodes p ALLOC_BLOCKSIZE (slot p i) = Some \<lparr>m_addr = 0, m_length = 0, m_next = 0, m_prev = 0\<rparr>"
  using zero_nodes_iff [of p "slot p i"] by (auto simp: zero_nodes_def split: if_splits)

text \<open>
  Carving the page \<open>p\<close>, whose first node is already in the list, into free nodes: 126 of them.
\<close>

lemma carve_page:
  assumes inv: "alloc_inv k s ns []" and p: "p \<in> set ns" "unat p + 4096 < 2 ^ 64" "p \<noteq> 0"
    "reg (nodes s) p = (p, ALLOC_BLOCKSIZE)"
    and slots: "\<And>i. 1 \<le> i \<Longrightarrow> i < 127 \<Longrightarrow> slot p i \<notin> set ns \<and> (\<exists>m. nodes s (slot p i) = Some m)"
  obtains h fl where "carve_loop p METADATA_SIZE (nodes s) (free_list s) = Inr (h, fl)"
    "alloc_inv k (s\<lparr>nodes := h, free_list := fl\<rparr>) ns (rev (map (slot p) [1..<127]))"
    "client h ns = client (nodes s) ns"
proof -
  have "\<exists>h fl. carve_loop p (32 * of_nat 1) (nodes s) (free_list s) = Inr (h, fl) \<and>
      flist h fl (rev (map (slot p) [1..<127]) @ []) \<and> relinked (slot p ` {1..<127}) (nodes s) h"
    using inv p slots by (intro carve_loop_correct) (auto simp: alloc_inv_def)
  then obtain h fl where c: "carve_loop p METADATA_SIZE (nodes s) (free_list s) = Inr (h, fl)"
    "flist h fl (rev (map (slot p) [1..<127]))" "relinked (slot p ` {1..<127}) (nodes s) h"
    by (auto simp: METADATA_SIZE_def)
  have ring: "alloc_ring s ns" using inv by (simp add: alloc_inv_def)
  have same: "reg h n = reg (nodes s) n" if "n \<in> set ns" for n
    using relinked_reg [OF _ c(3)] alloc_ring_SomeD [OF ring that] by blast
  have maps: "map (reg h) ns = map (reg (nodes s)) ns" using same by simp
  have disj: "set ns \<inter> slot p ` {1..<127} = {}" using slots by force
  have "alloc_ring (s\<lparr>nodes := h, free_list := fl\<rparr>) ns"
    using ring ring_relinked [OF _ c(3) disj] unfolding alloc_ring_def by (simp add: maps)
  moreover have "distinct (ns @ rev (map (slot p) [1..<127]))"
  proof -
    have "inj_on (slot p) {1..<127}" by (rule inj_on_subset [OF slot_inj [OF p(2)]]) auto
    then show ?thesis using inv disj by (auto simp: alloc_inv_def distinct_map)
  qed
  moreover have "in_node_page h ns (slot p i)" if "i < 127" for i
    unfolding in_node_page_def
    using p same [OF p(1)] unat_slot [of i p] that by (intro bexI [of _ p]) auto
  moreover have "in_node_page h ns n" if "n \<in> set ns" for n
    using inv that same in_node_page_cong [of ns h "nodes s" ns n] by (auto simp: alloc_inv_def)
  ultimately have "alloc_inv k (s\<lparr>nodes := h, free_list := fl\<rparr>) ns (rev (map (slot p) [1..<127]))"
    using inv c(2) same by (auto simp: alloc_inv_def)
  then show ?thesis using that c(1) client_cong [of ns h "nodes s"] same by blast
qed

lemma new_page:
  assumes inv: "alloc_inv k s ns []" and ker: "kernel_ok k"
  shows "okay (mmap_fails k)
    (bindE (mmap_wrap dbg k ALLOC_BLOCKSIZE s) (\<lambda>(p, s).
     bindE (upd_node (nodes s ++ zero_nodes p ALLOC_BLOCKSIZE) p
             (\<lambda>m. m\<lparr>m_addr := p, m_length := ALLOC_BLOCKSIZE\<rparr>)) (\<lambda>h.
     bindE (metadata_do_insert p (s\<lparr>nodes := h\<rparr>)) (\<lambda>s.
     bindE (carve_loop p METADATA_SIZE (nodes s) (free_list s)) (\<lambda>(h, fl).
     Inr (s\<lparr>nodes := h, free_list := fl\<rparr>))))))
    (\<lambda>s'. \<exists>ns' fs'. alloc_inv k s' ns' fs' \<and> fs' \<noteq> [] \<and> client (nodes s') ns' = client (nodes s) ns)"
    (is "okay (mmap_fails k) (bindE _ ?rest) ?P")
proof (rule okay_bindE [OF mmap_wrap_okay [OF ker]])
  show "ALLOC_BLOCKSIZE \<noteq> 0" "ALLOC_BLOCKSIZE mod PAGESIZE = 0"
    by (simp_all add: ALLOC_BLOCKSIZE_def PAGESIZE_def)
next
  fix y :: "size_t \<times> 'a alloc_state"
  obtain p s1 where y: "y = (p, s1)" by (cases y)
  assume "case y of (p, s') \<Rightarrow> \<exists>st. s' = s\<lparr>os := st\<rparr> \<and> p mod PAGESIZE = 0 \<and>
      block_ok (p, ALLOC_BLOCKSIZE) \<and> (\<forall>r \<in> mapped k (os s). apart r (p, ALLOC_BLOCKSIZE)) \<and>
      mapped k st = insert (p, ALLOC_BLOCKSIZE) (mapped k (os s))"
  then obtain st where s1: "s1 = s\<lparr>os := st\<rparr>" and ok: "block_ok (p, ALLOC_BLOCKSIZE)"
    and ap: "\<forall>r \<in> mapped k (os s). apart r (p, ALLOC_BLOCKSIZE)"
    and mp: "mapped k st = insert (p, ALLOC_BLOCKSIZE) (mapped k (os s))"
    by (auto simp: y)
  have p: "unat p + 4096 < 2 ^ 64" "p \<noteq> 0"
    using ok by (simp_all add: block_ok_def ALLOC_BLOCKSIZE_def PAGESIZE_def)
  have ring: "alloc_ring s ns" using inv by (simp add: alloc_inv_def)
  have old: "zero_nodes p ALLOC_BLOCKSIZE n = None \<and> n \<noteq> p" if "n \<in> set ns" for n
  proof -
    have *: "n \<noteq> slot p i" if "i < 128" for i
      using in_use_not_slot [OF inv _ ap p(1) that] \<open>n \<in> set ns\<close> by simp
    then show ?thesis using zero_nodes_outside [OF _ p(1)] * [of 0] by auto
  qed
  define mx where "mx = \<lparr>m_addr = p, m_length = ALLOC_BLOCKSIZE, m_next = 0, m_prev = 0\<rparr>"
  define h1 where "h1 = (nodes s ++ zero_nodes p ALLOC_BLOCKSIZE)(p \<mapsto> mx)"
  have upd: "upd_node (nodes s ++ zero_nodes p ALLOC_BLOCKSIZE) p
      (\<lambda>m. m\<lparr>m_addr := p, m_length := ALLOC_BLOCKSIZE\<rparr>) = Inr h1"
    using zero_nodes_slot [of 0 p] p by (simp add: map_add_def h1_def mx_def)
  have h1_old: "h1 n = nodes s n" if "n \<in> set ns" for n
    using old [OF that] by (simp add: h1_def map_add_def)
  have rel: "alloc_inv k (s\<lparr>nodes := h1\<rparr>) ns []"
    using alloc_inv_cong [OF inv, of h1] h1_old by simp
  define s2 where "s2 = s\<lparr>os := st, nodes := h1\<rparr>"
  have pn: "p \<notin> set ns" using old by blast
  have h1p: "nodes s2 p = Some mx" "region mx = (p, ALLOC_BLOCKSIZE)"
    by (simp_all add: s2_def h1_def region_def mx_def)
  obtain s3 us vs where i: "metadata_do_insert p s2 = Inr s3" "ns = us @ vs"
    "alloc_inv k s3 (us @ p # vs) []" "relinked (insert p (set ns)) (nodes s2) (nodes s3)"
    "free_list s3 = free_list s2" "os s3 = os s2"
    using insert_block [of k "os s" s2 ns "[]" p mx] rel pn p h1p ok ap mp
    by (auto simp: s2_def in_node_page_def reg_def)
  have reg3: "reg (nodes s3) n = reg (nodes s2) n" if "n \<in> set (us @ p # vs)" for n
  proof -
    have "\<exists>m. nodes s2 n = Some m"
      using that h1p(1) h1_old alloc_ring_SomeD [OF ring] by (auto simp: s2_def i(2))
    then show ?thesis using relinked_reg [OF _ i(4)] by blast
  qed
  have "reg (nodes s3) p = (p, ALLOC_BLOCKSIZE)" using reg3 [of p] h1p by (simp add: reg_def)
  moreover have "slot p j \<notin> set (us @ p # vs) \<and> (\<exists>m. nodes s3 (slot p j) = Some m)"
    if j: "1 \<le> j" "j < 127" for j
  proof -
    have "slot p j \<noteq> p"
      using unat_slot [of j p] j p(1) by auto
    moreover have "slot p j \<notin> set ns" using in_use_not_slot [OF inv _ ap p(1), of "slot p j" j] j by auto
    ultimately show ?thesis
      using i(4) zero_nodes_slot [of j p] j p(1)
      by (auto simp: relinked_def s2_def h1_def map_add_def i(2))
  qed
  ultimately obtain h fl where c: "carve_loop p METADATA_SIZE (nodes s3) (free_list s3) = Inr (h, fl)"
    "alloc_inv k (s3\<lparr>nodes := h, free_list := fl\<rparr>) (us @ p # vs) (rev (map (slot p) [1..<127]))"
    "client h (us @ p # vs) = client (nodes s3) (us @ p # vs)"
    using carve_page [OF i(3), of p] p by auto
  have "client (nodes s3) (us @ p # vs) = client h1 (us @ p # vs)"
    using reg3 by (intro client_cong) (simp add: s2_def)
  also have "\<dots> = client (nodes s) ns"
    using h1_old client_cong [of ns h1 "nodes s"]
    by (simp add: client_insert i(2) reg_def h1_def region_def mx_def)
  finally have "client h (us @ p # vs) = client (nodes s) ns" using c(3) by simp
  moreover have "?rest y = Inr (s3\<lparr>nodes := h, free_list := fl\<rparr>)"
    using upd i(1) c(1) by (simp add: y s1 s2_def)
  moreover have "rev (map (slot p) [1..<127]) \<noteq> []" by simp
  ultimately show "okay (mmap_fails k) (?rest y) ?P"
    using c(2) by (auto intro!: exI simp del: rev_map)
qed

lemma metadata_new_okay:
  assumes inv: "alloc_inv k s ns fs" and ker: "kernel_ok k"
  shows "okay (mmap_fails k) (metadata_new dbg k s)
    (\<lambda>(x, s'). \<exists>ns' fs'. spare k s' ns' fs' x \<and> client (nodes s') ns' = client (nodes s) ns)"
  unfolding metadata_new_def
proof (rule okay_bindE [where Q = "\<lambda>s'. \<exists>ns' fs'. alloc_inv k s' ns' fs' \<and> fs' \<noteq> [] \<and>
      client (nodes s') ns' = client (nodes s) ns"], goal_cases)
  case 1
  show ?case
  proof (cases "free_list s = 0")
    case True
    then have "fs = []" using inv by (cases fs) (auto simp: alloc_inv_def)
    with inv have "alloc_inv k s ns []" by simp
    from new_page [OF this ker, of dbg] show ?thesis unfolding if_P [OF True] .
  next
    case False
    then have "fs \<noteq> []" using inv by (auto simp: alloc_inv_def)
    then show ?thesis using False inv by auto
  qed
next
  case (2 s')
  then obtain ns' fs' where i: "alloc_inv k s' ns' fs'" "fs' \<noteq> []"
    "client (nodes s') ns' = client (nodes s) ns" by blast
  obtain x m where x: "free_list s' = x" "x \<noteq> 0" "nodes s' x = Some m"
    "spare k (s'\<lparr>free_list := m_next m\<rparr>) ns' (tl fs') x"
    using take_free_node [OF i(1,2)] by blast
  have "client (nodes (s'\<lparr>free_list := m_next m\<rparr>)) ns' = client (nodes s) ns" using i(3) by simp
  then show ?case using x unfolding Let_def by (auto simp: c_assert_def)
qed

subsection \<open>The interface\<close>

lemma spare_not_block:
  assumes sp: "spare k s ns fs x" and ap: "\<forall>r \<in> mapped k (os s). apart r (p, sz)" and ok: "block_ok (p, sz)"
  shows "p \<noteq> x"
proof
  assume "p = x"
  have inv: "alloc_inv k s ns fs" using sp by (simp add: spare_def)
  obtain b where b: "b \<in> set ns" "reg (nodes s) b = (b, ALLOC_BLOCKSIZE)" "unat b \<le> unat x"
    "unat x < unat b + 4096"
    using sp by (auto simp: spare_def in_node_page_def)
  then have "apart (b, ALLOC_BLOCKSIZE) (p, sz)" using inv ap by (force simp: alloc_inv_def)
  then show False
    using b ok \<open>p = x\<close> unat_eq_zero [of sz]
    by (auto simp: apart_def before_def ALLOC_BLOCKSIZE_def PAGESIZE_def block_ok_def)
qed

lemma client_mapped: "alloc_inv k s ns fs \<Longrightarrow> client (nodes s) ns \<subseteq> mapped k (os s)"
  by (auto simp: alloc_inv_def client_def)

text \<open>Putting a newly mapped block into the list with a spare node.\<close>

lemma register_block:
  assumes sp: "spare k s ns fs x" and mx: "region mx = (p, sz)"
    and ok: "block_ok (p, sz)" and ap: "\<forall>r \<in> mapped k (os s). apart r (p, sz)"
    and mp: "mapped k st = insert (p, sz) (mapped k (os s))"
  obtains s' m' where "metadata_insert x (s\<lparr>os := st, nodes := (nodes s)(x \<mapsto> mx)\<rparr>) = Inr s'"
    "nodes s' x = Some m'" "m_addr m' = p" "alloc_abs k s' (insert (p, sz) (client (nodes s) ns))"
proof -
  define h where "h = (nodes s)(x \<mapsto> mx)"
  define s2 where "s2 = s\<lparr>os := st, nodes := h\<rparr>"
  have x: "x \<noteq> 0" "x \<notin> set ns" "x \<notin> set fs" "in_node_page (nodes s) ns x"
    and inv: "alloc_inv k s ns fs" and ring: "alloc_ring s ns"
    using sp by (auto simp: spare_def alloc_inv_def)
  have h_old: "h n = nodes s n" if "n \<in> set ns \<union> set fs" for n using x that by (auto simp: h_def)
  have inv2: "alloc_inv k (s2\<lparr>os := os s\<rparr>) ns fs" using alloc_inv_cong [OF inv h_old] by (simp add: s2_def)
  have reg_old: "reg h n = reg (nodes s) n" if "n \<in> set ns" for n using h_old that by (simp add: reg_def)
  have "in_node_page (nodes s2) (x # ns) x"
    using x(4) reg_old in_node_page_cong [of ns h "nodes s" "x # ns" x] by (auto simp: s2_def)
  moreover have "nodes s2 x = Some mx" "block_ok (region mx)" "\<forall>r \<in> mapped k (os s). apart r (region mx)"
    "mapped k (os s2) = insert (region mx) (mapped k (os s))"
    using ok ap mp mx by (simp_all add: s2_def h_def)
  ultimately obtain s' us vs where i: "metadata_do_insert x s2 = Inr s'" "ns = us @ vs"
    "alloc_inv k s' (us @ x # vs) fs" "relinked (insert x (set ns)) (nodes s2) (nodes s')"
    using insert_block [OF inv2 x(2,3,1)] by metis
  have "reg (nodes s') n = reg h n" if "n \<in> set (us @ x # vs)" for n
  proof -
    have "\<exists>m. h n = Some m" using that alloc_ring_SomeD [OF ring, of n] by (auto simp: h_def i(2))
    then show ?thesis using relinked_reg [OF _ i(4), of n] by (auto simp: s2_def)
  qed
  then have "client (nodes s') (us @ x # vs) = client h (us @ x # vs)" by (intro client_cong)
  also have "\<dots> = insert (p, sz) (client h ns)"
    using client_insert [of h us x vs] mx spare_not_block [OF sp ap ok] by (simp add: i(2) reg_def h_def)
  also have "client h ns = client (nodes s) ns" using client_cong [of ns h "nodes s"] reg_old by simp
  finally have "alloc_abs k s' (insert (p, sz) (client (nodes s) ns))" using i(3) by (auto simp: alloc_abs_def)
  moreover obtain m' where "nodes s' x = Some m'" "region m' = region mx"
    using relinked_SomeD [OF i(4), of x mx] by (auto simp: s2_def h_def)
  ultimately show ?thesis
    using that i(1) mx by (auto simp: metadata_insert_def s2_def h_def region_def)
qed

lemma threadscan_alloc_mmap_okay:
  assumes "alloc_abs k s D" and ker: "kernel_ok k" and sz: "sz \<noteq> 0" "sz mod PAGESIZE = 0"
  shows "okay (mmap_fails k) (threadscan_alloc_mmap dbg k sz s)
    (\<lambda>(p, s'). alloc_abs k s' (insert (p, sz) D) \<and> p mod PAGESIZE = 0 \<and> block_ok (p, sz) \<and>
       (\<forall>r \<in> D. apart r (p, sz)))"
    (is "okay (mmap_fails k) _ ?P")
proof -
  obtain ns fs where inv: "alloc_inv k s ns fs" "D = client (nodes s) ns"
    using assms(1) by (auto simp: alloc_abs_def)
  show ?thesis unfolding threadscan_alloc_mmap_def
  proof (rule okay_bindE [OF metadata_new_okay [OF inv(1) ker]], clarify)
    fix x s1 ns1 fs1
    assume sp: "spare k s1 ns1 fs1 x" and cl: "client (nodes s1) ns1 = client (nodes s) ns"
    then obtain m where m: "nodes s1 x = Some m" "x \<noteq> 0" by (auto simp: spare_def)
    define h1 where "h1 = (nodes s1)(x \<mapsto> m\<lparr>m_length := sz\<rparr>)"
    have "okay (mmap_fails k) (bindE (mmap_wrap dbg k sz (s1\<lparr>nodes := h1\<rparr>)) (\<lambda>(ptr, s).
        bindE (upd_node (nodes s) x (\<lambda>m. m\<lparr>m_addr := ptr\<rparr>)) (\<lambda>h.
        bindE (c_assert dbg (ptr \<noteq> 0)) (\<lambda>_.
        bindE (metadata_insert x (s\<lparr>nodes := h\<rparr>)) (\<lambda>s.
        bindE (node_at (nodes s) x) (\<lambda>m.
        Inr (m_addr m, s))))))) ?P"
    proof (rule okay_bindE [OF mmap_wrap_okay [OF ker sz]], clarify del: mod_0_imp_dvd, goal_cases)
      case (1 p s' st)
      note al = 1(1) and ok = 1(2) and ap = 1(3) and mp = 1(4)
      have "region (m\<lparr>m_length := sz, m_addr := p\<rparr>) = (p, sz)" by (simp add: region_def)
      then obtain s' m' where r:
        "metadata_insert x (s1\<lparr>os := st, nodes := (nodes s1)(x \<mapsto> m\<lparr>m_length := sz, m_addr := p\<rparr>)\<rparr>) = Inr s'"
        "nodes s' x = Some m'" "m_addr m' = p" "alloc_abs k s' (insert (p, sz) D)"
        using register_block [OF sp _ ok, of _ st] ap mp cl inv(2) by auto
      moreover have "apart r (p, sz)" if "r \<in> D" for r
        using that cl inv(2) sp ap client_mapped [of k s1 ns1 fs1] by (auto simp: spare_def)
      ultimately show ?case
        using al ok by (simp add: h1_def c_assert_def block_ok_def)
    qed
    then show "okay (mmap_fails k) (bindE (c_assert dbg (sz mod PAGESIZE = 0)) (\<lambda>_.
        bindE (c_assert dbg (x \<noteq> 0)) (\<lambda>_.
        bindE (upd_node (nodes s1) x (\<lambda>m. m\<lparr>m_length := sz\<rparr>)) (\<lambda>h.
        bindE (mmap_wrap dbg k sz (s1\<lparr>nodes := h\<rparr>)) (\<lambda>(ptr, s).
        bindE (upd_node (nodes s) x (\<lambda>m. m\<lparr>m_addr := ptr\<rparr>)) (\<lambda>h.
        bindE (c_assert dbg (ptr \<noteq> 0)) (\<lambda>_.
        bindE (metadata_insert x (s\<lparr>nodes := h\<rparr>)) (\<lambda>s.
        bindE (node_at (nodes s) x) (\<lambda>m.
        Inr (m_addr m, s)))))))))) ?P"
      using m sz(2) by (simp add: c_assert_def h1_def)
  qed
qed

lemma outside_block:
  "unat q < unat p \<or> unat p + unat sz \<le> unat q \<Longrightarrow> block_ok (p, sz) \<Longrightarrow> sz \<le> q - p"
  using unat_less_2p64 [of q]
  by (auto simp: word_le_nat_alt block_ok_def unat_sub_if')

text \<open>Two blocks of the list are apart.\<close>

lemma blocks_apart:
  assumes "blocks_ok (map f ns)" "a \<in> set ns" "b \<in> set ns" "a \<noteq> b"
  shows "apart (f a) (f b)"
proof -
  obtain i j where i: "i < length ns" "a = ns ! i" and j: "j < length ns" "b = ns ! j"
    using assms(2,3) by (metis in_set_conv_nth)
  then have "i \<noteq> j" using assms(4) by auto
  then consider "i < j" | "j < i" by linarith
  then show ?thesis
    using assms(1) i j by cases (auto simp: blocks_ok_def apart_def sorted_wrt_iff_nth_less)
qed

text \<open>A node in use is not in a client's block.\<close>

lemma node_outside_client:
  assumes inv: "alloc_inv k s ns fs" and c: "c \<in> set ns" "reg (nodes s) c = (p, sz)" "p \<noteq> c"
    and n: "n \<in> set ns \<union> set fs"
  shows "sz \<le> n - p"
proof -
  obtain b where b: "b \<in> set ns" "reg (nodes s) b = (b, ALLOC_BLOCKSIZE)" "unat b \<le> unat n"
    "unat n < unat b + 4096"
    using inv n unfolding alloc_inv_def in_node_page_def by blast
  have bl: "blocks_ok (map (reg (nodes s)) ns)" using inv by (auto simp: alloc_inv_def alloc_ring_def)
  have ok: "block_ok (p, sz)" using bl c(1,2) by (force simp: blocks_ok_def)
  have "b \<noteq> c" using b(2) c(2,3) by auto
  then have "apart (b, ALLOC_BLOCKSIZE) (p, sz)" using blocks_apart [OF bl b(1) c(1)] b(2) c(2) by simp
  then show ?thesis
    using b(3,4) outside_block [OF _ ok, of n]
    by (auto simp: apart_def before_def ALLOC_BLOCKSIZE_def PAGESIZE_def)
qed

lemma remove_block:
  assumes inv: "alloc_inv k s ns fs" and c: "c \<in> set ns" "reg (nodes s) c = (p, sz)" "p \<noteq> c"
  obtains s' ns' m where "metadata_remove dbg p s = Inr (c, s')" "alloc_inv k s' ns' fs"
    "set ns' = set ns - {c}" "nodes s' c = Some m" "region m = (p, sz)" "os s' = os s"
    "client (nodes s') ns' = client (nodes s) ns - {(p, sz)}" "c \<notin> set fs" "c \<noteq> 0"
    "in_node_page (nodes s') ns' c" "(p, sz) \<notin> reg (nodes s') ` set ns'"
proof -
  have ring: "alloc_ring s ns" and bl: "blocks_ok (map (reg (nodes s)) ns)"
    using inv by (auto simp: alloc_inv_def alloc_ring_def)
  obtain mc where mc: "nodes s c = Some mc" using alloc_ring_SomeD [OF ring c(1)] by blast
  have rc: "region mc = (p, sz)" using c(2) by (simp add: reg_def mc)
  obtain us vs where ns: "ns = us @ c # vs" using c(1) by (meson split_list)
  have page: "\<exists>b \<in> set ns - {c}. reg (nodes s) b = (b, ALLOC_BLOCKSIZE) \<and>
      unat b \<le> unat n \<and> unat n < unat b + 4096" if "n \<in> set ns \<union> set fs" for n
    using inv that c(2,3) unfolding alloc_inv_def in_node_page_def by fastforce
  have more: "us @ vs \<noteq> []" using page [of c] by (auto simp: ns)
  obtain h where r: "metadata_remove dbg p s = Inr (c, s\<lparr>nodes := h, alloc_list := hd (us @ vs)\<rparr>)"
    "relinked (set ns) (nodes s) h" "alloc_ring (s\<lparr>nodes := h, alloc_list := hd (us @ vs)\<rparr>) (us @ vs)"
    using metadata_remove_correct [OF ring ns mc more, of dbg] rc by (auto simp: region_def)
  have d: "distinct (ns @ fs)" using inv by (simp add: alloc_inv_def)
  then have set': "set (us @ vs) = set ns - {c}" by (auto simp: ns)
  have same: "reg h n = reg (nodes s) n" if "n \<in> set ns" for n
    using relinked_reg [OF _ r(2)] alloc_ring_SomeD [OF ring that] by blast
  have page': "in_node_page h (us @ vs) n" if "n \<in> set ns \<union> set fs" for n
    using page [OF that] same unfolding in_node_page_def set' by force
  moreover have "flist h (free_list s) fs"
    using inv by (intro flist_relinked [OF _ r(2)]) (auto simp: alloc_inv_def)
  ultimately have "alloc_inv k (s\<lparr>nodes := h, alloc_list := hd (us @ vs)\<rparr>) (us @ vs) fs"
    using inv r(3) same by (auto simp: alloc_inv_def ns)
  moreover have other: "reg (nodes s) n \<noteq> (p, sz)" if "n \<in> set ns - {c}" for n
  proof
    assume eq: "reg (nodes s) n = (p, sz)"
    have "apart (p, sz) (p, sz)" using blocks_apart [OF bl _ c(1), of n] that c(2) eq by simp
    moreover have "block_ok (p, sz)" using bl c(1,2) by (force simp: blocks_ok_def)
    ultimately show False using before_antisym [of "(p, sz)" "(p, sz)"] by (simp add: apart_def)
  qed
  then have "(p, sz) \<notin> reg h ` set (us @ vs)" using same unfolding set' by force
  moreover have "client h (us @ vs) = client (nodes s) ns - {(p, sz)}"
  proof -
    have "{n \<in> set ns - {c}. fst (reg (nodes s) n) \<noteq> n} =
        {n \<in> set ns. fst (reg (nodes s) n) \<noteq> n \<and> reg (nodes s) n \<noteq> (p, sz)}"
      using c(2) other by (auto simp del: fst_conv)
    then have "reg (nodes s) ` {n \<in> set ns - {c}. fst (reg (nodes s) n) \<noteq> n} = client (nodes s) ns - {(p, sz)}"
      by (simp only: client_def image_minus_one)
    moreover have "client h (us @ vs) = client (nodes s) (us @ vs)" using same by (intro client_cong) (simp add: ns)
    ultimately show ?thesis unfolding client_def set' by simp
  qed
  moreover obtain m where "h c = Some m" "region m = region mc" using relinked_SomeD [OF r(2) mc] by blast
  moreover have "c \<notin> set fs" "c \<noteq> 0" using d c(1) ring by (auto simp: alloc_ring_def)
  ultimately show ?thesis
    using r(1) set' rc page' [of c] c(1) that [of "s\<lparr>nodes := h, alloc_list := hd (us @ vs)\<rparr>" "us @ vs" m]
    by simp
qed

lemma free_node:
  assumes inv: "alloc_inv k s ns fs" and c: "c \<notin> set ns" "c \<notin> set fs" "c \<noteq> 0" "nodes s c = Some m"
    "in_node_page (nodes s) ns c"
  obtains s' where "metadata_free c s = Inr s'" "alloc_inv k s' ns (c # fs)"
    "client (nodes s') ns = client (nodes s) ns"
proof -
  define h where "h = (nodes s)(c \<mapsto> m\<lparr>m_next := free_list s\<rparr>)"
  have "h n = nodes s n" if "n \<in> set ns \<union> set fs" for n using c that by (auto simp: h_def)
  then have i: "alloc_inv k (s\<lparr>nodes := h\<rparr>) ns fs" and regs: "\<And>n. n \<in> set ns \<Longrightarrow> reg h n = reg (nodes s) n"
    using alloc_inv_cong [OF inv] by (simp_all add: reg_def)
  have "in_node_page h ns c" using c(5) regs in_node_page_cong [of ns h "nodes s" ns c] by simp
  then have "alloc_inv k (s\<lparr>nodes := h, free_list := c\<rparr>) ns (c # fs)"
    using i c unfolding alloc_inv_def by (auto simp: h_def)
  then show ?thesis
    using that client_cong [of ns h "nodes s"] regs c(4) by (auto simp: metadata_free_def h_def)
qed

lemma threadscan_alloc_munmap_returns:
  assumes "alloc_abs k s D" and ker: "kernel_ok k" and p: "(p, sz) \<in> D"
  shows "returns (threadscan_alloc_munmap dbg k p s) (\<lambda>s'. alloc_abs k s' (D - {(p, sz)}))"
proof -
  obtain ns fs where inv: "alloc_inv k s ns fs" and D: "D = client (nodes s) ns"
    using assms(1) by (auto simp: alloc_abs_def)
  obtain c where c: "c \<in> set ns" "reg (nodes s) c = (p, sz)" "p \<noteq> c"
  proof -
    obtain c where "c \<in> set ns" "fst (reg (nodes s) c) \<noteq> c" "(p, sz) = reg (nodes s) c"
      using p by (auto simp: D client_def)
    then show ?thesis using that [of c] by (metis fst_conv)
  qed
  have p0: "p \<noteq> 0"
    using inv c by (force simp: alloc_inv_def alloc_ring_def blocks_ok_def block_ok_def)
  obtain s1 ns1 m where r: "metadata_remove dbg p s = Inr (c, s1)" "alloc_inv k s1 ns1 fs"
    "set ns1 = set ns - {c}" "nodes s1 c = Some m" "region m = (p, sz)" "os s1 = os s"
    "client (nodes s1) ns1 = D - {(p, sz)}" "c \<notin> set fs" "c \<noteq> 0" "in_node_page (nodes s1) ns1 c"
    "(p, sz) \<notin> reg (nodes s1) ` set ns1"
    using remove_block [OF inv c, of dbg] by (auto simp: D)
  obtain st where st: "sys_munmap k (os s) p sz = (0, st)" "mapped k st = mapped k (os s) - {(p, sz)}"
  proof -
    have "(p, sz) \<in> mapped k (os s)" using client_mapped [OF inv] p by (auto simp: D)
    then have "\<exists>st'. sys_munmap k (os s) p sz = (0, st') \<and> mapped k st' = mapped k (os s) - {(p, sz)}"
      using ker by (simp add: kernel_ok_def)
    then show ?thesis using that by (elim exE conjE)
  qed
  define h where "h = nodes s1 |` {q. q - p \<ge> sz}"
  have keep: "h n = nodes s1 n" if "n \<in> set ns \<union> set fs" for n
    using node_outside_client [OF inv c that] by (simp add: h_def)
  have regs: "reg h n = reg (nodes s1) n" if "n \<in> set ns1" for n
    using keep [of n] that r(3) by (simp add: reg_def)
  define s2 where "s2 = s1\<lparr>os := st, nodes := h\<rparr>"
  have unm: "munmap_wrap k (m_addr m) (m_length m) s1 = (0, s2)"
    using st r(5,6) by (simp add: munmap_wrap_def region_def s2_def h_def)
  have "alloc_inv k (s1\<lparr>nodes := h\<rparr>) ns1 fs" by (rule alloc_inv_cong [OF r(2)], rule keep) (use r(3) in auto)
  then have inv2: "alloc_inv k s2 ns1 fs"
    using r(6,11) st(2) regs by (auto simp: alloc_inv_def s2_def alloc_ring_def split: if_splits)
  have "in_node_page (nodes s2) ns1 c"
    using r(10) regs in_node_page_cong [of ns1 h "nodes s1" ns1 c] by (simp add: s2_def)
  moreover have "nodes s2 c = Some m" using keep [of c] c(1) r(4) by (simp add: s2_def)
  ultimately obtain s3 where "metadata_free c s2 = Inr s3" "alloc_inv k s3 ns1 (c # fs)"
    "client (nodes s3) ns1 = client (nodes s2) ns1"
    using free_node [OF inv2, of c m] r(3,8,9) by auto
  moreover have "client (nodes s2) ns1 = D - {(p, sz)}"
    using client_cong [of ns1 h "nodes s1"] regs r(7) by (simp add: s2_def)
  ultimately show ?thesis
    using r(1,4,9) unm p0 by (auto simp: threadscan_alloc_munmap_def c_assert_def alloc_abs_def)
qed

lemma alloc_abs_apart:
  assumes "alloc_abs k s D" "r \<in> D" "r' \<in> D" "r \<noteq> r'"
  shows "apart r r'"
proof -
  obtain ns fs where inv: "alloc_inv k s ns fs" and D: "D = client (nodes s) ns"
    using assms(1) by (auto simp: alloc_abs_def)
  have bl: "blocks_ok (map (reg (nodes s)) ns)" using inv by (auto simp: alloc_inv_def alloc_ring_def)
  obtain a b where "a \<in> set ns" "b \<in> set ns" "r = reg (nodes s) a" "r' = reg (nodes s) b"
    using assms(2,3) by (auto simp: D client_def)
  then show ?thesis using blocks_apart [OF bl, of a b] assms(4) by auto
qed

subsection \<open>What callers rely on\<close>

text \<open>
  A page allocator, seen by its callers: the blocks they own are pairwise apart; \<open>alloc\<close> adds a block
  apart from all of them or ends the process when the system has no memory (possible if \<open>oom\<close>);
  \<open>dealloc\<close> takes back exactly the block that starts at the given address.
\<close>

locale page_allocator =
  fixes owns :: "'s \<Rightarrow> (size_t \<times> size_t) set \<Rightarrow> bool"
    and alloc :: "size_t \<Rightarrow> 's \<Rightarrow> (size_t \<times> 's) res"
    and dealloc :: "size_t \<Rightarrow> 's \<Rightarrow> 's res"
    and oom :: bool
  assumes owns_apart: "owns s D \<Longrightarrow> r \<in> D \<Longrightarrow> r' \<in> D \<Longrightarrow> r \<noteq> r' \<Longrightarrow> apart r r'"
    and alloc_okay: "owns s D \<Longrightarrow> sz \<noteq> 0 \<Longrightarrow> sz mod PAGESIZE = 0 \<Longrightarrow>
      okay oom (alloc sz s) (\<lambda>(p, s'). owns s' (insert (p, sz) D) \<and> p mod PAGESIZE = 0 \<and>
        block_ok (p, sz) \<and> (\<forall>r \<in> D. apart r (p, sz)))"
    and dealloc_returns: "owns s D \<Longrightarrow> (p, sz) \<in> D \<Longrightarrow>
      returns (dealloc p s) (\<lambda>s'. owns s' (D - {(p, sz)}))"
begin

lemma deallocE:
  assumes "owns s D" and "(p, sz) \<in> D"
  obtains s' where "dealloc p s = Inr s'" "owns s' (D - {(p, sz)})"
  using dealloc_returns [OF assms] by (rule returnsE)

text \<open>A block that is allocated and given back leaves what the caller owned.\<close>

lemma alloc_dealloc:
  assumes "owns s D" and "sz \<noteq> 0" and "sz mod PAGESIZE = 0"
  shows "okay oom (bindE (alloc sz s) (\<lambda>(p, s'). dealloc p s')) (\<lambda>s'. owns s' D)"
proof (rule okay_bindE [OF alloc_okay [OF assms]], clarify del: mod_0_imp_dvd)
  fix p s'
  assume o: "owns s' (insert (p, sz) D)" and ok: "block_ok (p, sz)" and ap: "\<forall>r \<in> D. apart r (p, sz)"
  have "(p, sz) \<notin> D" using ap ok before_antisym [of "(p, sz)" "(p, sz)"] by (auto simp: apart_def)
  then show "okay oom (dealloc p s') (\<lambda>s'. owns s' D)"
    using dealloc_returns [OF o, of p sz] by (auto intro: okayI)
qed

text \<open>Two blocks in a row do not overlap each other or what was owned before.\<close>

lemma alloc_two:
  assumes "owns s D" and "sz \<noteq> 0" "sz mod PAGESIZE = 0" and "sz' \<noteq> 0" "sz' mod PAGESIZE = 0"
  shows "okay oom (bindE (alloc sz s) (\<lambda>(p, s). bindE (alloc sz' s) (\<lambda>(p', s). Inr (p, p', s))))
    (\<lambda>(p, p', s'). owns s' (insert (p', sz') (insert (p, sz) D)) \<and>
       p mod PAGESIZE = 0 \<and> p' mod PAGESIZE = 0 \<and> block_ok (p, sz) \<and> block_ok (p', sz') \<and>
       apart (p, sz) (p', sz') \<and> (\<forall>r \<in> D. apart r (p, sz) \<and> apart r (p', sz')))"
proof (rule okay_bindE [OF alloc_okay [OF assms(1,2,3)]], clarify del: mod_0_imp_dvd)
  fix p s'
  assume o: "owns s' (insert (p, sz) D)" and 1: "p mod PAGESIZE = 0" "block_ok (p, sz)"
    and ap: "\<forall>r \<in> D. apart r (p, sz)"
  show "okay oom (bindE (alloc sz' s') (\<lambda>(p', s). Inr (p, p', s)))
    (\<lambda>(p, p', s'). owns s' (insert (p', sz') (insert (p, sz) D)) \<and>
       p mod PAGESIZE = 0 \<and> p' mod PAGESIZE = 0 \<and> block_ok (p, sz) \<and> block_ok (p', sz') \<and>
       apart (p, sz) (p', sz') \<and> (\<forall>r \<in> D. apart r (p, sz) \<and> apart r (p', sz')))"
    by (rule okay_bindE [OF alloc_okay [OF o assms(4,5)]]) (use 1 ap in auto)
qed

end

definition alloc_ready :: "'o kernel \<Rightarrow> 'o alloc_state \<Rightarrow> (size_t \<times> size_t) set \<Rightarrow> bool" where
  "alloc_ready k s D \<longleftrightarrow> kernel_ok k \<and> alloc_abs k s D"

interpretation pages: page_allocator "alloc_ready k" "threadscan_alloc_mmap dbg k"
    "threadscan_alloc_munmap dbg k" "mmap_fails k" for k dbg
proof (unfold_locales, goal_cases)
  case 1
  then show ?case by (auto simp: alloc_ready_def intro: alloc_abs_apart)
next
  case (2 s D sz)
  then show ?case
    using threadscan_alloc_mmap_okay [of k s D sz dbg] by (auto simp: alloc_ready_def elim!: okay_mono)
next
  case (3 s D p sz)
  then show ?case
    using threadscan_alloc_munmap_returns [of k s D p sz dbg]
    by (auto simp: alloc_ready_def elim!: returns_mono)
qed

subsection \<open>A kernel\<close>

text \<open>
  A kernel that meets \<open>kernel_ok\<close>: it remembers the mappings, puts the next one behind all earlier
  ones, and refuses when that is not possible.
\<close>

type_synonym simple_os = "(size_t \<times> size_t) list"

definition simple_place :: "simple_os \<Rightarrow> size_t" where
  "simple_place st = 0x10000 + sum_list (map snd st)"

definition simple_kernel :: "simple_os kernel" where
  "simple_kernel =
     \<lparr>sys_mmap = (\<lambda>st sz. let p = simple_place st in
        if p mod PAGESIZE = 0 \<and> block_ok (p, sz) \<and> (\<forall>r \<in> set st. apart r (p, sz))
        then (Some p, (p, sz) # st) else (None, st)),
      sys_munmap = (\<lambda>st p sz. (0, filter (\<lambda>r. r \<noteq> (p, sz)) st)),
      mapped = set\<rparr>"

lemma simple_kernel_ok: "kernel_ok simple_kernel"
  unfolding kernel_ok_def
proof (intro conjI allI impI)
  fix st sz p st'
  assume m: "sys_mmap simple_kernel st sz = (Some p, st')"
  then show "p mod PAGESIZE = 0" "block_ok (p, sz)" "\<forall>r \<in> mapped simple_kernel st. apart r (p, sz)"
    "mapped simple_kernel st' = insert (p, sz) (mapped simple_kernel st)"
    by (auto simp: simple_kernel_def Let_def split: if_splits)
next
  fix st p sz
  show "\<exists>st'. sys_munmap simple_kernel st p sz = (0, st') \<and>
      mapped simple_kernel st' = mapped simple_kernel st - {(p, sz)}"
    by (auto simp: simple_kernel_def)
qed

lemma simple_kernel_ready: "alloc_ready simple_kernel (alloc_init []) {}"
  by (simp add: alloc_ready_def simple_kernel_ok alloc_abs_init)

text \<open>
  An allocator state with one page of nodes at \<open>0x1000\<close>, one block of a caller at \<open>0x5000\<close>, and a node
  at \<open>0x1040\<close> about to be inserted.
\<close>

definition example_alloc :: "simple_os alloc_state" where
  "example_alloc =
     \<lparr>nodes =
        [0x1000 \<mapsto> \<lparr>m_addr = 0x1000, m_length = 4096, m_next = 0x1020, m_prev = 0x1020\<rparr>,
         0x1020 \<mapsto> \<lparr>m_addr = 0x5000, m_length = 4096, m_next = 0x1000, m_prev = 0x1000\<rparr>,
         0x1040 \<mapsto> \<lparr>m_addr = 0x3000, m_length = 4096, m_next = 0, m_prev = 0\<rparr>],
      free_list = 0, alloc_list = 0x1000, os = [(0x1000, 4096), (0x5000, 4096)]\<rparr>"

lemma example_alloc_inv: "alloc_inv simple_kernel example_alloc [0x1000, 0x1020] []"
  by (simp add: alloc_inv_def alloc_ring_def example_alloc_def ring_def blocks_ok_def block_ok_def
      before_def reg_def region_def in_node_page_def simple_kernel_def ALLOC_BLOCKSIZE_def PAGESIZE_def)

lemma example_alloc_abs: "alloc_abs simple_kernel example_alloc {(0x5000, 4096)}"
  unfolding alloc_abs_def
proof (intro exI conjI)
  show "alloc_inv simple_kernel example_alloc [0x1000, 0x1020] []" by (rule example_alloc_inv)
  have "{n \<in> set [0x1000, 0x1020]. fst (reg (nodes example_alloc) n) \<noteq> n} = {0x1020}"
    by (auto simp: example_alloc_def reg_def region_def)
  then show "{(0x5000, 4096)} = client (nodes example_alloc) [0x1000, 0x1020]"
    by (simp add: client_def) (simp add: example_alloc_def reg_def region_def)
qed

subsection \<open>Properties\<close>

text \<open>
  (C16) \<^verbatim>\<open>threadscan_alloc_mmap\<close> for a positive number of pages: either the process ends because \<^verbatim>\<open>mmap\<close>
  failed, or the result is a page-aligned block that overlaps none of the blocks \<open>D\<close> the callers own,
  and the allocator's lists then account for exactly one block more. This covers the case where a new
  page of metadata nodes has to be mapped first.
\<close>

theorem alloc_mmap_fresh:
  assumes "kernel_ok k" and "alloc_abs k s D" and "sz \<noteq> 0" and "sz mod PAGESIZE = 0"
  shows "okay (mmap_fails k) (threadscan_alloc_mmap dbg k sz s)
    (\<lambda>(p, s'). alloc_abs k s' (insert (p, sz) D) \<and> p mod PAGESIZE = 0 \<and> block_ok (p, sz) \<and>
       (\<forall>r \<in> D. apart r (p, sz)))"
  by (rule threadscan_alloc_mmap_okay [OF assms(2,1,3,4)])

theorem alloc_mmap_fresh_witness:
  "okay (mmap_fails simple_kernel) (threadscan_alloc_mmap True simple_kernel 8192 (alloc_init []))
    (\<lambda>(p, s'). alloc_abs simple_kernel s' (insert (p, 8192) {}) \<and> p mod PAGESIZE = 0 \<and>
       block_ok (p, 8192) \<and> (\<forall>r \<in> {}. apart r (p, 8192)))"
  by (rule alloc_mmap_fresh [OF simple_kernel_ok alloc_abs_init]) (simp_all add: PAGESIZE_def)

text \<open>
  Allocating a block and giving it back restores what the callers own: \<^verbatim>\<open>threadscan_alloc_munmap\<close>
  finds the node of the block wherever the sorted ring has it, unlinks it and keeps it for later.
\<close>

theorem alloc_munmap_round_trip:
  assumes "kernel_ok k" and "alloc_abs k s D" and "sz \<noteq> 0" and "sz mod PAGESIZE = 0"
  shows "okay (mmap_fails k)
    (bindE (threadscan_alloc_mmap dbg k sz s) (\<lambda>(p, s'). threadscan_alloc_munmap dbg k p s'))
    (\<lambda>s'. alloc_abs k s' D)"
  using pages.alloc_dealloc [of k s D sz dbg] assms by (auto simp: alloc_ready_def elim: okay_mono)

theorem alloc_munmap_round_trip_witness:
  "okay (mmap_fails simple_kernel)
    (bindE (threadscan_alloc_mmap True simple_kernel 4096 (alloc_init []))
      (\<lambda>(p, s'). threadscan_alloc_munmap True simple_kernel p s'))
    (\<lambda>s'. alloc_abs simple_kernel s' {})"
  by (rule alloc_munmap_round_trip [OF simple_kernel_ok alloc_abs_init]) (simp_all add: PAGESIZE_def)

text \<open>
  (C17) Giving back a block that is owned always works, and takes that block and no other out of the
  allocator's lists. In particular the pages of metadata nodes stay in the list, which therefore never
  becomes empty: the dangling \<^verbatim>\<open>alloc_list\<close> that \<^verbatim>\<open>metadata_remove\<close> would leave behind on removing the only
  node cannot arise.
\<close>

theorem alloc_munmap_exact:
  assumes "kernel_ok k" and "alloc_abs k s D" and "(p, sz) \<in> D"
  shows "returns (threadscan_alloc_munmap dbg k p s) (\<lambda>s'. alloc_abs k s' (D - {(p, sz)}))"
  by (rule threadscan_alloc_munmap_returns [OF assms(2,1,3)])

theorem alloc_munmap_exact_witness:
  "returns (threadscan_alloc_munmap True simple_kernel 0x5000 example_alloc)
    (\<lambda>s'. alloc_abs simple_kernel s' ({(0x5000, 4096)} - {(0x5000, 4096)}))"
  by (rule alloc_munmap_exact [OF simple_kernel_ok example_alloc_abs]) simp

text \<open>
  (C29) \<^verbatim>\<open>metadata_remove\<close> of an address that no block starts at, on a list that is not empty, never comes
  back: the list is a ring, so the walk never meets the null pointer the code tests for afterwards.
\<close>

theorem metadata_remove_absent_hangs:
  assumes "ring (nodes s) ns" and "alloc_list s = hd ns" and "alloc_list s \<noteq> 0"
    and "\<forall>n \<in> set ns. \<forall>m. nodes s n = Some m \<longrightarrow> m_addr m \<noteq> a"
  shows "metadata_remove dbg a s = Inl Hang"
proof -
  have "hd ns \<in> set ns" using assms(1) by (simp add: ring_def)
  then have "find_addr (nodes s) a (alloc_list s) = Inl Hang"
    using find_addr_hangs [OF assms(1), of a "hd ns"] assms(2,4) by simp
  then show ?thesis using assms(3) by (simp add: metadata_remove_def c_assert_def)
qed

theorem metadata_remove_absent_hangs_witness: "metadata_remove True 0x9000 example_alloc = Inl Hang"
  by (rule metadata_remove_absent_hangs [of _ "[0x1000, 0x1020]"])
     (simp_all add: example_alloc_def ring_def)

text \<open>
  The list of blocks is sorted by address: inserting the node \<open>x\<close> of a block that overlaps no
  block of the list puts it at its place in the ring, whichever of the three branches of
  \<^verbatim>\<open>metadata_do_insert\<close> is taken, and changes no block's address or length.
\<close>

theorem metadata_insert_sorted:
  assumes "alloc_ring s ns" and "x \<notin> set ns" and "x \<noteq> 0" and "nodes s x = Some mx"
    and "block_ok (region mx)" and "\<forall>n \<in> set ns. apart (reg (nodes s) n) (region mx)"
  shows "\<exists>s' us vs. ns = us @ vs \<and> metadata_do_insert x s = Inr s' \<and> alloc_ring s' (us @ x # vs) \<and>
    map (reg (nodes s')) (us @ x # vs) = map (reg (nodes s)) us @ region mx # map (reg (nodes s)) vs"
proof -
  obtain h' us vs where i: "ns = us @ vs"
    "metadata_do_insert x s = Inr (s\<lparr>nodes := h', alloc_list := hd (us @ x # vs)\<rparr>)"
    "relinked (insert x (set ns)) (nodes s) h'"
    "alloc_ring (s\<lparr>nodes := h', alloc_list := hd (us @ x # vs)\<rparr>) (us @ x # vs)"
    using metadata_do_insert_correct [OF assms] by blast
  have "\<exists>m. nodes s n = Some m" if "n \<in> set (us @ x # vs)" for n
    using that alloc_ring_SomeD [OF assms(1), of n] assms(4) by (auto simp: i(1))
  then have "map (reg h') (us @ x # vs) = map (reg (nodes s)) (us @ x # vs)"
    using i(3) by (rule map_reg_relinked [rotated])
  moreover have "reg (nodes s) x = region mx" by (simp add: reg_def assms(4))
  ultimately show ?thesis
    using i by (intro exI [of _ "s\<lparr>nodes := h', alloc_list := hd (us @ x # vs)\<rparr>"] exI [of _ us] exI [of _ vs])
      simp
qed

theorem metadata_insert_sorted_witness:
  "\<exists>s' us vs. [0x1000, 0x1020] = us @ vs \<and> metadata_do_insert 0x1040 example_alloc = Inr s' \<and>
    alloc_ring s' (us @ 0x1040 # vs) \<and>
    map (reg (nodes s')) (us @ 0x1040 # vs) =
      map (reg (nodes example_alloc)) us @
      region \<lparr>m_addr = 0x3000, m_length = 4096, m_next = 0, m_prev = 0\<rparr> # map (reg (nodes example_alloc)) vs"
proof (rule metadata_insert_sorted)
  show "alloc_ring example_alloc [0x1000, 0x1020]"
    using example_alloc_inv by (simp add: alloc_inv_def)
qed (simp_all add: example_alloc_def block_ok_def region_def reg_def apart_def before_def)

end
