(* ===== verification/TS_Thread.thy ===== *)
theory TS_Thread
  imports TS_Alloc TS_Queue TS_Env
begin

text \<open>
  The life of a thread: its record \<^verbatim>\<open>thread_data_t\<close> (\<^verbatim>\<open>util.c\<close>), the list of live threads (\<^verbatim>\<open>proc.c\<close>),
  the list of exited threads whose memory waits for \<^verbatim>\<open>pthread_join\<close>, and the operations on them.

  The records are a typed store from addresses to records, as the allocator's nodes are. Each operation
  runs under the lock of its list and is one step. The calling thread's \<^verbatim>\<open>threadscan_local_td\<close> is
  the argument \<open>me\<close>.
\<close>

subsection \<open>Data\<close>

record thread_data =
  user_routine :: size_t
  user_arg :: size_t
  td_next :: size_t
  self :: size_t
  user_stack_low :: size_t
  user_stack_high :: size_t
  stack_is_ours :: bool
  is_active :: bool
  ptr_list :: queue_t
  ptr_list_e :: size_t
  local_timestamp :: size_t
  times_without_update :: int
  local_block :: mem_range
  ref_count :: int

text \<open>
  \<open>ptr_list_e\<close> is the address \<^verbatim>\<open>ptr_list.e\<close> of the queue's buffer; its contents are in \<open>ptr_list\<close>.
\<close>

type_synonym tdheap = "size_t \<rightharpoonup> thread_data"

record 'o proc_state =
  tds :: tdheap
  thread_list_head :: size_t
  td_staged_to_free :: size_t
  global_timestamp :: size_t
  mem :: "'o alloc_state"

definition MEMBLOCK_SIZE :: size_t where
  "MEMBLOCK_SIZE = PAGESIZE"

subsection \<open>Access to the records\<close>

definition td_at :: "tdheap \<Rightarrow> size_t \<Rightarrow> thread_data res" where
  "td_at h p = (case h p of None \<Rightarrow> Inl Bad_access | Some t \<Rightarrow> Inr t)"

definition upd_td :: "size_t \<Rightarrow> (thread_data \<Rightarrow> thread_data) \<Rightarrow> 'o proc_state \<Rightarrow> 'o proc_state res" where
  "upd_td p f s = bindE (td_at (tds s) p) (\<lambda>t. Inr (s\<lparr>tds := (tds s)(p \<mapsto> f t)\<rparr>))"

text \<open>
  \<^verbatim>\<open>FOREACH_IN_THREAD_LIST\<close>: \<open>heap\<close> selects the records from the state that the body changes.
\<close>

definition FOREACH_IN_THREAD_LIST ::
  "('s \<Rightarrow> tdheap) \<Rightarrow> (size_t \<Rightarrow> 's \<Rightarrow> 's res) \<Rightarrow> size_t \<Rightarrow> 's \<Rightarrow> 's res" where
  "FOREACH_IN_THREAD_LIST heap body head s = loopE (\<lambda>(td, s).
     if td = 0 then Inr (Inr s)
     else
       bindE (body td s) (\<lambda>s.
       bindE (td_at (heap s) td) (\<lambda>t. Inr (Inl (td_next t, s))))) (head, s)"

subsection \<open>Operations of util.c\<close>

text \<open>What a zero-filled block reads as; the queue's buffer is another zero-filled block.\<close>

definition zero_td :: thread_data where
  "zero_td = \<lparr>user_routine = 0, user_arg = 0, td_next = 0, self = 0, user_stack_low = 0,
     user_stack_high = 0, stack_is_ours = False, is_active = False,
     ptr_list = \<lparr>elems = [], capacity = 0, idx_head = 0, idx_tail = 0\<rparr>, ptr_list_e = 0,
     local_timestamp = 0, times_without_update = 0, local_block = \<lparr>low = 0, high = 0\<rparr>, ref_count = 0\<rparr>"

definition threadscan_util_thread_data_new ::
  "bool \<Rightarrow> 'o kernel \<Rightarrow> int \<Rightarrow> 'o proc_state \<Rightarrow> (size_t \<times> 'o proc_state) res" where
  "threadscan_util_thread_data_new dbg k ptrs_per_thread s =
     bindE (threadscan_alloc_mmap dbg k MEMBLOCK_SIZE (mem s)) (\<lambda>(memblock, m).
     bindE (threadscan_alloc_mmap dbg k (of_int ptrs_per_thread * 8) m) (\<lambda>(local_list, m).
     let td = zero_td
           \<lparr>ptr_list := threadscan_queue_init (replicate (nat ptrs_per_thread) 0) (of_int ptrs_per_thread),
            ptr_list_e := local_list,
            local_block := \<lparr>low = 0, high = 0\<rparr>,
            ref_count := 1\<rparr> in
     Inr (memblock, s\<lparr>mem := m, tds := (tds s)(memblock \<mapsto> td)\<rparr>)))"

definition threadscan_util_thread_data_decr_ref ::
  "size_t \<Rightarrow> 'o proc_state \<Rightarrow> 'o proc_state res" where
  "threadscan_util_thread_data_decr_ref td s =
     bindE (td_at (tds s) td) (\<lambda>t.
     bindE (upd_td td (\<lambda>t. t\<lparr>ref_count := ref_count t - 1\<rparr>) s) (\<lambda>s.
     if ref_count t - 1 = 0 then
       bindE (upd_td td (\<lambda>t. t\<lparr>td_next := td_staged_to_free s\<rparr>) s) (\<lambda>s.
       Inr (s\<lparr>td_staged_to_free := td\<rparr>))
     else Inr s))"

definition threadscan_util_thread_data_free ::
  "bool \<Rightarrow> 'o kernel \<Rightarrow> size_t \<Rightarrow> 'o proc_state \<Rightarrow> 'o proc_state res" where
  "threadscan_util_thread_data_free dbg k td s =
     bindE (c_assert dbg (td \<noteq> 0)) (\<lambda>_.
     bindE (td_at (tds s) td) (\<lambda>t.
     bindE (c_assert dbg (ref_count t = 0)) (\<lambda>_.
     bindE (threadscan_alloc_munmap dbg k (ptr_list_e t) (mem s)) (\<lambda>m.
     bindE (threadscan_alloc_munmap dbg k td m) (\<lambda>m.
     Inr (s\<lparr>mem := m, tds := (tds s)(td := None)\<rparr>))))))"

text \<open>
  The walk of \<^verbatim>\<open>threadscan_util_thread_data_cleanup\<close> to the record of thread \<open>tid\<close>: the record found and
  the one before it (zero at the head).
\<close>

definition find_staged :: "bool \<Rightarrow> tdheap \<Rightarrow> size_t \<Rightarrow> size_t \<Rightarrow> (size_t \<times> size_t) res" where
  "find_staged dbg h tid head = loopE (\<lambda>(td, prev).
     bindE (td_at h td) (\<lambda>t.
     if self t = tid then Inr (Inr (td, prev))
     else bindE (c_assert dbg (td_next t \<noteq> 0)) (\<lambda>_. Inr (Inl (td_next t, td))))) (head, 0)"

definition threadscan_util_thread_data_cleanup ::
  "bool \<Rightarrow> 'o kernel \<Rightarrow> size_t \<Rightarrow> 'o proc_state \<Rightarrow> 'o proc_state res" where
  "threadscan_util_thread_data_cleanup dbg k tid s =
     bindE (c_assert dbg (td_staged_to_free s \<noteq> 0)) (\<lambda>_.
     bindE (find_staged dbg (tds s) tid (td_staged_to_free s)) (\<lambda>(td, prev).
     bindE (td_at (tds s) td) (\<lambda>t.
     bindE (if prev \<noteq> 0 then upd_td prev (\<lambda>l. l\<lparr>td_next := td_next t\<rparr>) s
            else Inr (s\<lparr>td_staged_to_free := td_next t\<rparr>)) (\<lambda>s.
     if ref_count t > 0 then Inl (Fatal ''threadscan: detected data race on exiting thread.'')
     else
       bindE (if stack_is_ours t
              then bindE (threadscan_alloc_munmap dbg k (user_stack_low t) (mem s)) (\<lambda>m. Inr (s\<lparr>mem := m\<rparr>))
              else Inr s) (\<lambda>s.
       threadscan_util_thread_data_free dbg k td s)))))"

definition threadscan_util_thread_list_add ::
  "bool \<Rightarrow> size_t \<Rightarrow> 'o proc_state \<Rightarrow> 'o proc_state res" where
  "threadscan_util_thread_list_add dbg td s =
     bindE (c_assert dbg (td \<noteq> 0)) (\<lambda>_.
     bindE (upd_td td (\<lambda>t. t\<lparr>td_next := thread_list_head s\<rparr>) s) (\<lambda>s.
     Inr (s\<lparr>thread_list_head := td\<rparr>)))"

text \<open>The loop \<^verbatim>\<open>while (tmp->next != td) tmp = tmp->next\<close>.\<close>

definition find_before :: "bool \<Rightarrow> tdheap \<Rightarrow> size_t \<Rightarrow> size_t \<Rightarrow> size_t res" where
  "find_before dbg h td = loopE (\<lambda>tmp.
     bindE (td_at h tmp) (\<lambda>t.
     if td_next t \<noteq> td
     then bindE (c_assert dbg (td_next t \<noteq> 0)) (\<lambda>_. Inr (Inl (td_next t)))
     else Inr (Inr tmp)))"

definition threadscan_util_thread_list_remove ::
  "bool \<Rightarrow> size_t \<Rightarrow> 'o proc_state \<Rightarrow> 'o proc_state res" where
  "threadscan_util_thread_list_remove dbg td s =
     bindE (c_assert dbg (td \<noteq> 0)) (\<lambda>_.
     bindE (c_assert dbg (thread_list_head s \<noteq> 0)) (\<lambda>_.
     if thread_list_head s = td then
       bindE (td_at (tds s) td) (\<lambda>t. Inr (s\<lparr>thread_list_head := td_next t\<rparr>))
     else
       bindE (find_before dbg (tds s) td (thread_list_head s)) (\<lambda>tmp.
       bindE (td_at (tds s) td) (\<lambda>t.
       upd_td tmp (\<lambda>l. l\<lparr>td_next := td_next t\<rparr>) s))))"

text \<open>The record of the thread on whose stack \<open>addr\<close> lies (zero if none), with its reference count raised.\<close>

definition threadscan_util_thread_list_find ::
  "size_t \<Rightarrow> 'o proc_state \<Rightarrow> (size_t \<times> 'o proc_state) res" where
  "threadscan_util_thread_list_find addr s =
     bindE (loopE (\<lambda>ret.
       if ret = 0 then Inr (Inr 0)
       else
         bindE (td_at (tds s) ret) (\<lambda>t.
         if addr \<ge> user_stack_low t \<and> addr < user_stack_high t then Inr (Inr ret)
         else Inr (Inl (td_next t)))) (thread_list_head s)) (\<lambda>ret.
     if ret = 0 then Inr (0, s)
     else bindE (upd_td ret (\<lambda>t. t\<lparr>ref_count := ref_count t + 1\<rparr>) s) (\<lambda>s. Inr (ret, s)))"

subsection \<open>Operations of proc.c and thread.c\<close>

definition threadscan_proc_add_thread_data ::
  "bool \<Rightarrow> size_t \<Rightarrow> 'o proc_state \<Rightarrow> 'o proc_state res" where
  "threadscan_proc_add_thread_data dbg td s = threadscan_util_thread_list_add dbg td s"

definition threadscan_proc_remove_thread_data ::
  "bool \<Rightarrow> size_t \<Rightarrow> 'o proc_state \<Rightarrow> 'o proc_state res" where
  "threadscan_proc_remove_thread_data dbg td s = threadscan_util_thread_list_remove dbg td s"

definition EINVAL :: int where
  "EINVAL = 22"

definition ESRCH :: int where
  "ESRCH = 3"

text \<open>
  \<open>pthread_kill\<close> is a parameter: the value it returns for each thread. The result is the number of
  signals and, in order, the threads that were signalled.
\<close>

definition signal_body ::
  "(size_t \<Rightarrow> int) \<Rightarrow> tdheap \<Rightarrow> size_t \<Rightarrow> size_t \<Rightarrow> int \<times> size_t list \<Rightarrow> (int \<times> size_t list) res" where
  "signal_body pthread_kill h except td st =
     bindE (td_at h td) (\<lambda>t.
     if td \<noteq> except \<and> is_active t then
       let ret = pthread_kill (self t) in
       if ret = EINVAL then Inl (Fatal ''threadscan: pthread_kill() returned EINVAL.'')
       else if ret = ESRCH then Inr st
       else Inr (fst st + 1, snd st @ [td])
     else Inr st)"

definition threadscan_proc_signal_all_except ::
  "(size_t \<Rightarrow> int) \<Rightarrow> size_t \<Rightarrow> 'o proc_state \<Rightarrow> (int \<times> size_t list) res" where
  "threadscan_proc_signal_all_except pthread_kill except s =
     FOREACH_IN_THREAD_LIST (\<lambda>_. tds s) (signal_body pthread_kill (tds s) except)
       (thread_list_head s) (0, [])"

definition threadscan_thread_signal_all_but_me ::
  "bool \<Rightarrow> (size_t \<Rightarrow> int) \<Rightarrow> size_t \<Rightarrow> 'o proc_state \<Rightarrow> (int \<times> size_t list) res" where
  "threadscan_thread_signal_all_but_me dbg pthread_kill me s =
     bindE (c_assert dbg (me \<noteq> 0)) (\<lambda>_. threadscan_proc_signal_all_except pthread_kill me s)"

text \<open>\<^verbatim>\<open>threadscan_thread_base\<close> up to the call of the user's routine: \<open>sp\<close> is the stack pointer.\<close>

definition threadscan_thread_base ::
  "size_t \<Rightarrow> size_t \<Rightarrow> size_t \<Rightarrow> 'o proc_state \<Rightarrow> 'o proc_state res" where
  "threadscan_thread_base sp pthread_self td s =
     (let buffer_size = sp AND (PAGESIZE - 1) in
      upd_td td (\<lambda>t. t\<lparr>user_stack_high := sp - buffer_size, local_timestamp := 0,
        self := pthread_self, is_active := True\<rparr>) s)"

definition threadscan_thread_cleanup :: "bool \<Rightarrow> size_t \<Rightarrow> 'o proc_state \<Rightarrow> 'o proc_state res" where
  "threadscan_thread_cleanup dbg me s =
     bindE (c_assert dbg (me \<noteq> 0)) (\<lambda>_.
     bindE (upd_td me (\<lambda>t. t\<lparr>is_active := False\<rparr>) s) (\<lambda>s.
     bindE (threadscan_proc_remove_thread_data dbg me s) (\<lambda>s.
     threadscan_util_thread_data_decr_ref me s)))"

definition threadscan_thread_user_stack :: "size_t \<Rightarrow> 'o proc_state \<Rightarrow> mem_range res" where
  "threadscan_thread_user_stack me s =
     bindE (td_at (tds s) me) (\<lambda>t. Inr \<lparr>low = user_stack_low t, high = user_stack_high t\<rparr>)"

subsection \<open>Timestamps\<close>

definition TIMESTAMP :: "size_t \<Rightarrow> size_t" where
  "TIMESTAMP field = field AND 0x7FFFFFFFFFFFFFFF"

definition TIMESTAMP_RAISE_FLAG :: "size_t \<Rightarrow> size_t" where
  "TIMESTAMP_RAISE_FLAG field = field OR 0x8000000000000000"

definition TIMESTAMP_IS_ACTIVE :: "size_t \<Rightarrow> bool" where
  "TIMESTAMP_IS_ACTIVE field \<longleftrightarrow> field AND 0x8000000000000000 \<noteq> 0"

definition TIMESTAMP_SET_ACTIVE :: "size_t \<Rightarrow> size_t" where
  "TIMESTAMP_SET_ACTIVE field = TIMESTAMP_RAISE_FLAG field"

text \<open>The flag is the highest bit, the timestamp proper the bits below it.\<close>

lemma flag_bit: "TIMESTAMP_IS_ACTIVE x \<longleftrightarrow> bit x 63"
  using and_exp_eq_0_iff_not_bit [of x 63] by (simp add: TIMESTAMP_IS_ACTIVE_def)

lemma timestamp_bits: "TIMESTAMP x = take_bit 63 x"
  using take_bit_eq_mask [of 63 x] by (simp add: TIMESTAMP_def mask_eq_exp_minus_1)

lemma raise_flag_bits: "TIMESTAMP_RAISE_FLAG x = set_bit 63 x"
  using set_bit_eq_or [of 63 x] by (simp add: TIMESTAMP_RAISE_FLAG_def)

lemma timestamp_simps [simp]:
  "\<not> TIMESTAMP_IS_ACTIVE (TIMESTAMP x)" "TIMESTAMP_IS_ACTIVE (TIMESTAMP_RAISE_FLAG x)"
  "TIMESTAMP (TIMESTAMP x) = TIMESTAMP x" "TIMESTAMP (TIMESTAMP_RAISE_FLAG x) = TIMESTAMP x"
  by (simp_all add: flag_bit timestamp_bits raise_flag_bits bit_simps) (rule bit_word_eqI, auto simp: bit_simps)

lemma timestamp_inactive_id: "\<not> TIMESTAMP_IS_ACTIVE x \<Longrightarrow> TIMESTAMP x = x"
  unfolding flag_bit timestamp_bits
proof (rule bit_word_eqI)
  fix n assume "\<not> bit x 63" "n < LENGTH(64)"
  then show "bit (take_bit 63 x) n = bit x n" by (cases "n = 63") (auto simp: bit_simps)
qed

lemma unat_timestamp: "unat (TIMESTAMP x) = unat x mod 2 ^ 63"
  unfolding timestamp_bits unsigned_take_bit_eq by (rule take_bit_eq_mod)

lemma timestamp_succ:
  assumes "\<not> TIMESTAMP_IS_ACTIVE x" and "unat (TIMESTAMP x) + 1 < 2 ^ 63"
  shows "unat (TIMESTAMP (TIMESTAMP_SET_ACTIVE (x + 1))) = unat (TIMESTAMP x) + 1"
proof -
  have x: "TIMESTAMP x = x" by (rule timestamp_inactive_id [OF assms(1)])
  then have "unat (x + 1) = unat x + 1" using assms(2) by (subst unat_word_ariths) simp
  then show ?thesis using assms(2) x by (simp add: TIMESTAMP_SET_ACTIVE_def unat_timestamp [of "x + 1"])
qed

text \<open>
  Raising the flag of thread \<open>me\<close> when no other thread runs in between: the first store, of the old
  timestamp with the flag, is followed by a fence and the store of the current one.
\<close>

definition threadscan_thread_cleanup_raise_flag ::
  "bool \<Rightarrow> size_t \<Rightarrow> 'o proc_state \<Rightarrow> 'o proc_state res" where
  "threadscan_thread_cleanup_raise_flag dbg me s =
     bindE (c_assert dbg (me \<noteq> 0)) (\<lambda>_.
     bindE (td_at (tds s) me) (\<lambda>t.
     let old_timestamp = local_timestamp t in
     bindE (upd_td me (\<lambda>t. t\<lparr>local_timestamp := TIMESTAMP_RAISE_FLAG old_timestamp\<rparr>) s) (\<lambda>s.
     let cur = global_timestamp s in
     bindE (upd_td me (\<lambda>t. t\<lparr>local_timestamp := TIMESTAMP_RAISE_FLAG cur\<rparr>) s) (\<lambda>s.
     if TIMESTAMP cur \<noteq> old_timestamp then upd_td me (\<lambda>t. t\<lparr>times_without_update := 0\<rparr>) s
     else if \<not> TIMESTAMP_IS_ACTIVE cur then
       upd_td me (\<lambda>t. if times_without_update t < 2
                       then t\<lparr>times_without_update := times_without_update t + 1\<rparr> else t) s
     else Inr s))))"

definition threadscan_thread_cleanup_lower_flag :: "size_t \<Rightarrow> 'o proc_state \<Rightarrow> 'o proc_state res" where
  "threadscan_thread_cleanup_lower_flag me s =
     upd_td me (\<lambda>t. t\<lparr>local_timestamp := TIMESTAMP (local_timestamp t)\<rparr>) s"

text \<open>
  The wait for helpers of an earlier round. With no other thread running in between, a helper that
  has not finished never does.
\<close>

definition threadscan_proc_wait_for_timestamp :: "size_t \<Rightarrow> 'o proc_state \<Rightarrow> 'o proc_state res" where
  "threadscan_proc_wait_for_timestamp cur s =
     FOREACH_IN_THREAD_LIST tds (\<lambda>td s.
       bindE (td_at (tds s) td) (\<lambda>t.
       if TIMESTAMP_IS_ACTIVE (local_timestamp t) \<and> TIMESTAMP (local_timestamp t) \<noteq> cur
       then Inl Hang else Inr s)) (thread_list_head s) s"

definition threadscan_thread_cleanup_try_acquire :: "'o proc_state \<Rightarrow> (bool \<times> 'o proc_state) res" where
  "threadscan_thread_cleanup_try_acquire s =
     (let old_timestamp = global_timestamp s in
      if TIMESTAMP_IS_ACTIVE old_timestamp then Inr (False, s)
      else
        let attempt = TIMESTAMP_SET_ACTIVE (old_timestamp + 1) in
        bindE (threadscan_proc_wait_for_timestamp (TIMESTAMP attempt) (s\<lparr>global_timestamp := attempt\<rparr>)) (\<lambda>s.
        Inr (True, s)))"

definition threadscan_thread_cleanup_release :: "'o proc_state \<Rightarrow> 'o proc_state" where
  "threadscan_thread_cleanup_release s = s\<lparr>global_timestamp := TIMESTAMP (global_timestamp s)\<rparr>"

subsection \<open>The two lists\<close>

definition nxt :: "tdheap \<Rightarrow> size_t \<Rightarrow> size_t option" where
  "nxt h p = map_option td_next (h p)"

text \<open>\<open>lists s ls ss\<close>: the live threads are \<open>ls\<close> and the exited ones \<open>ss\<close>, most recent first.\<close>

definition lists :: "'o proc_state \<Rightarrow> size_t list \<Rightarrow> size_t list \<Rightarrow> bool" where
  "lists s ls ss \<longleftrightarrow>
     path (nxt (tds s)) (thread_list_head s) ls \<and> path (nxt (tds s)) (td_staged_to_free s) ss \<and>
     distinct (ls @ ss)"

lemma td_at_Some [simp]: "h p = Some t \<Longrightarrow> td_at h p = Inr t"
  by (simp add: td_at_def)

lemma returns_td_at [wp]: "returns (td_at h p) P \<longleftrightarrow> (\<exists>t. h p = Some t \<and> P t)"
  by (simp add: td_at_def split: option.splits)

lemma upd_td_Some [simp]: "tds s p = Some t \<Longrightarrow> upd_td p f s = Inr (s\<lparr>tds := (tds s)(p \<mapsto> f t)\<rparr>)"
  by (simp add: upd_td_def)

lemma nxt_upd [simp]: "nxt (h(p \<mapsto> t)) x = (if x = p then Some (td_next t) else nxt h x)"
  by (simp add: nxt_def)

lemma nxt_Some: "nxt h p = Some q \<longleftrightarrow> (\<exists>t. h p = Some t \<and> td_next t = q)"
  by (auto simp: nxt_def)

lemma lists_SomeD: "lists s ls ss \<Longrightarrow> p \<in> set ls \<union> set ss \<Longrightarrow> \<exists>t. tds s p = Some t"
  unfolding lists_def by (auto dest!: path_SomeD simp: nxt_Some)

text \<open>A change of records that leaves the links alone leaves the lists alone.\<close>

lemma lists_cong:
  assumes "lists s ls ss" "\<And>x. x \<in> set ls \<union> set ss \<Longrightarrow> nxt (tds s') x = nxt (tds s) x"
    "thread_list_head s' = thread_list_head s" "td_staged_to_free s' = td_staged_to_free s"
  shows "lists s' ls ss"
  using assms path_cong [of "nxt (tds s)" _ _ "nxt (tds s')"] by (simp add: lists_def)

lemma list_add_correct:
  assumes l: "lists s ls ss" and td: "td \<notin> set ls" "td \<notin> set ss" "td \<noteq> 0" "tds s td = Some t"
  obtains s' where "threadscan_util_thread_list_add dbg td s = Inr s'" "lists s' (td # ls) ss"
    "tds s' = (tds s)(td \<mapsto> t\<lparr>td_next := thread_list_head s\<rparr>)" "mem s' = mem s"
    "td_staged_to_free s' = td_staged_to_free s"
proof -
  let ?h = "(tds s)(td \<mapsto> t\<lparr>td_next := thread_list_head s\<rparr>)"
  let ?s = "s\<lparr>tds := ?h, thread_list_head := td\<rparr>"
  have "path (nxt ?h) (thread_list_head s) ls" "path (nxt ?h) (td_staged_to_free s) ss"
    using l td by (auto simp: lists_def intro: path_cong)
  then have "lists ?s (td # ls) ss" using l td by (auto simp: lists_def)
  then show ?thesis using that [of ?s] td by (simp add: threadscan_util_thread_list_add_def c_assert_def)
qed

lemma find_before_correct:
  assumes "path (nxt h) p (us @ u # td # vs)" "distinct (us @ u # td # vs)"
  shows "find_before dbg h td p = Inr u"
  using assms
proof (induction us arbitrary: p)
  case Nil
  then show ?case unfolding find_before_def by (subst loopE_unfold) (auto simp: nxt_Some)
next
  case (Cons a us)
  then obtain t where t: "p = a" "h a = Some t" "path (nxt h) (td_next t) (us @ u # td # vs)"
    by (auto simp: nxt_Some)
  then have "td_next t \<noteq> td" "td_next t \<noteq> 0" using Cons.prems(2) by (cases us; auto)+
  moreover have "find_before dbg h td (td_next t) = Inr u" using t Cons by auto
  ultimately show ?case using t unfolding find_before_def
    by (subst loopE_unfold) (simp add: c_assert_def)
qed

lemma list_remove_correct:
  assumes l: "lists s ls ss" and td: "td \<in> set ls"
  obtains s' where "threadscan_util_thread_list_remove dbg td s = Inr s'" "lists s' (remove1 td ls) ss"
    "\<And>p. map_option (td_next_update (\<lambda>_. 0)) (tds s' p) = map_option (td_next_update (\<lambda>_. 0)) (tds s p)"
    "tds s' td = tds s td" "mem s' = mem s" "td_staged_to_free s' = td_staged_to_free s"
proof -
  have p: "path (nxt (tds s)) (thread_list_head s) ls" and d: "distinct (ls @ ss)"
    and nz: "0 \<notin> set ls"
    using l by (auto simp: lists_def dest: path_nonzero)
  have td0: "td \<noteq> 0" using td nz by auto
  obtain t where t: "tds s td = Some t" using lists_SomeD [OF l] td by auto
  show ?thesis
  proof (cases "thread_list_head s = td")
    case True
    then obtain ls' where ls: "ls = td # ls'" using path_ne [OF _ p] td0 by auto
    let ?s = "s\<lparr>thread_list_head := td_next t\<rparr>"
    have "lists ?s ls' ss" using l t by (auto simp: lists_def ls nxt_Some)
    then show ?thesis
      using that [of ?s] True td0 t by (simp add: threadscan_util_thread_list_remove_def c_assert_def ls)
  next
    case False
    obtain vs us' where "ls = us' @ td # vs" using td by (meson split_list)
    moreover from this obtain us u where "us' = us @ [u]" using False p by (cases us' rule: rev_cases) auto
    ultimately have ls: "ls = us @ u # td # vs" by simp
    obtain tu where tu: "tds s u = Some tu" using lists_SomeD [OF l, of u] by (auto simp: ls)
    let ?h = "(tds s)(u \<mapsto> tu\<lparr>td_next := td_next t\<rparr>)"
    let ?s = "s\<lparr>tds := ?h\<rparr>"
    have du: "distinct (us @ u # td # vs)" using d by (auto simp: ls)
    have "path (nxt ?h) (thread_list_head s) (us @ u # vs)"
      by (rule path_unlink [of "nxt (tds s)" _ us u td vs]) (use p du t in \<open>auto simp: ls nxt_Some\<close>)
    moreover have "path (nxt ?h) (td_staged_to_free s) ss"
      using l d by (auto simp: lists_def ls intro: path_cong)
    moreover have "remove1 td ls = us @ u # vs" using du by (simp add: ls remove1_append)
    ultimately have "lists ?s (remove1 td ls) ss" using d by (auto simp: lists_def ls)
    moreover have "threadscan_util_thread_list_remove dbg td s = Inr ?s"
    proof -
      have "thread_list_head s \<noteq> 0" using p by (cases us) (auto simp: ls)
      then show ?thesis
        using find_before_correct [of "tds s" "thread_list_head s" us u td vs dbg] p du False td0 t tu
        by (simp add: threadscan_util_thread_list_remove_def c_assert_def ls)
    qed
    moreover have "u \<noteq> td" using du by auto
    ultimately show ?thesis using tu by (intro that [of ?s]) auto
  qed
qed

subsection \<open>Traversal\<close>

text \<open>
  The loop macro runs its body for every record of the list in order, whatever the body does to the
  records as long as it leaves the links alone.
\<close>

lemma FOREACH_eq:
  assumes "path (nxt (heap s)) p xs"
    and "\<And>x s s'. x \<in> set xs \<Longrightarrow> body x s = Inr s' \<Longrightarrow> nxt (heap s') = nxt (heap s)"
  shows "FOREACH_IN_THREAD_LIST heap body p s = foldE body xs s"
  using assms
proof (induction xs arbitrary: p s)
  case Nil
  then show ?case unfolding FOREACH_IN_THREAD_LIST_def by (subst loopE_unfold) simp
next
  case (Cons x xs)
  then have p: "p = x" "x \<noteq> 0" by auto
  show ?case
  proof (cases "body x s")
    case (Inl f)
    then show ?thesis using p unfolding FOREACH_IN_THREAD_LIST_def by (subst loopE_unfold) simp
  next
    case (Inr s')
    then have same: "nxt (heap s') = nxt (heap s)" using Cons.prems(2) [of x s s'] by simp
    then obtain t where t: "heap s' x = Some t" "path (nxt (heap s')) (td_next t) xs"
      using Cons.prems(1) unfolding same [symmetric] by (auto simp: nxt_Some)
    have "FOREACH_IN_THREAD_LIST heap body (td_next t) s' = foldE body xs s'"
      using t Cons.prems(2) by (intro Cons.IH) auto
    then show ?thesis using p Inr t unfolding FOREACH_IN_THREAD_LIST_def
      by (subst loopE_unfold) simp
  qed
qed

text \<open>The wait of the reclaimer returns if no thread of the list is helping an earlier round.\<close>

lemma wait_for_timestamp_exact:
  assumes "lists s ls ss"
  shows "threadscan_proc_wait_for_timestamp cur s =
    (if \<exists>td \<in> set ls. TIMESTAMP_IS_ACTIVE (local_timestamp (the (tds s td))) \<and>
          TIMESTAMP (local_timestamp (the (tds s td))) \<noteq> cur then Inl Hang else Inr s)"
proof -
  define body where "body = (\<lambda>td s. bindE (td_at (tds s) td) (\<lambda>t.
     if TIMESTAMP_IS_ACTIVE (local_timestamp t) \<and> TIMESTAMP (local_timestamp t) \<noteq> cur
     then Inl Hang else Inr (s :: 'a proc_state)))"
  define helps where "helps td \<longleftrightarrow> TIMESTAMP_IS_ACTIVE (local_timestamp (the (tds s td))) \<and>
     TIMESTAMP (local_timestamp (the (tds s td))) \<noteq> cur" for td
  have step: "body td s = (if helps td then Inl Hang else Inr s)" if "td \<in> set ls" for td
    using that lists_SomeD [OF assms, of td] by (auto simp: body_def helps_def)
  have "foldE body xs s = (if \<exists>td \<in> set xs. helps td then Inl Hang else Inr s)" if "set xs \<subseteq> set ls" for xs
    using that by (induction xs) (auto simp: step)
  moreover have "FOREACH_IN_THREAD_LIST tds body (thread_list_head s) s = foldE body ls s"
    by (rule FOREACH_eq)
       (use assms in \<open>auto simp: lists_def body_def bindE_Inr_iff split: if_splits\<close>)
  ultimately show ?thesis by (simp add: threadscan_proc_wait_for_timestamp_def body_def helps_def)
qed

text \<open>The record of a thread that has raised its flag while the global timestamp was \<open>g\<close>.\<close>

definition raised_td :: "size_t \<Rightarrow> thread_data \<Rightarrow> thread_data" where
  "raised_td g t = t\<lparr>local_timestamp := TIMESTAMP_RAISE_FLAG g,
     times_without_update :=
       (if TIMESTAMP g \<noteq> local_timestamp t then 0
        else if \<not> TIMESTAMP_IS_ACTIVE g \<and> times_without_update t < 2 then times_without_update t + 1
        else times_without_update t)\<rparr>"

lemma raise_flag_eq:
  assumes "tds s me = Some t" "me \<noteq> 0"
  shows "threadscan_thread_cleanup_raise_flag dbg me s =
    Inr (s\<lparr>tds := (tds s)(me \<mapsto> raised_td (global_timestamp s) t)\<rparr>)"
proof (cases "TIMESTAMP (global_timestamp s) \<noteq> local_timestamp t")
  case True
  then show ?thesis using assms
    by (simp add: threadscan_thread_cleanup_raise_flag_def Let_def c_assert_def raised_td_def)
next
  case False
  then show ?thesis using assms
    by (cases "TIMESTAMP_IS_ACTIVE (global_timestamp s)")
       (simp_all add: threadscan_thread_cleanup_raise_flag_def Let_def c_assert_def raised_td_def)
qed

text \<open>
  Every active thread but the caller is signalled, in list order, and the count returned is the number
  of threads that will answer (\<^verbatim>\<open>ESRCH\<close>: the thread is gone).
\<close>

definition signalled :: "(size_t \<Rightarrow> int) \<Rightarrow> tdheap \<Rightarrow> size_t \<Rightarrow> size_t \<Rightarrow> bool" where
  "signalled pthread_kill h me td \<longleftrightarrow>
     td \<noteq> me \<and> is_active (the (h td)) \<and> pthread_kill (self (the (h td))) \<noteq> ESRCH"

lemma signal_fold:
  assumes "\<And>td. td \<in> set xs \<Longrightarrow> \<exists>t. h td = Some t \<and> pthread_kill (self t) \<noteq> EINVAL"
  shows "foldE (signal_body pthread_kill h me) xs (n, as) =
    Inr (n + int (length (filter (signalled pthread_kill h me) xs)),
         as @ filter (signalled pthread_kill h me) xs)"
  using assms
proof (induction xs arbitrary: n as)
  case (Cons x xs)
  obtain t where t: "h x = Some t" "pthread_kill (self t) \<noteq> EINVAL" using Cons.prems [of x] by auto
  have "foldE (signal_body pthread_kill h me) xs (m, bs) =
      Inr (m + int (length (filter (signalled pthread_kill h me) xs)),
           bs @ filter (signalled pthread_kill h me) xs)" for m bs
    using Cons by auto
  moreover have "signal_body pthread_kill h me x (n, as) =
      Inr (if signalled pthread_kill h me x then (n + 1, as @ [x]) else (n, as))"
    using t by (simp add: signal_body_def signalled_def Let_def)
  ultimately show ?case by simp
qed simp

lemma signal_all_except_eq:
  assumes l: "lists s ls ss"
    and kill: "\<And>td t. td \<in> set ls \<Longrightarrow> tds s td = Some t \<Longrightarrow> pthread_kill (self t) \<noteq> EINVAL"
  shows "threadscan_proc_signal_all_except pthread_kill me s =
    Inr (int (length (filter (signalled pthread_kill (tds s) me) ls)),
         filter (signalled pthread_kill (tds s) me) ls)"
proof -
  have "\<exists>t. tds s td = Some t \<and> pthread_kill (self t) \<noteq> EINVAL" if "td \<in> set ls" for td
    using lists_SomeD [OF l, of td] kill that by auto
  then show ?thesis
    unfolding threadscan_proc_signal_all_except_def
    using l signal_fold [of ls "tds s" pthread_kill me 0 "[]"]
    by (subst FOREACH_eq [of "\<lambda>_. tds s" _ "thread_list_head s" ls]) (auto simp: lists_def)
qed

subsection \<open>Leaving\<close>

lemma decr_ref_staged:
  assumes l: "lists s ls ss" and td: "td \<notin> set ls" "td \<notin> set ss" "td \<noteq> 0" "tds s td = Some t" "ref_count t = 1"
  obtains s' where "threadscan_util_thread_data_decr_ref td s = Inr s'" "lists s' ls (td # ss)"
    "tds s' = (tds s)(td \<mapsto> t\<lparr>ref_count := 0, td_next := td_staged_to_free s\<rparr>)" "mem s' = mem s"
proof -
  let ?h = "(tds s)(td \<mapsto> t\<lparr>ref_count := 0, td_next := td_staged_to_free s\<rparr>)"
  let ?s = "s\<lparr>tds := ?h, td_staged_to_free := td\<rparr>"
  have "path (nxt ?h) (thread_list_head s) ls" "path (nxt ?h) (td_staged_to_free s) ss"
    using l td by (auto simp: lists_def intro: path_cong)
  then have "lists ?s ls (td # ss)" using l td by (auto simp: lists_def)
  then show ?thesis
    using that [of ?s] td by (simp add: threadscan_util_thread_data_decr_ref_def)
qed

text \<open>While another thread holds a reference the record stays off the list of records to free.\<close>

lemma decr_ref_shared:
  assumes "tds s td = Some t" "ref_count t \<noteq> 1"
  shows "threadscan_util_thread_data_decr_ref td s =
    Inr (s\<lparr>tds := (tds s)(td \<mapsto> t\<lparr>ref_count := ref_count t - 1\<rparr>)\<rparr>)"
  using assms by (simp add: threadscan_util_thread_data_decr_ref_def)

lemma thread_cleanup_correct:
  assumes l: "lists s ls ss" and me: "me \<in> set ls" "tds s me = Some t" "ref_count t = 1"
  obtains s' t' where "threadscan_thread_cleanup dbg me s = Inr s'" "lists s' (remove1 me ls) (me # ss)"
    "tds s' me = Some t'" "t' = t\<lparr>is_active := False, ref_count := 0, td_next := td_next t'\<rparr>"
    "mem s' = mem s"
    "\<And>p. p \<noteq> me \<Longrightarrow> map_option (td_next_update (\<lambda>_. 0)) (tds s' p) = map_option (td_next_update (\<lambda>_. 0)) (tds s p)"
proof -
  have me0: "me \<noteq> 0" and ns: "me \<notin> set ss" "me \<notin> set (remove1 me ls)" 
    using l me(1) by (auto simp: lists_def dest: path_nonzero)
  define s1 where "s1 = s\<lparr>tds := (tds s)(me \<mapsto> t\<lparr>is_active := False\<rparr>)\<rparr>"
  have l1: "lists s1 ls ss" using l me(2) by (elim lists_cong) (auto simp: s1_def nxt_def)
  obtain s2 where s2: "threadscan_util_thread_list_remove dbg me s1 = Inr s2" "lists s2 (remove1 me ls) ss"
    "\<And>p. map_option (td_next_update (\<lambda>_. 0)) (tds s2 p) = map_option (td_next_update (\<lambda>_. 0)) (tds s1 p)"
    "tds s2 me = tds s1 me" "mem s2 = mem s1"
    using list_remove_correct [OF l1 me(1), of dbg] by metis
  have t2: "tds s2 me = Some (t\<lparr>is_active := False\<rparr>)" using s2(4) by (simp add: s1_def)
  have rc: "ref_count (t\<lparr>is_active := False\<rparr>) = 1" using me(3) by simp
  obtain s3 where s3: "threadscan_util_thread_data_decr_ref me s2 = Inr s3"
    "lists s3 (remove1 me ls) (me # ss)"
    "tds s3 = (tds s2)(me \<mapsto> t\<lparr>is_active := False, ref_count := 0, td_next := td_staged_to_free s2\<rparr>)"
    "mem s3 = mem s2"
    using decr_ref_staged [OF s2(2) ns(2,1) me0 t2 rc] by auto
  have "threadscan_thread_cleanup dbg me s = Inr s3"
    using me0 me(2) s2(1) s3(1)
    by (simp add: threadscan_thread_cleanup_def c_assert_def threadscan_proc_remove_thread_data_def s1_def)
  then show ?thesis
    using that [of s3 "t\<lparr>is_active := False, ref_count := 0, td_next := td_staged_to_free s2\<rparr>"] s2 s3
    by (auto simp: s1_def)
qed

lemma find_staged_correct:
  assumes "path (nxt h) p (us @ td # vs)" "h td = Some t" "self t = tid"
    and "\<And>u tu. u \<in> set us \<Longrightarrow> h u = Some tu \<Longrightarrow> self tu \<noteq> tid"
  shows "loopE (\<lambda>(td, prev). bindE (td_at h td) (\<lambda>t.
     if self t = tid then Inr (Inr (td, prev))
     else bindE (c_assert dbg (td_next t \<noteq> 0)) (\<lambda>_. Inr (Inl (td_next t, td))))) (p, prev) =
   Inr (td, if us = [] then prev else last us)"
  using assms
proof (induction us arbitrary: p prev)
  case Nil
  then show ?case by (subst loopE_unfold) simp
next
  case (Cons u us)
  obtain tu where u: "p = u" "h u = Some tu" "path (nxt h) (td_next tu) (us @ td # vs)"
    using Cons.prems(1) by (auto simp: nxt_Some)
  then have "self tu \<noteq> tid" "td_next tu \<noteq> 0" using Cons.prems(4) [of u tu] by (auto simp: path_0)
  moreover have "self tv \<noteq> tid" if "v \<in> set us" "h v = Some tv" for v tv
    using Cons.prems(4) [of v tv] that by simp
  note rest = Cons.IH [OF u(3) Cons.prems(2,3) this, of _ u]
  ultimately show ?case
    using u by (subst loopE_unfold) (simp add: c_assert_def rest)
qed

subsection \<open>The memory of a thread\<close>

text \<open>
  The blocks a record accounts for: the record itself, the queue's buffer (\<open>bsz\<close> bytes) and the
  stack (\<open>ssz\<close> bytes) if the library allocated it.
\<close>

definition td_blocks :: "size_t \<Rightarrow> size_t \<Rightarrow> size_t \<Rightarrow> thread_data \<Rightarrow> (size_t \<times> size_t) list" where
  "td_blocks bsz ssz td t =
     (if stack_is_ours t then [(user_stack_low t, ssz)] else []) @
     [(ptr_list_e t, bsz), (td, MEMBLOCK_SIZE)]"

lemma thread_data_free_correct:
  assumes td: "tds s td = Some t" "dbg \<longrightarrow> ref_count t = 0" "td \<noteq> 0"
    and m: "alloc_ready k (mem s) D" "(ptr_list_e t, bsz) \<in> D" "(td, MEMBLOCK_SIZE) \<in> D" "ptr_list_e t \<noteq> td"
  shows "returns (threadscan_util_thread_data_free dbg k td s) (\<lambda>s'.
    tds s' = (tds s)(td := None) \<and> thread_list_head s' = thread_list_head s \<and>
    td_staged_to_free s' = td_staged_to_free s \<and>
    alloc_ready k (mem s') (D - {(ptr_list_e t, bsz), (td, MEMBLOCK_SIZE)}))"
proof -
  obtain m1 where m1: "threadscan_alloc_munmap dbg k (ptr_list_e t) (mem s) = Inr m1"
    "alloc_ready k m1 (D - {(ptr_list_e t, bsz)})"
    using m(1,2) by (rule pages.deallocE)
  have td_in: "(td, MEMBLOCK_SIZE) \<in> D - {(ptr_list_e t, bsz)}" using m by auto
  obtain m2 where "threadscan_alloc_munmap dbg k td m1 = Inr m2"
    "alloc_ready k m2 (D - {(ptr_list_e t, bsz)} - {(td, MEMBLOCK_SIZE)})"
    using m1(2) td_in by (rule pages.deallocE)
  then show ?thesis
    using td m1(1) by (simp add: threadscan_util_thread_data_free_def c_assert_def Diff_insert2 [symmetric])
qed

lemma thread_data_cleanup_correct:
  assumes l: "lists s ls (us @ td # vs)" and td: "tds s td = Some t" "self t = tid" "ref_count t = 0"
    and others: "\<And>u tu. u \<in> set us \<Longrightarrow> tds s u = Some tu \<Longrightarrow> self tu \<noteq> tid"
    and m: "alloc_ready k (mem s) D" "set (td_blocks bsz ssz td t) \<subseteq> D" "distinct (map fst (td_blocks bsz ssz td t))"
  shows "returns (threadscan_util_thread_data_cleanup dbg k tid s) (\<lambda>s'.
    lists s' ls (us @ vs) \<and> tds s' td = None \<and> alloc_ready k (mem s') (D - set (td_blocks bsz ssz td t)))"
proof -
  have p: "path (nxt (tds s)) (td_staged_to_free s) (us @ td # vs)" and d: "distinct (ls @ us @ td # vs)"
    using l by (auto simp: lists_def)
  have nz: "td \<noteq> 0" "0 \<notin> set us" using path_nonzero [OF p] by auto
  have hd0: "td_staged_to_free s \<noteq> 0" using p by (auto simp: path_0)
  define prev where "prev = (if us = [] then 0 else last us)"
  have fs: "find_staged dbg (tds s) tid (td_staged_to_free s) = Inr (td, prev)"
    unfolding find_staged_def prev_def by (rule find_staged_correct [OF p td(1,2) others])
  have tail: "path (nxt (tds s)) (td_next t) vs" using path_split [OF p] td(1) by (auto simp: nxt_Some)
  obtain s1 where s1: "(if prev \<noteq> 0 then upd_td prev (\<lambda>l. l\<lparr>td_next := td_next t\<rparr>) s
      else Inr (s\<lparr>td_staged_to_free := td_next t\<rparr>)) = Inr s1"
    "lists s1 ls (us @ vs)" "tds s1 td = Some t" "mem s1 = mem s"
  proof (cases us rule: rev_cases)
    case Nil
    then have "lists (s\<lparr>td_staged_to_free := td_next t\<rparr>) ls (us @ vs)"
      using l tail by (auto simp: lists_def)
    then show ?thesis using that [of "s\<lparr>td_staged_to_free := td_next t\<rparr>"] td Nil by (simp add: prev_def)
  next
    case (snoc us' u)
    obtain tu where tu: "tds s u = Some tu" using lists_SomeD [OF l, of u] by (auto simp: snoc)
    let ?h = "(tds s)(u \<mapsto> tu\<lparr>td_next := td_next t\<rparr>)"
    let ?s = "s\<lparr>tds := ?h\<rparr>"
    have du: "u \<notin> set ls" "u \<notin> set vs" "u \<noteq> td" "u \<noteq> 0" "distinct (us' @ u # td # vs)"
      using d nz by (auto simp: snoc)
    have "path (nxt ?h) (td_staged_to_free s) (us' @ u # vs)"
      by (rule path_unlink [of "nxt (tds s)" _ us' u td vs]) (use p du td in \<open>auto simp: snoc nxt_Some\<close>)
    moreover have "path (nxt ?h) (thread_list_head s) ls" using l du by (auto simp: lists_def intro: path_cong)
    ultimately have "lists ?s ls (us @ vs)" using d by (auto simp: lists_def snoc)
    then show ?thesis using that [of ?s] td tu du by (simp add: prev_def snoc)
  qed
  define D' where "D' = D - set (if stack_is_ours t then [(user_stack_low t, ssz)] else [])"
  obtain m' where m': "(if stack_is_ours t
      then bindE (threadscan_alloc_munmap dbg k (user_stack_low t) (mem s1)) (\<lambda>m. Inr (s1\<lparr>mem := m\<rparr>))
      else Inr s1) = Inr (s1\<lparr>mem := m'\<rparr>)" "alloc_ready k m' D'"
  proof (cases "stack_is_ours t")
    case True
    then have st_in: "(user_stack_low t, ssz) \<in> D" using m(2) by (simp add: td_blocks_def)
    obtain m' where "threadscan_alloc_munmap dbg k (user_stack_low t) (mem s) = Inr m'"
      "alloc_ready k m' (D - {(user_stack_low t, ssz)})"
      using m(1) st_in by (rule pages.deallocE)
    then show ?thesis using that True s1(4) by (simp add: D'_def)
  next
    case False
    then show ?thesis using that [of "mem s"] m(1) s1(4) by (simp add: D'_def)
  qed
  have "returns (threadscan_util_thread_data_free dbg k td (s1\<lparr>mem := m'\<rparr>)) (\<lambda>s'.
    tds s' = (tds (s1\<lparr>mem := m'\<rparr>))(td := None) \<and> thread_list_head s' = thread_list_head (s1\<lparr>mem := m'\<rparr>) \<and>
    td_staged_to_free s' = td_staged_to_free (s1\<lparr>mem := m'\<rparr>) \<and>
    alloc_ready k (mem s') (D' - {(ptr_list_e t, bsz), (td, MEMBLOCK_SIZE)}))"
    using s1(3) td(3) nz(1) m'(2) m(2,3)
    by (intro thread_data_free_correct [where t = t]) (auto simp: td_blocks_def D'_def split: if_splits)
  then obtain s2 where s2: "threadscan_util_thread_data_free dbg k td (s1\<lparr>mem := m'\<rparr>) = Inr s2"
    "tds s2 = (tds s1)(td := None)" "thread_list_head s2 = thread_list_head s1"
    "td_staged_to_free s2 = td_staged_to_free s1"
    "alloc_ready k (mem s2) (D' - {(ptr_list_e t, bsz), (td, MEMBLOCK_SIZE)})"
    by (auto elim!: returnsE)
  have "lists s2 ls (us @ vs)"
    using s1(2) d s2(2,3,4) by (elim lists_cong) (auto simp: nxt_def)
  moreover have "D' - {(ptr_list_e t, bsz), (td, MEMBLOCK_SIZE)} = D - set (td_blocks bsz ssz td t)"
    by (auto simp: D'_def td_blocks_def)
  moreover have "threadscan_util_thread_data_cleanup dbg k tid s = Inr s2"
    using hd0 fs td(1,3) s1(1) m'(1) s2(1) unfolding threadscan_util_thread_data_cleanup_def
    by (simp add: c_assert_def)
  ultimately show ?thesis using s2 by simp
qed

subsection \<open>A new record\<close>

text \<open>The values \<^verbatim>\<open>env_init\<close> can give \<^verbatim>\<open>g_threadscan_ptrs_per_thread\<close>.\<close>

definition ptrs_ok :: "int \<Rightarrow> bool" where
  "ptrs_ok n \<longleftrightarrow> (\<exists>j. 10 \<le> j \<and> j \<le> 15 \<and> n = 2 ^ j)"

lemma ptrs_ok_env_init: "ptrs_ok (fst (env_init val))"
  using env_init_pow2 [of val] by (auto simp: ptrs_ok_def)

lemma ptrs_ok_bounds:
  assumes "ptrs_ok n"
  shows "1024 \<le> n" "n \<le> 32768" "\<exists>m. n = 1024 * m \<and> 1 \<le> m \<and> m \<le> 32"
proof -
  obtain j where j: "10 \<le> j" "j \<le> 15" "n = 2 ^ j" using assms by (auto simp: ptrs_ok_def)
  have "(2::int) ^ 10 \<le> 2 ^ j" "(2::int) ^ j \<le> 2 ^ 15"
    by (intro power_increasing; use j in simp)+
  then show b: "1024 \<le> n" "n \<le> 32768" by (simp_all add: j(3))
  have "n = 2 ^ 10 * 2 ^ (j - 10)" using j(1) by (simp only: j(3) power_add [symmetric]) simp
  then show "\<exists>m. n = 1024 * m \<and> 1 \<le> m \<and> m \<le> 32" using b by (intro exI [of _ "2 ^ (j - 10)"]) auto
qed

lemma ptrs_ok_unat: "ptrs_ok n \<Longrightarrow> unat (of_int n :: size_t) = nat n"
  using ptrs_ok_bounds [of n] by (simp add: unat_eq_nat_uint unsigned_of_int take_bit_int_eq_self)

lemma ptrs_ok_buffer:
  assumes "ptrs_ok n"
  shows "unat (of_int n * 8 :: size_t) = nat n * 8" "(of_int n * 8 :: size_t) \<noteq> 0"
    "(of_int n * 8 :: size_t) mod PAGESIZE = 0"
proof -
  show u: "unat (of_int n * 8 :: size_t) = nat n * 8"
    using ptrs_ok_unat [OF assms] ptrs_ok_bounds(2) [OF assms] by (simp add: unat_word_ariths)
  then show "(of_int n * 8 :: size_t) \<noteq> 0" using ptrs_ok_bounds(1) [OF assms] by (intro notI) simp
  obtain m where m: "n = 1024 * m" "1 \<le> m" using ptrs_ok_bounds(3) [OF assms] by blast
  have "unat ((of_int n * 8 :: size_t) mod PAGESIZE) = nat n * 8 mod 4096"
    by (simp only: unat_mod_distrib u) (simp add: PAGESIZE_def)
  also have "\<dots> = 0" using m by (simp add: nat_mult_distrib)
  finally show "(of_int n * 8 :: size_t) mod PAGESIZE = 0" by (simp only: unat_eq_zero)
qed

text \<open>The record a new thread starts with.\<close>

definition fresh_td :: "int \<Rightarrow> size_t \<Rightarrow> thread_data" where
  "fresh_td n e = zero_td
     \<lparr>ptr_list := threadscan_queue_init (replicate (nat n) 0) (of_int n), ptr_list_e := e, ref_count := 1\<rparr>"

lemma fresh_td_queue:
  assumes "ptrs_ok n"
  shows "q_ok (ptr_list (fresh_td n e))" "q_list (ptr_list (fresh_td n e)) = []"
    "capacity (ptr_list (fresh_td n e)) = of_int n" "idx_head (ptr_list (fresh_td n e)) = 0"
proof -
  let ?q = "threadscan_queue_init (replicate (nat n) 0) (of_int n)"
  have u: "unat (of_int n :: size_t) = nat n" by (rule ptrs_ok_unat [OF assms])
  obtain j where j: "10 \<le> j" "j \<le> 15" "n = 2 ^ j" using assms by (auto simp: ptrs_ok_def)
  have "\<exists>k < 63. unat (of_int n :: size_t) = 2 ^ k"
    using j u by (intro exI [of _ j]) (simp add: nat_power_eq)
  then have "q_inv ?q" "q_nowrap ?q" "q_list ?q = []"
    using threadscan_queue_init_correct [of "of_int n" "replicate (nat n) 0"] u by simp_all
  then show "q_ok (ptr_list (fresh_td n e))" "q_list (ptr_list (fresh_td n e)) = []"
    "capacity (ptr_list (fresh_td n e)) = of_int n" "idx_head (ptr_list (fresh_td n e)) = 0"
    using u ptrs_ok_bounds(2) [OF assms] by (simp_all add: fresh_td_def q_ok_def threadscan_queue_init_def)
qed

lemma thread_data_new_correct:
  assumes m: "alloc_ready k (mem s) D" and n: "ptrs_ok n"
  shows "okay (mmap_fails k) (threadscan_util_thread_data_new dbg k n s) (\<lambda>(td, s').
    \<exists>e. tds s' = (tds s)(td \<mapsto> fresh_td n e) \<and> thread_list_head s' = thread_list_head s \<and>
      td_staged_to_free s' = td_staged_to_free s \<and> td \<noteq> 0 \<and> e \<noteq> td \<and>
      (\<forall>r \<in> D. apart r (td, MEMBLOCK_SIZE) \<and> apart r (e, of_int n * 8)) \<and>
      alloc_ready k (mem s') ({(e, of_int n * 8), (td, MEMBLOCK_SIZE)} \<union> D))"
    (is "okay _ _ ?P")
proof -
  have mb: "MEMBLOCK_SIZE \<noteq> 0" "MEMBLOCK_SIZE mod PAGESIZE = 0"
    by (simp_all add: MEMBLOCK_SIZE_def PAGESIZE_def)
  let ?two = "bindE (threadscan_alloc_mmap dbg k MEMBLOCK_SIZE (mem s)) (\<lambda>(p, m).
    bindE (threadscan_alloc_mmap dbg k (of_int n * 8) m) (\<lambda>(p', m). Inr (p, p', m)))"
  have eq: "threadscan_util_thread_data_new dbg k n s =
      bindE ?two (\<lambda>(td, e, m). Inr (td, s\<lparr>mem := m, tds := (tds s)(td \<mapsto> fresh_td n e)\<rparr>))"
    by (simp add: threadscan_util_thread_data_new_def bindE_assoc fresh_td_def zero_td_def Let_def split_def)
  show ?thesis unfolding eq
  proof (rule okay_bindE [OF pages.alloc_two [OF m mb ptrs_ok_buffer(2,3) [OF n]]], clarify del: mod_0_imp_dvd, goal_cases)
    case (1 td e m')
    have "td \<noteq> e"
      using 1(4,5,6) unat_eq_zero [of MEMBLOCK_SIZE] unat_eq_zero [of "of_int n * 8 :: size_t"]
      by (auto simp: block_ok_def apart_def before_def)
    then show ?case using 1 by (auto simp: block_ok_def)
  qed
qed

subsection \<open>Lookup by stack address\<close>

definition on_stack :: "size_t \<Rightarrow> thread_data \<Rightarrow> bool" where
  "on_stack addr t \<longleftrightarrow> addr \<ge> user_stack_low t \<and> addr < user_stack_high t"

lemma find_loop:
  assumes "path (nxt h) p xs"
  shows "loopE (\<lambda>ret. if ret = 0 then Inr (Inr 0)
      else bindE (td_at h ret) (\<lambda>t.
        if addr \<ge> user_stack_low t \<and> addr < user_stack_high t then Inr (Inr ret)
        else Inr (Inl (td_next t)))) p =
    Inr (case List.find (\<lambda>td. on_stack addr (the (h td))) xs of None \<Rightarrow> 0 | Some td \<Rightarrow> td)"
  using assms
proof (induction xs arbitrary: p)
  case Nil
  then show ?case by (subst loopE_unfold) simp
next
  case (Cons x xs)
  then obtain t where t: "p = x" "x \<noteq> 0" "h x = Some t" "path (nxt h) (td_next t) xs" by (auto simp: nxt_Some)
  then show ?case using Cons.IH [OF t(4)] by (subst loopE_unfold) (simp add: on_stack_def)
qed

lemma thread_list_find_eq:
  assumes l: "lists s ls ss"
  shows "threadscan_util_thread_list_find addr s =
    (case List.find (\<lambda>td. on_stack addr (the (tds s td))) ls of
       None \<Rightarrow> Inr (0, s)
     | Some td \<Rightarrow> Inr (td, s\<lparr>tds := (tds s)(td \<mapsto> (the (tds s td))\<lparr>ref_count := ref_count (the (tds s td)) + 1\<rparr>)\<rparr>))"
proof (cases "List.find (\<lambda>td. on_stack addr (the (tds s td))) ls")
  case None
  then show ?thesis
    using l find_loop [of "tds s" "thread_list_head s" ls addr]
    by (simp add: threadscan_util_thread_list_find_def lists_def)
next
  case (Some td)
  then have "td \<in> set ls" by (auto simp: find_Some_iff)
  then obtain t where "tds s td = Some t" "td \<noteq> 0"
    using lists_SomeD [OF l, of td] l by (auto simp: lists_def dest: path_nonzero)
  then show ?thesis
    using Some l find_loop [of "tds s" "thread_list_head s" ls addr]
    by (simp add: threadscan_util_thread_list_find_def lists_def)
qed

subsection \<open>A record that is not staged\<close>

lemma find_staged_absent:
  assumes "path (nxt h) p xs" "p \<noteq> 0" "h 0 = None"
    and "\<And>u t. u \<in> set xs \<Longrightarrow> h u = Some t \<Longrightarrow> self t \<noteq> tid"
  shows "loopE (\<lambda>(td, prev). bindE (td_at h td) (\<lambda>t.
     if self t = tid then Inr (Inr (td, prev))
     else bindE (c_assert dbg (td_next t \<noteq> 0)) (\<lambda>_. Inr (Inl (td_next t, td))))) (p, prev) =
   Inl (if dbg then Assert_failed else Bad_access)"
  using assms
proof (induction xs arbitrary: p prev)
  case (Cons x xs)
  obtain t where t: "p = x" "h x = Some t" "path (nxt h) (td_next t) xs"
    using Cons.prems(1) by (auto simp: nxt_Some)
  have ne: "self t \<noteq> tid" using Cons.prems(4) [of x t] t by simp
  show ?case
  proof (cases "td_next t = 0")
    case True
    have null: "loopE (\<lambda>(td, prev). bindE (td_at h td) (\<lambda>t.
        if self t = tid then Inr (Inr (td, prev))
        else bindE (c_assert dbg (td_next t \<noteq> 0)) (\<lambda>_. Inr (Inl (td_next t, td))))) (td_next t, x) =
        Inl Bad_access"
      using Cons.prems(3) True by (subst loopE_unfold) (simp add: td_at_def)
    have "c_assert dbg (td_next t \<noteq> 0) = (if dbg then Inl Assert_failed else Inr ())"
      by (simp add: c_assert_def True)
    then show ?thesis using t ne by (subst loopE_unfold) (simp add: null)
  next
    case False
    moreover have "self t' \<noteq> tid" if "u \<in> set xs" "h u = Some t'" for u t'
      using Cons.prems(4) [of u t'] that by simp
    note rest = Cons.IH [OF t(3) False Cons.prems(3) this]
    ultimately show ?thesis using t ne by (subst loopE_unfold) (simp add: c_assert_def rest)
  qed
qed simp


subsection \<open>Properties\<close>

text \<open>A process with one live thread whose blocks come from the allocator state of the examples.\<close>

definition example_td :: thread_data where
  "example_td = zero_td\<lparr>self := 7, user_stack_low := 0x20000, user_stack_high := 0x30000, is_active := True,
     ptr_list_e := 0x6000, ref_count := 1\<rparr>"

definition example_proc :: "simple_os proc_state" where
  "example_proc =
     \<lparr>tds = [0x5000 \<mapsto> example_td], thread_list_head = 0x5000, td_staged_to_free = 0, global_timestamp = 1,
      mem = \<lparr>nodes =
        [0x1000 \<mapsto> \<lparr>m_addr = 0x1000, m_length = 4096, m_next = 0x1020, m_prev = 0x1040\<rparr>,
         0x1020 \<mapsto> \<lparr>m_addr = 0x5000, m_length = 4096, m_next = 0x1040, m_prev = 0x1000\<rparr>,
         0x1040 \<mapsto> \<lparr>m_addr = 0x6000, m_length = 8192, m_next = 0x1000, m_prev = 0x1020\<rparr>],
      free_list = 0, alloc_list = 0x1000, os = [(0x1000, 4096), (0x5000, 4096), (0x6000, 8192)]\<rparr>\<rparr>"

lemma example_proc_lists: "lists example_proc [0x5000] []"
  by (simp add: lists_def example_proc_def nxt_def example_td_def zero_td_def)

lemma example_proc_inv: "alloc_inv simple_kernel (mem example_proc) [0x1000, 0x1020, 0x1040] []"
  by (simp add: alloc_inv_def alloc_ring_def example_proc_def ring_def blocks_ok_def block_ok_def
      before_def reg_def region_def in_node_page_def simple_kernel_def ALLOC_BLOCKSIZE_def PAGESIZE_def)

lemma example_proc_ready: "alloc_ready simple_kernel (mem example_proc) {(0x5000, 4096), (0x6000, 8192)}"
proof -
  have "{n \<in> set [0x1000, 0x1020, 0x1040]. fst (reg (nodes (mem example_proc)) n) \<noteq> n} = {0x1020, 0x1040}"
    by (auto simp: example_proc_def reg_def region_def)
  then have "client (nodes (mem example_proc)) [0x1000, 0x1020, 0x1040] = {(0x5000, 4096), (0x6000, 8192)}"
    by (simp add: client_def) (simp add: example_proc_def reg_def region_def)
  then show ?thesis
    using example_proc_inv simple_kernel_ok unfolding alloc_ready_def alloc_abs_def by blast
qed

text \<open>
  (C15) The end of a thread: \<^verbatim>\<open>threadscan_thread_cleanup\<close> by the exiting thread takes it off the list of
  live threads, wherever it is, and the \<^verbatim>\<open>threadscan_util_thread_data_cleanup\<close> of \<^verbatim>\<open>pthread_join\<close> then
  unmaps exactly the blocks that belonged to it: its record, its queue buffer, and its stack if the
  library had allocated it. All other threads and blocks stay.
\<close>

theorem thread_exit_join_releases:
  assumes "lists s ls ss" and "me \<in> set ls" and "tds s me = Some t" and "ref_count t = 1" and "self t = tid"
    and "alloc_ready k (mem s) D" and "set (td_blocks bsz ssz me t) \<subseteq> D"
    and "distinct (map fst (td_blocks bsz ssz me t))"
  shows "returns (bindE (threadscan_thread_cleanup dbg me s) (threadscan_util_thread_data_cleanup dbg k tid))
    (\<lambda>s'. lists s' (remove1 me ls) ss \<and> tds s' me = None \<and>
      alloc_ready k (mem s') (D - set (td_blocks bsz ssz me t)))"
proof -
  obtain s1 t1 where s1: "threadscan_thread_cleanup dbg me s = Inr s1" "lists s1 (remove1 me ls) (me # ss)"
    "tds s1 me = Some t1" "t1 = t\<lparr>is_active := False, ref_count := 0, td_next := td_next t1\<rparr>" "mem s1 = mem s"
    using thread_cleanup_correct [OF assms(1-4), of dbg] by metis
  have t1: "self t1 = tid" "ref_count t1 = 0" "td_blocks bsz ssz me t1 = td_blocks bsz ssz me t"
    by (subst s1(4), simp add: assms(5) td_blocks_def)+
  show ?thesis
    using thread_data_cleanup_correct [of s1 "remove1 me ls" "[]" me ss t1 tid k D bsz ssz dbg] s1 t1 assms by simp
qed

theorem thread_exit_join_releases_witness:
  "returns (bindE (threadscan_thread_cleanup True 0x5000 example_proc)
      (threadscan_util_thread_data_cleanup True simple_kernel 7))
    (\<lambda>s'. lists s' (remove1 0x5000 [0x5000]) [] \<and> tds s' 0x5000 = None \<and>
      alloc_ready simple_kernel (mem s')
        ({(0x5000, 4096), (0x6000, 8192)} - set (td_blocks 8192 0 0x5000 example_td)))"
  by (rule thread_exit_join_releases [OF example_proc_lists _ _ _ _ example_proc_ready])
     (simp_all add: example_proc_def example_td_def zero_td_def td_blocks_def MEMBLOCK_SIZE_def PAGESIZE_def)

text \<open>
  \<^verbatim>\<open>threadscan_util_thread_data_new\<close> gives a record with a reference count of one, an empty queue
  in its invariant, and two blocks that overlap nothing the library owned; the lists of threads do not
  change. The number of pointers per thread is any that \<^verbatim>\<open>env_init\<close> can produce.
\<close>

theorem thread_data_new_fresh:
  assumes "alloc_ready k (mem s) D" and "n = fst (env_init val)"
  shows "okay (mmap_fails k) (threadscan_util_thread_data_new dbg k n s) (\<lambda>(td, s').
    \<exists>t. tds s' = (tds s)(td \<mapsto> t) \<and> ref_count t = 1 \<and> q_ok (ptr_list t) \<and> q_list (ptr_list t) = [] \<and>
      thread_list_head s' = thread_list_head s \<and> td_staged_to_free s' = td_staged_to_free s \<and> td \<noteq> 0 \<and>
      (\<forall>r \<in> D. apart r (td, MEMBLOCK_SIZE) \<and> apart r (ptr_list_e t, of_int n * 8)) \<and>
      alloc_ready k (mem s') ({(ptr_list_e t, of_int n * 8), (td, MEMBLOCK_SIZE)} \<union> D))"
proof -
  have n: "ptrs_ok n" using ptrs_ok_env_init by (simp add: assms(2))
  show ?thesis
  proof (rule okay_mono [OF thread_data_new_correct [OF assms(1) n]], clarify, goal_cases)
    case (1 td s' e)
    then show ?case
      using fresh_td_queue [OF n, of e]
      by (intro exI [of _ "fresh_td n e"]) (simp add: fresh_td_def)
  qed
qed

theorem thread_data_new_fresh_witness:
  "okay (mmap_fails simple_kernel)
    (threadscan_util_thread_data_new True simple_kernel (fst (env_init None)) example_proc) (\<lambda>(td, s').
    \<exists>t. tds s' = (tds example_proc)(td \<mapsto> t) \<and> ref_count t = 1 \<and> q_ok (ptr_list t) \<and> q_list (ptr_list t) = [] \<and>
      thread_list_head s' = thread_list_head example_proc \<and>
      td_staged_to_free s' = td_staged_to_free example_proc \<and> td \<noteq> 0 \<and>
      (\<forall>r \<in> {(0x5000, 4096), (0x6000, 8192)}. apart r (td, MEMBLOCK_SIZE) \<and>
         apart r (ptr_list_e t, of_int (fst (env_init None)) * 8)) \<and>
      alloc_ready simple_kernel (mem s') ({(ptr_list_e t, of_int (fst (env_init None)) * 8), (td, MEMBLOCK_SIZE)} \<union>
        {(0x5000, 4096), (0x6000, 8192)}))"
  by (rule thread_data_new_fresh [OF example_proc_ready refl])

text \<open>
  (C26) \<^verbatim>\<open>threadscan_proc_signal_all_except\<close> signals every active thread but the caller exactly once, in
  list order, and returns how many will answer. A thread that is gone (\<^verbatim>\<open>ESRCH\<close>) is not counted, so
  that the reclaiming thread does not wait for it.
\<close>

theorem signal_all_but_me_exact:
  assumes "lists s ls ss" and "me \<noteq> 0"
    and "\<forall>td \<in> set ls. \<forall>t. tds s td = Some t \<longrightarrow> pthread_kill (self t) \<noteq> EINVAL"
  shows "threadscan_thread_signal_all_but_me dbg pthread_kill me s =
    Inr (int (length (filter (signalled pthread_kill (tds s) me) ls)),
         filter (signalled pthread_kill (tds s) me) ls)"
  using signal_all_except_eq [OF assms(1), of pthread_kill me] assms
  by (simp add: threadscan_thread_signal_all_but_me_def c_assert_def)

theorem signal_all_but_me_exact_witness:
  "threadscan_thread_signal_all_but_me True (\<lambda>_. 0) 0x9000 example_proc =
    Inr (int (length (filter (signalled (\<lambda>_. 0) (tds example_proc) 0x9000) [0x5000])),
         filter (signalled (\<lambda>_. 0) (tds example_proc) 0x9000) [0x5000])"
  by (rule signal_all_but_me_exact [OF example_proc_lists]) (simp_all add: EINVAL_def)

text \<open>
  (C30) Joining a thread whose record is not on the list of exited threads walks off the end of that
  list: a debug build fails an assertion, a release build dereferences the null pointer. The wrapper
  of \<^verbatim>\<open>pthread_join\<close> calls it also when the original \<^verbatim>\<open>pthread_join\<close> has failed.
\<close>

theorem cleanup_unstaged_faults:
  assumes "lists s ls ss" and "tds s 0 = None"
    and "\<forall>td \<in> set ss. \<forall>t. tds s td = Some t \<longrightarrow> self t \<noteq> tid"
  shows "threadscan_util_thread_data_cleanup dbg k tid s = Inl (if dbg then Assert_failed else Bad_access)"
proof (cases "td_staged_to_free s = 0")
  case True
  have "find_staged False (tds s) tid 0 = Inl Bad_access"
    unfolding find_staged_def using assms(2) by (subst loopE_unfold) (simp add: td_at_def)
  then show ?thesis using True
    by (cases dbg) (simp_all add: threadscan_util_thread_data_cleanup_def c_assert_def)
next
  case False
  have "path (nxt (tds s)) (td_staged_to_free s) ss" using assms(1) by (simp add: lists_def)
  then have "find_staged dbg (tds s) tid (td_staged_to_free s) = Inl (if dbg then Assert_failed else Bad_access)"
    unfolding find_staged_def using assms(2,3) False by (intro find_staged_absent [where h = "tds s" and xs = ss]) auto
  then show ?thesis using False by (simp add: threadscan_util_thread_data_cleanup_def c_assert_def)
qed

theorem cleanup_unstaged_faults_witness:
  "threadscan_util_thread_data_cleanup False simple_kernel 7 example_proc =
   Inl (if False then Assert_failed else Bad_access)"
  by (rule cleanup_unstaged_faults [OF example_proc_lists]) (simp_all add: example_proc_def)

text \<open>
  \<^verbatim>\<open>threadscan_util_thread_list_find\<close> returns the first live thread on whose stack the address lies
  and raises that thread's reference count and nothing else; if there is none it returns null and
  changes nothing.
\<close>

theorem thread_list_find_exact:
  assumes "lists s ls ss"
  shows "threadscan_util_thread_list_find addr s =
    (case List.find (\<lambda>td. on_stack addr (the (tds s td))) ls of
       None \<Rightarrow> Inr (0, s)
     | Some td \<Rightarrow> Inr (td, s\<lparr>tds := (tds s)(td \<mapsto> (the (tds s td))\<lparr>ref_count := ref_count (the (tds s td)) + 1\<rparr>)\<rparr>))"
  using assms by (rule thread_list_find_eq)

theorem thread_list_find_exact_witness:
  "threadscan_util_thread_list_find 0x20010 example_proc =
    Inr (0x5000, example_proc\<lparr>tds := (tds example_proc)(0x5000 \<mapsto> example_td\<lparr>ref_count := 2\<rparr>)\<rparr>)"
  using thread_list_find_exact [where addr = "0x20010", OF example_proc_lists]
  by (simp add: on_stack_def example_proc_def example_td_def)

end
