(* ===== verification/TS_Reclaim.thy ===== *)
theory TS_Reclaim
  imports TS_Thread TS_Sort
begin

text \<open>
  A reclamation of \<^verbatim>\<open>threadscan.c\<close> from beginning to end: collecting the addresses of all threads and
  the leftovers of earlier rounds in the working buffer, sorting them, scanning the stacks and local
  blocks of all threads, freeing what was not found and storing the rest; and the interface functions
  \<^verbatim>\<open>threadscan_collect\<close> and \<^verbatim>\<open>threadscan_register_local_block\<close>.

  The state holds \<^verbatim>\<open>g_tsdata\<close>, the contents of the blocks that hold addresses (as lists of words), and
  the state of the other components. The calls of \<^verbatim>\<open>free\<close> are recorded in order. One reclamation is
  one sequence of steps here; the threads that answer the signal run one after the other, in an order
  that is a parameter.
\<close>

subsection \<open>Data\<close>

record 'o ts_state =
  g_tsdata :: threadscan_data
  self_stacks_searched :: int
  bufs :: "size_t \<rightharpoonup> size_t list"
  proc :: "'o proc_state"
  freed :: "size_t list"

text \<open>
  The surroundings of a reclamation: the kernel, the results of \<^verbatim>\<open>pthread_kill\<close>, the memory of the
  program, the stack pointer with which each thread scans, and the order in which the signalled
  threads run their handlers.
\<close>

record 'o world =
  w_kernel :: "'o kernel"
  w_kill :: "size_t \<Rightarrow> int"
  w_memory :: "size_t \<rightharpoonup> size_t"
  w_rsp :: "size_t \<Rightarrow> size_t"
  w_order :: "size_t list \<Rightarrow> size_t list"

text \<open>The contents of a block, as the array at its first address.\<close>

definition buf_at :: "'o ts_state \<Rightarrow> size_t \<Rightarrow> size_t list res" where
  "buf_at s p = (case bufs s p of None \<Rightarrow> Inl Bad_access | Some a \<Rightarrow> Inr a)"

definition set_buf :: "size_t \<Rightarrow> size_t list \<Rightarrow> 'o ts_state \<Rightarrow> 'o ts_state" where
  "set_buf p a s = s\<lparr>bufs := (bufs s)(p \<mapsto> a)\<rparr>"

text \<open>Running an operation on the state of the threads, or on \<^verbatim>\<open>g_tsdata\<close>.\<close>

definition on_proc :: "('o proc_state \<Rightarrow> 'o proc_state res) \<Rightarrow> 'o ts_state \<Rightarrow> 'o ts_state res" where
  "on_proc f s = bindE (f (proc s)) (\<lambda>p. Inr (s\<lparr>proc := p\<rparr>))"

text \<open>\<^verbatim>\<open>threadscan_alloc_munmap\<close> of a block that holds addresses; its contents are gone.\<close>

definition drop_buf :: "bool \<Rightarrow> 'o kernel \<Rightarrow> size_t \<Rightarrow> 'o ts_state \<Rightarrow> 'o ts_state res" where
  "drop_buf dbg k p s =
     bindE (threadscan_alloc_munmap dbg k p (mem (proc s))) (\<lambda>m.
     Inr (s\<lparr>proc := (proc s)\<lparr>mem := m\<rparr>, bufs := (bufs s)(p := None)\<rparr>))"

subsection \<open>Pointer tracking\<close>

definition assign_working_space :: "size_t \<Rightarrow> threadscan_data \<Rightarrow> threadscan_data" where
  "assign_working_space buf ts = ts\<lparr>buf_addrs := buf, buf_scan_map := buf + offset_list ts ! 0\<rparr>"

text \<open>
  \<^verbatim>\<open>store_remaining_addrs\<close>: the first two addresses move behind the last, and their space becomes the
  fields \<^verbatim>\<open>next\<close> and \<^verbatim>\<open>length\<close> of an \<^verbatim>\<open>addr_storage_t\<close>, which is pushed on the list \<^verbatim>\<open>storage\<close>.
\<close>

definition store_remaining_addrs ::
  "bool \<Rightarrow> 'o kernel \<Rightarrow> size_t \<Rightarrow> int \<Rightarrow> 'o ts_state \<Rightarrow> 'o ts_state res" where
  "store_remaining_addrs dbg k addrs n s =
     (if n = 0 then drop_buf dbg k addrs s
      else if n + 2 > max_ptrs (g_tsdata s) * 2
      then Inl (Fatal ''threadscan internal error: Ran out of storage space.'')
      else
        bindE (buf_at s addrs) (\<lambda>a.
        bindE (rd a 0) (\<lambda>v. bindE (wr a n v) (\<lambda>a.
        bindE (rd a 1) (\<lambda>v. bindE (wr a (n + 1) v) (\<lambda>a.
        bindE (wr a 1 (of_int n)) (\<lambda>a.
        bindE (wr a 0 (storage (g_tsdata s))) (\<lambda>a.
        Inr (set_buf addrs a (s\<lparr>g_tsdata := (g_tsdata s)\<lparr>storage := addrs\<rparr>\<rparr>))))))))))"

text \<open>\<^verbatim>\<open>add_to_buf_addrs\<close>: \<open>src\<close> is the array \<^verbatim>\<open>buf\<close>, \<open>mx\<close> the number of addresses to copy.\<close>

definition add_to_buf_addrs ::
  "int \<Rightarrow> size_t list \<Rightarrow> int \<Rightarrow> 'o ts_state \<Rightarrow> (int \<times> 'o ts_state) res" where
  "add_to_buf_addrs n src mx s =
     (if n + mx > max_ptrs (g_tsdata s) * 2
      then Inl (Fatal ''threadscan internal error: overflowed address list.'')
      else
        bindE (buf_at s (buf_addrs (g_tsdata s))) (\<lambda>a.
        bindE (memcpy a (nat n) src 0 (nat mx)) (\<lambda>a.
        Inr (n + mx, set_buf (buf_addrs (g_tsdata s)) a s))))"

text \<open>The loop over the leftovers; \<open>leftovers\<close> is the block of the next \<^verbatim>\<open>addr_storage_t\<close>.\<close>

definition add_leftovers ::
  "bool \<Rightarrow> 'o kernel \<Rightarrow> size_t \<Rightarrow> int \<Rightarrow> 'o ts_state \<Rightarrow> (int \<times> 'o ts_state) res" where
  "add_leftovers dbg k leftovers n s = loopE (\<lambda>(leftovers, n, s).
     if leftovers = 0 then Inr (Inr (n, s))
     else
       bindE (buf_at s leftovers) (\<lambda>l.
       bindE (rd l 1) (\<lambda>len.
       bindE (add_to_buf_addrs n (drop 2 l) (sint (ucast len :: 32 word)) s) (\<lambda>(n, s).
       bindE (rd l 0) (\<lambda>next.
       bindE (drop_buf dbg k leftovers s) (\<lambda>s.
       Inr (Inl (next, n, s)))))))) (leftovers, n, s)"

text \<open>The loop over the threads: \<open>n\<close> addresses are in the buffer so far.\<close>

definition pop_thread ::
  "bool \<Rightarrow> size_t \<Rightarrow> int \<times> 'o ts_state \<Rightarrow> (int \<times> 'o ts_state) res" where
  "pop_thread dbg td = (\<lambda>(n, s).
     bindE (td_at (tds (proc s)) td) (\<lambda>t.
     bindE (buf_at s (buf_addrs (g_tsdata s))) (\<lambda>a.
     bindE (threadscan_queue_pop_bulk dbg a (nat n) (of_int (max_ptrs (g_tsdata s) * 2 - n)) (ptr_list t)) (\<lambda>(m, a, q).
     bindE (on_proc (upd_td td (\<lambda>t. t\<lparr>ptr_list := q\<rparr>)) (set_buf (buf_addrs (g_tsdata s)) a s)) (\<lambda>s.
     Inr (n + m, s))))))"

definition generate_working_pointers_list ::
  "bool \<Rightarrow> 'o kernel \<Rightarrow> 'o ts_state \<Rightarrow> (int \<times> 'o ts_state) res" where
  "generate_working_pointers_list dbg k s =
     (let leftovers = storage (g_tsdata s);
          s = s\<lparr>g_tsdata := (g_tsdata s)\<lparr>storage := 0\<rparr>\<rparr> in
      bindE (add_leftovers dbg k leftovers 0 s) (\<lambda>(n, s).
      FOREACH_IN_THREAD_LIST (\<lambda>(n, s). tds (proc s)) (pop_thread dbg)
        (thread_list_head (proc s)) (n, s)))"

subsection \<open>The scan by one thread\<close>

definition search_buf ::
  "bool \<Rightarrow> 'o world \<Rightarrow> mem_range \<Rightarrow> 'o ts_state \<Rightarrow> 'o ts_state res" where
  "search_buf dbg w r s =
     bindE (buf_at s (buf_addrs (g_tsdata s))) (\<lambda>a.
     bindE (search_range dbg (g_tsdata s) (w_memory w) r a) (\<lambda>a.
     Inr (set_buf (buf_addrs (g_tsdata s)) a s)))"

text \<open>The two scans that \<^verbatim>\<open>do_reclaim\<close> and \<^verbatim>\<open>search_self_stack\<close> have in common.\<close>

definition search_thread ::
  "bool \<Rightarrow> 'o world \<Rightarrow> size_t \<Rightarrow> size_t \<Rightarrow> 'o ts_state \<Rightarrow> 'o ts_state res" where
  "search_thread dbg w rsp td s =
     bindE (threadscan_thread_user_stack td (proc s)) (\<lambda>user_stack.
     bindE (search_buf dbg w \<lparr>low = rsp, high = high user_stack\<rparr> s) (\<lambda>s.
     bindE (td_at (tds (proc s)) td) (\<lambda>t.
     if low (local_block t) > 0 then search_buf dbg w (local_block t) s else Inr s)))"

definition search_self_stack ::
  "bool \<Rightarrow> 'o world \<Rightarrow> size_t \<Rightarrow> size_t \<Rightarrow> 'o ts_state \<Rightarrow> 'o ts_state res" where
  "search_self_stack dbg w arg td s =
     bindE (c_assert dbg (arg \<noteq> 0)) (\<lambda>_.
     bindE (search_thread dbg w arg td s) (\<lambda>s.
     Inr (s\<lparr>self_stacks_searched := self_stacks_searched s + 1\<rparr>)))"

text \<open>The handler, run by thread \<open>td\<close>.\<close>

definition signal_handler :: "bool \<Rightarrow> 'o world \<Rightarrow> size_t \<Rightarrow> 'o ts_state \<Rightarrow> 'o ts_state res" where
  "signal_handler dbg w td s =
     bindE (on_proc (threadscan_thread_cleanup_raise_flag dbg td) s) (\<lambda>s.
     bindE (search_self_stack dbg w (w_rsp w td) td s) (\<lambda>s.
     on_proc (threadscan_thread_cleanup_lower_flag td) s))"

subsection \<open>Reclamation\<close>

text \<open>
  \<^verbatim>\<open>do_reclaim\<close> run by \<open>me\<close>: the signals, the scan of the own stack and local block, the handlers of
  the signalled threads; the final loop waits until as many have answered as were signalled. The
  result is the pair \<^verbatim>\<open>do_reclaim_arg\<close>.
\<close>

definition do_reclaim ::
  "bool \<Rightarrow> 'o world \<Rightarrow> size_t \<Rightarrow> size_t \<Rightarrow> 'o ts_state \<Rightarrow> ((size_t \<times> int) \<times> 'o ts_state) res" where
  "do_reclaim dbg w rsp me s =
     (let s = s\<lparr>self_stacks_searched := 0\<rparr> in
      bindE (threadscan_thread_signal_all_but_me dbg (w_kill w) me (proc s)) (\<lambda>(sig_count, sent).
      bindE (search_thread dbg w rsp me s) (\<lambda>s.
      bindE (foldE (signal_handler dbg w) (w_order w sent) s) (\<lambda>s.
      if self_stacks_searched s < sig_count then Inl Hang
      else Inr ((buf_addrs (g_tsdata s), n_addrs (g_tsdata s)), s)))))"

text \<open>The working memory is zero-filled.\<close>

definition threadscan_reclaim ::
  "bool \<Rightarrow> 'o world \<Rightarrow> size_t \<Rightarrow> 'o ts_state \<Rightarrow> 'o ts_state res" where
  "threadscan_reclaim dbg w me s =
     (let k = w_kernel w; rsp = w_rsp w me; sz = working_buffer_sz (g_tsdata s) in
      bindE (threadscan_alloc_mmap dbg k sz (mem (proc s))) (\<lambda>(working_memory, m).
      let s = set_buf working_memory (replicate (unat sz div 8) 0) (s\<lparr>proc := (proc s)\<lparr>mem := m\<rparr>\<rparr>);
          s = s\<lparr>g_tsdata := assign_working_space working_memory (g_tsdata s)\<rparr> in
      bindE (generate_working_pointers_list dbg k s) (\<lambda>(n, s).
      let s = s\<lparr>g_tsdata := (g_tsdata s)\<lparr>n_addrs := n\<rparr>\<rparr> in
      bindE (buf_at s (buf_addrs (g_tsdata s))) (\<lambda>a.
      bindE (threadscan_util_sort a (n_addrs (g_tsdata s))) (\<lambda>a.
      bindE (generate_scan_map (g_tsdata s) a) (\<lambda>(ts, a).
      let s = set_buf (buf_addrs ts) a (s\<lparr>g_tsdata := ts\<rparr>) in
      bindE (do_reclaim dbg w rsp me s) (\<lambda>((addrs, cnt), s).
      let s = s\<lparr>proc := threadscan_thread_cleanup_release (proc s)\<rparr> in
      bindE (buf_at s addrs) (\<lambda>a.
      bindE (assert_monotonicity dbg a cnt) (\<lambda>_.
      bindE (handle_unreferenced_ptrs a cnt) (\<lambda>(a, remaining, fs).
      bindE (threadscan_util_randomize a remaining) (\<lambda>a.
      store_remaining_addrs dbg k addrs remaining (set_buf addrs a (s\<lparr>freed := freed s @ fs\<rparr>)))))))))))))"

subsection \<open>The interface\<close>

definition threadscan_collect ::
  "bool \<Rightarrow> 'o world \<Rightarrow> size_t \<Rightarrow> size_t \<Rightarrow> 'o ts_state \<Rightarrow> 'o ts_state res" where
  "threadscan_collect dbg w me ptr s =
     (if ptr = 0 then Inr s
      else
        bindE (td_at (tds (proc s)) me) (\<lambda>t.
        bindE (threadscan_queue_push dbg (ptr_list t) ptr) (\<lambda>q.
        bindE (on_proc (upd_td me (\<lambda>t. t\<lparr>ptr_list := q\<rparr>)) s) (\<lambda>s.
        loopE (\<lambda>s.
          bindE (td_at (tds (proc s)) me) (\<lambda>t.
          bindE (threadscan_queue_is_full dbg (ptr_list t)) (\<lambda>fl.
          if \<not> fl then Inr (Inr s)
          else
            bindE (threadscan_thread_cleanup_try_acquire (proc s)) (\<lambda>(got, p).
            let s = s\<lparr>proc := p\<rparr> in
            if got then bindE (threadscan_reclaim dbg w me s) (\<lambda>s. Inr (Inl s))
            else Inr (Inl s))))) s))))"

definition threadscan_register_local_block ::
  "size_t \<Rightarrow> size_t \<Rightarrow> size_t \<Rightarrow> 'o ts_state \<Rightarrow> 'o ts_state res" where
  "threadscan_register_local_block me addr sz s =
     on_proc (upd_td me (\<lambda>t. t\<lparr>local_block := \<lparr>low = addr, high = addr + sz\<rparr>\<rparr>)) s"

subsection \<open>Initialisation\<close>

text \<open>
  The sizes that \<^verbatim>\<open>register_signal_handlers\<close> computes from \<^verbatim>\<open>g_threadscan_ptrs_per_thread\<close>. The product
  with \<^verbatim>\<open>sizeof\<close> is unsigned 64-bit arithmetic, \<^verbatim>\<open>scan_map_sz\<close> an \<^verbatim>\<open>int\<close>.
\<close>

definition scan_map_bytes :: "int \<Rightarrow> int" where
  "scan_map_bytes mx =
     (let scan_map_sz = sint (ucast ((of_int (2 * mx) * 8 * 8 :: size_t) div PAGESIZE) :: 32 word) in
      if (of_int scan_map_sz :: size_t) mod PAGESIZE \<noteq> 0
      then sint (ucast ((of_int scan_map_sz + PAGESIZE) AND NOT (PAGESIZE - 1) :: size_t) :: 32 word)
      else scan_map_sz)"

definition register_signal_handlers :: "int \<Rightarrow> threadscan_data \<Rightarrow> threadscan_data" where
  "register_signal_handlers ptrs_per_thread ts =
     (let mx = ptrs_per_thread * MAX_THREAD_COUNT;
          addrs_sz = of_int mx * 8 * 2 :: size_t in
      ts\<lparr>max_ptrs := mx,
         offset_list := (offset_list ts)[0 := addrs_sz],
         working_buffer_sz := addrs_sz + of_int (scan_map_bytes mx),
         storage := 0\<rparr>)"

subsection \<open>The sizes fit\<close>

text \<open>
  With \<open>M = max_ptrs\<close>, the working buffer has room for \<open>2 * M\<close> addresses and one word of scan map for
  each page of them, and it is a whole number of pages.
\<close>

definition sized :: "threadscan_data \<Rightarrow> bool" where
  "sized ts \<longleftrightarrow> (\<exists>m. 1 \<le> m \<and> m \<le> 32 \<and> max_ptrs ts = 262144 * int m \<and> length (offset_list ts) = 2 \<and>
     unat (offset_list ts ! 0) = 16 * (262144 * m) \<and>
     unat (working_buffer_sz ts) = 16 * (262144 * m) + 8192 * m)"

lemma page_multiple: "unat x = 4096 * j \<Longrightarrow> x mod PAGESIZE = 0"
proof -
  assume "unat x = 4096 * j"
  then have "unat (x mod PAGESIZE) = 0" by (subst unat_mod_distrib) (simp add: PAGESIZE_def)
  then show ?thesis by (simp only: unat_eq_zero)
qed

lemma scan_map_bytes_eq:
  assumes "1 \<le> m" "m \<le> 32"
  shows "scan_map_bytes (262144 * int m) = int (8192 * m)"
proof -
  have u: "unat (of_int (2 * (262144 * int m)) * 8 * 8 :: size_t) = 33554432 * m"
  proof -
    have "(of_int (2 * (262144 * int m)) * 8 * 8 :: size_t) = of_nat (33554432 * m)" by simp
    then show ?thesis using assms by (simp only: unsigned_of_nat) (simp add: take_bit_nat_eq_self)
  qed
  let ?d = "(of_int (2 * (262144 * int m)) * 8 * 8 :: size_t) div PAGESIZE"
  have d: "unat ?d = 8192 * m" by (simp only: unat_div_distrib u) (simp add: PAGESIZE_def)
  then have c: "sint (ucast ?d :: 32 word) = int (8192 * m)" using assms by (intro int_of_popped) auto
  have w: "unat (of_int (int (8192 * m)) :: size_t) = 8192 * m"
    using assms by (simp only: of_int_of_nat_eq unsigned_of_nat) (simp add: take_bit_nat_eq_self)
  have "(of_int (int (8192 * m)) :: size_t) mod PAGESIZE = 0" by (rule page_multiple [of _ "2 * m"]) (subst w, simp)
  then show ?thesis unfolding scan_map_bytes_def Let_def c by simp
qed

lemma register_signal_handlers_sized:
  assumes "ptrs_ok n" and "length (offset_list ts) = 2"
  shows "sized (register_signal_handlers n ts)" "storage (register_signal_handlers n ts) = 0"
proof -
  obtain m where m: "n = 1024 * m" "1 \<le> m" "m \<le> 32" using ptrs_ok_bounds(3) [OF assms(1)] by blast
  define i where "i = nat m"
  have i: "n = 1024 * int i" "1 \<le> i" "i \<le> 32" using m by (auto simp: i_def)
  have mx: "n * MAX_THREAD_COUNT = 262144 * int i" by (simp add: i MAX_THREAD_COUNT_def)
  have a: "unat (of_int (262144 * int i) * 8 * 2 :: size_t) = 16 * (262144 * i)"
  proof -
    have "(of_int (262144 * int i) * 8 * 2 :: size_t) = of_nat (16 * (262144 * i))" by simp
    then show ?thesis using i by (simp only: unsigned_of_nat) (simp add: take_bit_nat_eq_self)
  qed
  have b: "unat (of_int (scan_map_bytes (262144 * int i)) :: size_t) = 8192 * i"
    using i by (simp only: scan_map_bytes_eq of_int_of_nat_eq unsigned_of_nat) (simp add: take_bit_nat_eq_self)
  show "sized (register_signal_handlers n ts)" unfolding sized_def
    using i(2,3) a b assms(2)
    by (intro exI [of _ i]) (simp add: register_signal_handlers_def Let_def mx unat_word_ariths)
  show "storage (register_signal_handlers n ts) = 0" by (simp add: register_signal_handlers_def Let_def)
qed

lemma sized_facts:
  assumes "sized ts"
  obtains m where "1 \<le> m" "m \<le> 32" "max_ptrs ts = 262144 * int m"
    "unat (working_buffer_sz ts) div 8 = 2 * (262144 * m) + 1024 * m"
    "working_buffer_sz ts \<noteq> 0" "working_buffer_sz ts mod PAGESIZE = 0"
    "scan_map_index (assign_working_space b ts) = int (2 * (262144 * m))"
proof -
  obtain m where m: "1 \<le> m" "m \<le> 32" "max_ptrs ts = 262144 * int m"
    "unat (offset_list ts ! 0) = 16 * (262144 * m)" "unat (working_buffer_sz ts) = 16 * (262144 * m) + 8192 * m"
    using assms by (auto simp: sized_def)
  have "working_buffer_sz ts \<noteq> 0" using m by (intro notI) simp
  moreover have "working_buffer_sz ts mod PAGESIZE = 0"
    by (rule page_multiple [of _ "1026 * m"]) (simp add: m(5))
  moreover have "scan_map_index (assign_working_space b ts) = int (2 * (262144 * m))"
  proof -
    have "uint (offset_list ts ! 0) = int (16 * (262144 * m))" using m(4) by (simp only: uint_nat)
    then show ?thesis by (simp add: scan_map_index_def assign_working_space_def)
  qed
  ultimately show ?thesis using m by (intro that [of m]) auto
qed

subsection \<open>The leftovers\<close>

text \<open>
  A stored block \<open>l\<close>: its first word is the address of the next block, the second the number of
  addresses, which follow.
\<close>

definition st_next :: "(size_t \<rightharpoonup> size_t list) \<Rightarrow> size_t \<Rightarrow> size_t option" where
  "st_next bs p = map_option (\<lambda>l. l ! 0) (bs p)"

definition st_addrs :: "size_t list \<Rightarrow> size_t list" where
  "st_addrs l = take (unat (l ! 1)) (drop 2 l)"

definition st_ok :: "size_t list \<Rightarrow> bool" where
  "st_ok l \<longleftrightarrow> unat (l ! 1) + 2 \<le> length l \<and> unat (l ! 1) < 2 ^ 31"

definition stored :: "(size_t \<rightharpoonup> size_t list) \<Rightarrow> size_t list \<Rightarrow> size_t list" where
  "stored bs cs = concat (map (\<lambda>c. st_addrs (the (bs c))) cs)"

text \<open>The list \<^verbatim>\<open>storage\<close> consists of the blocks \<open>cs\<close>, owned by the library.\<close>

definition storage_inv :: "'o ts_state \<Rightarrow> size_t list \<Rightarrow> (size_t \<times> size_t) set \<Rightarrow> bool" where
  "storage_inv s cs D \<longleftrightarrow>
     path (st_next (bufs s)) (storage (g_tsdata s)) cs \<and> distinct cs \<and>
     (\<forall>c \<in> set cs. \<exists>l. bufs s c = Some l \<and> st_ok l) \<and>
     (\<lambda>c. (c, working_buffer_sz (g_tsdata s))) ` set cs \<subseteq> D"

lemma st_next_Some: "st_next bs p = Some q \<longleftrightarrow> (\<exists>l. bs p = Some l \<and> l ! 0 = q)"
  by (auto simp: st_next_def)

lemma length_st_addrs: "st_ok l \<Longrightarrow> length (st_addrs l) = unat (l ! 1)"
  by (auto simp: st_addrs_def st_ok_def)

lemma buf_at_Some [simp]: "bufs s p = Some a \<Longrightarrow> buf_at s p = Inr a"
  by (simp add: buf_at_def)

lemma add_to_buf_addrs_eq:
  assumes a: "bufs s (buf_addrs (g_tsdata s)) = Some a" and src: "m \<le> length src"
    and room: "n + m \<le> length a" "int (n + m) \<le> max_ptrs (g_tsdata s) * 2"
  shows "add_to_buf_addrs (int n) src (int m) s =
    Inr (int (n + m), set_buf (buf_addrs (g_tsdata s)) (take n a @ take m src @ drop (n + m) a) s)"
  using assms memcpy_ok [of n m a 0 src] by (simp add: add_to_buf_addrs_def)

lemma drop_bufE:
  assumes "alloc_ready k (mem (proc s)) D" "(p, sz) \<in> D"
  obtains m where "drop_buf dbg k p s = Inr (s\<lparr>proc := (proc s)\<lparr>mem := m\<rparr>, bufs := (bufs s)(p := None)\<rparr>)"
    "alloc_ready k m (D - {(p, sz)})"
proof -
  obtain m where "threadscan_alloc_munmap dbg k p (mem (proc s)) = Inr m" "alloc_ready k m (D - {(p, sz)})"
    using assms by (rule pages.deallocE)
  then show ?thesis using that by (simp add: drop_buf_def)
qed

lemma stored_cong: "(\<And>c. c \<in> set cs \<Longrightarrow> bs' c = bs c) \<Longrightarrow> stored bs' cs = stored bs cs"
  unfolding stored_def by (auto intro!: arg_cong [where f = concat] map_cong)

text \<open>One round: the addresses of the first block are appended and its memory is given back.\<close>

definition took_block :: "size_t \<Rightarrow> 'o ts_state \<Rightarrow> size_t list \<Rightarrow> 'o alloc_state \<Rightarrow> 'o ts_state" where
  "took_block c s a m =
     s\<lparr>proc := (proc s)\<lparr>mem := m\<rparr>, bufs := (bufs s)(buf_addrs (g_tsdata s) \<mapsto> a, c := None)\<rparr>"

lemma took_block_simps [simp]:
  "bufs (took_block c s a m) = (bufs s)(buf_addrs (g_tsdata s) \<mapsto> a, c := None)"
  "g_tsdata (took_block c s a m) = g_tsdata s" "mem (proc (took_block c s a m)) = m"
  "freed (took_block c s a m) = freed s" "tds (proc (took_block c s a m)) = tds (proc s)"
  by (simp_all add: took_block_def)

lemma add_leftovers_step:
  assumes c: "bufs s c = Some l" "st_ok l" "c \<noteq> 0" "c \<noteq> buf_addrs (g_tsdata s)"
    and D: "alloc_ready k (mem (proc s)) D" "(c, W) \<in> D"
    and a: "bufs s (buf_addrs (g_tsdata s)) = Some a"
    and room: "n + length (st_addrs l) \<le> length a" "int (n + length (st_addrs l)) \<le> max_ptrs (g_tsdata s) * 2"
  obtains m where
    "add_leftovers dbg k c (int n) s = add_leftovers dbg k (l ! 0) (int (n + length (st_addrs l)))
       (took_block c s (take n a @ st_addrs l @ drop (n + length (st_addrs l)) a) m)"
    "alloc_ready k m (D - {(c, W)})"
proof -
  let ?B = "buf_addrs (g_tsdata s)"
  define m where "m = unat (l ! 1)"
  have m: "length (st_addrs l) = m" "m + 2 \<le> length l" "m < 2 ^ 31"
    using c(2) by (auto simp: length_st_addrs m_def st_ok_def)
  define s1 where "s1 = set_buf ?B (take n a @ st_addrs l @ drop (n + m) a) s"
  have add: "add_to_buf_addrs (int n) (drop 2 l) (sint (ucast (l ! 1) :: 32 word)) s = Inr (int (n + m), s1)"
    unfolding int_of_popped [OF m_def [symmetric] m(3)]
    using add_to_buf_addrs_eq [OF a _ room [unfolded m(1)], of "drop 2 l"] m(2)
    by (simp add: s1_def st_addrs_def m_def)
  have "alloc_ready k (mem (proc s1)) D" using D(1) by (simp add: s1_def set_buf_def)
  from this D(2) obtain mm where mm:
    "drop_buf dbg k c s1 = Inr (s1\<lparr>proc := (proc s1)\<lparr>mem := mm\<rparr>, bufs := (bufs s1)(c := None)\<rparr>)"
    "alloc_ready k mm (D - {(c, W)})" by (rule drop_bufE)
  have "rd l 0 = Inr (l ! 0)" "rd l 1 = Inr (l ! 1)" using m(2) by (auto simp: rd_def)
  then have "add_leftovers dbg k c (int n) s = add_leftovers dbg k (l ! 0) (int (n + m))
      (took_block c s (take n a @ st_addrs l @ drop (n + m) a) mm)"
    using c(1,3) add mm(1) unfolding add_leftovers_def
    by (subst loopE_unfold) (simp add: took_block_def s1_def set_buf_def)
  then show thesis using that mm(2) m(1) by simp
qed

lemma add_leftovers_correct:
  assumes "path (st_next (bufs s)) p cs" "distinct cs" "buf_addrs (g_tsdata s) \<notin> set cs"
    and "\<And>c. c \<in> set cs \<Longrightarrow> \<exists>l. bufs s c = Some l \<and> st_ok l" "(\<lambda>c. (c, W)) ` set cs \<subseteq> D"
    and "alloc_ready k (mem (proc s)) D" "bufs s (buf_addrs (g_tsdata s)) = Some a"
    and "n + length (stored (bufs s) cs) \<le> length a"
    and "int (n + length (stored (bufs s) cs)) \<le> max_ptrs (g_tsdata s) * 2"
  shows "\<exists>m. add_leftovers dbg k p (int n) s = Inr (int (n + length (stored (bufs s) cs)),
      s\<lparr>bufs := ((bufs s) |` (- set cs))(buf_addrs (g_tsdata s) \<mapsto>
          take n a @ stored (bufs s) cs @ drop (n + length (stored (bufs s) cs)) a),
        proc := (proc s)\<lparr>mem := m\<rparr>\<rparr>) \<and> alloc_ready k m (D - (\<lambda>c. (c, W)) ` set cs)"
  using assms
proof (induction cs arbitrary: s p n a D)
  case Nil
  have "(bufs s)(buf_addrs (g_tsdata s) \<mapsto> a) = bufs s" using Nil.prems(7) by (simp add: fun_upd_idem)
  moreover have "add_leftovers dbg k p (int n) s = Inr (int n, s)"
    using Nil.prems(1) unfolding add_leftovers_def by (subst loopE_unfold) simp
  ultimately show ?case
    using Nil.prems(6) by (intro exI [of _ "mem (proc s)"]) (simp add: stored_def)
next
  case (Cons c cs)
  let ?B = "buf_addrs (g_tsdata s)"
  obtain l where l: "bufs s c = Some l" "st_ok l" using Cons.prems(4) [of c] by auto
  define m where "m = length (st_addrs l)"
  define a1 where "a1 = take n a @ st_addrs l @ drop (n + m) a"
  have p: "p = c" "c \<noteq> 0" "path (st_next (bufs s)) (l ! 0) cs"
    using Cons.prems(1) l(1) by (auto simp: st_next_Some)
  have st: "stored (bufs s) (c # cs) = st_addrs l @ stored (bufs s) cs" by (simp add: stored_def l(1))
  have cB: "c \<noteq> ?B" using Cons.prems(3) by auto
  have D: "(c, W) \<in> D" using Cons.prems(5) by simp
  have room: "n + length (st_addrs l) \<le> length a" "int (n + length (st_addrs l)) \<le> max_ptrs (g_tsdata s) * 2"
    using Cons.prems(8,9) by (auto simp: st)
  obtain mm where mm: "add_leftovers dbg k c (int n) s = add_leftovers dbg k (l ! 0) (int (n + m)) (took_block c s a1 mm)"
    "alloc_ready k mm (D - {(c, W)})"
    unfolding m_def a1_def by (rule add_leftovers_step [OF l p(2) cB Cons.prems(6) D Cons.prems(7) room])
  define s2 where "s2 = took_block c s a1 mm"
  have s2: "bufs s2 = (bufs s)(?B \<mapsto> a1, c := None)" "g_tsdata s2 = g_tsdata s" "mem (proc s2) = mm"
    by (simp_all add: s2_def)
  have keep: "bufs s2 x = bufs s x" if "x \<in> set cs" for x
    using that Cons.prems(2,3) by (auto simp: s2)
  have st2: "stored (bufs s2) cs = stored (bufs s) cs" using keep by (rule stored_cong)
  have a1: "length a1 = length a" "bufs s2 ?B = Some a1" using room cB by (auto simp: a1_def s2 m_def)
  have "\<exists>m'. add_leftovers dbg k (l ! 0) (int (n + m)) s2 = Inr (int (n + m + length (stored (bufs s2) cs)),
      s2\<lparr>bufs := ((bufs s2) |` (- set cs))(buf_addrs (g_tsdata s2) \<mapsto>
          take (n + m) a1 @ stored (bufs s2) cs @ drop (n + m + length (stored (bufs s2) cs)) a1),
        proc := (proc s2)\<lparr>mem := m'\<rparr>\<rparr>) \<and> alloc_ready k m' (D - {(c, W)} - (\<lambda>c. (c, W)) ` set cs)"
  proof (rule Cons.IH)
    show "path (st_next (bufs s2)) (l ! 0) cs" using p(3) keep by (elim path_cong) (simp add: st_next_def)
    show "\<exists>l. bufs s2 x = Some l \<and> st_ok l" if "x \<in> set cs" for x using Cons.prems(4) [of x] keep that by simp
    show "(\<lambda>c. (c, W)) ` set cs \<subseteq> D - {(c, W)}" using Cons.prems(2,5) by auto
  qed (use Cons.prems(2,3,8,9) mm(2) a1 in \<open>auto simp: s2(2,3) st st2 m_def ac_simps\<close>)
  then obtain m' where m': "add_leftovers dbg k (l ! 0) (int (n + m)) s2 =
      Inr (int (n + m + length (stored (bufs s) cs)),
      s2\<lparr>bufs := ((bufs s2) |` (- set cs))(?B \<mapsto>
          take (n + m) a1 @ stored (bufs s) cs @ drop (n + m + length (stored (bufs s) cs)) a1),
        proc := (proc s2)\<lparr>mem := m'\<rparr>\<rparr>)" "alloc_ready k m' (D - {(c, W)} - (\<lambda>c. (c, W)) ` set cs)"
    by (auto simp: st2 s2(2))
  moreover have "take (n + m) a1 = take n a @ st_addrs l" "drop (n + m + j) a1 = drop (n + m + j) a" for j
    using room by (auto simp: a1_def m_def ac_simps)
  moreover have "((bufs s2) |` (- set cs))(?B \<mapsto> x) = ((bufs s) |` (- set (c # cs)))(?B \<mapsto> x)" for x
    using cB by (auto simp: s2 fun_eq_iff restrict_map_def)
  ultimately have "add_leftovers dbg k p (int n) s = Inr (int (n + length (stored (bufs s) (c # cs))),
      s\<lparr>bufs := ((bufs s) |` (- set (c # cs)))(?B \<mapsto>
          take n a @ stored (bufs s) (c # cs) @ drop (n + length (stored (bufs s) (c # cs))) a),
        proc := (proc s)\<lparr>mem := m'\<rparr>\<rparr>)"
    unfolding p(1) mm(1) s2_def [symmetric] by (simp add: st m_def s2_def took_block_def add.assoc)
  moreover have "D - {(c, W)} - (\<lambda>c. (c, W)) ` set cs = D - (\<lambda>c. (c, W)) ` set (c # cs)" by auto
  ultimately show ?case using m'(2) by metis
qed

text \<open>More stored addresses than the buffer has room for end the process.\<close>

lemma add_leftovers_overflow:
  assumes "path (st_next (bufs s)) p cs" "distinct cs" "buf_addrs (g_tsdata s) \<notin> set cs"
    and "\<And>c. c \<in> set cs \<Longrightarrow> \<exists>l. bufs s c = Some l \<and> st_ok l" "(\<lambda>c. (c, W)) ` set cs \<subseteq> D"
    and "alloc_ready k (mem (proc s)) D" "bufs s (buf_addrs (g_tsdata s)) = Some a"
    and "max_ptrs (g_tsdata s) * 2 \<le> int (length a)" "int n \<le> max_ptrs (g_tsdata s) * 2"
    and "int (n + length (stored (bufs s) cs)) > max_ptrs (g_tsdata s) * 2"
  shows "add_leftovers dbg k p (int n) s = Inl (Fatal ''threadscan internal error: overflowed address list.'')"
  using assms
proof (induction cs arbitrary: s p n a D)
  case Nil
  then show ?case by (simp add: stored_def)
next
  case (Cons c cs)
  let ?B = "buf_addrs (g_tsdata s)"
  obtain l where l: "bufs s c = Some l" "st_ok l" using Cons.prems(4) [of c] by auto
  have p: "p = c" "c \<noteq> 0" "path (st_next (bufs s)) (l ! 0) cs"
    using Cons.prems(1) l(1) by (auto simp: st_next_Some)
  have st: "stored (bufs s) (c # cs) = st_addrs l @ stored (bufs s) cs" by (simp add: stored_def l(1))
  have cB: "c \<noteq> ?B" using Cons.prems(3) by auto
  have D: "(c, W) \<in> D" using Cons.prems(5) by simp
  show ?case
  proof (cases "int (n + length (st_addrs l)) \<le> max_ptrs (g_tsdata s) * 2")
    case True
    then have "n + length (st_addrs l) \<le> length a" using Cons.prems(8) by linarith
    then obtain mm where mm: "add_leftovers dbg k c (int n) s = add_leftovers dbg k (l ! 0) (int (n + length (st_addrs l)))
        (took_block c s (take n a @ st_addrs l @ drop (n + length (st_addrs l)) a) mm)"
      "alloc_ready k mm (D - {(c, W)})"
      by (rule add_leftovers_step [OF l p(2) cB Cons.prems(6) D Cons.prems(7) _ True])
    define s2 where "s2 = took_block c s (take n a @ st_addrs l @ drop (n + length (st_addrs l)) a) mm"
    have s2: "g_tsdata s2 = g_tsdata s" "mem (proc s2) = mm" by (simp_all add: s2_def)
    have keep: "bufs s2 x = bufs s x" if "x \<in> set cs" for x
      using that Cons.prems(2,3) by (auto simp: s2_def)
    have st2: "stored (bufs s2) cs = stored (bufs s) cs" using keep by (rule stored_cong)
    have "add_leftovers dbg k (l ! 0) (int (n + length (st_addrs l))) s2 =
        Inl (Fatal ''threadscan internal error: overflowed address list.'')"
    proof (rule Cons.IH)
      show "path (st_next (bufs s2)) (l ! 0) cs" using p(3) keep by (elim path_cong) (simp add: st_next_def)
      show "\<exists>l. bufs s2 x = Some l \<and> st_ok l" if "x \<in> set cs" for x using Cons.prems(4) [of x] keep that by simp
      show "(\<lambda>c. (c, W)) ` set cs \<subseteq> D - {(c, W)}" using Cons.prems(2,5) by auto
      show "bufs s2 (buf_addrs (g_tsdata s2)) = Some (take n a @ st_addrs l @ drop (n + length (st_addrs l)) a)"
        using cB by (simp add: s2_def)
    qed (use Cons.prems(2,3,8,10) mm(2) True in \<open>auto simp: s2 st st2 ac_simps\<close>)
    then show ?thesis by (simp add: p(1) mm(1) s2_def)
  next
    case False
    have m: "unat (l ! 1) + 2 \<le> length l" "unat (l ! 1) < 2 ^ 31" "length (st_addrs l) = unat (l ! 1)"
      using l(2) by (auto simp: st_ok_def length_st_addrs)
    then have "rd l 0 = Inr (l ! 0)" "rd l 1 = Inr (l ! 1)" by (auto simp: rd_def)
    then show ?thesis using False l(1) p(1,2) int_of_popped [OF refl m(2)] m(3)
      unfolding add_leftovers_def by (subst loopE_unfold) (simp add: add_to_buf_addrs_def)
  qed
qed

subsection \<open>The queues of the threads\<close>

definition td_addrs :: "tdheap \<Rightarrow> size_t \<Rightarrow> size_t list" where
  "td_addrs h td = q_list (ptr_list (the (h td)))"

definition queued :: "tdheap \<Rightarrow> size_t list \<Rightarrow> size_t list" where
  "queued h tdl = concat (map (td_addrs h) tdl)"

definition emptied :: "thread_data \<Rightarrow> thread_data" where
  "emptied t = t\<lparr>ptr_list := popped (ptr_list t) (q_size (ptr_list t))\<rparr>"

definition drained :: "size_t set \<Rightarrow> tdheap \<Rightarrow> tdheap" where
  "drained T h = (\<lambda>p. if p \<in> T then map_option emptied (h p) else h p)"

lemma nxt_drained: "nxt (drained T h) = nxt h"
  by (rule ext) (simp add: nxt_def drained_def emptied_def option.map_comp comp_def)

lemma pop_thread_nxt:
  assumes "pop_thread dbg td (n, s) = Inr (n', s')"
  shows "nxt (tds (proc s')) = nxt (tds (proc s))"
proof -
  obtain t where "tds (proc s) td = Some t"
    using assms by (auto simp: pop_thread_def bindE_Inr_iff td_at_def split: option.splits)
  then show ?thesis using assms
    by (auto simp: pop_thread_def bindE_Inr_iff on_proc_def set_buf_def fun_eq_iff nxt_def)
qed

lemma pop_thread_eq:
  assumes t: "tds (proc s) td = Some t" and q: "q_inv (ptr_list t)" "dbg \<longrightarrow> 0 \<notin> set (td_addrs (tds (proc s)) td)"
    and a: "bufs s (buf_addrs (g_tsdata s)) = Some a"
    and room: "n + length (td_addrs (tds (proc s)) td) \<le> length a"
      "int (n + length (td_addrs (tds (proc s)) td)) \<le> max_ptrs (g_tsdata s) * 2"
    and mx: "max_ptrs (g_tsdata s) < 2 ^ 24"
  shows "pop_thread dbg td (int n, s) = Inr (int (n + length (td_addrs (tds (proc s)) td)),
    s\<lparr>bufs := (bufs s)(buf_addrs (g_tsdata s) \<mapsto> take n a @ td_addrs (tds (proc s)) td @
         drop (n + length (td_addrs (tds (proc s)) td)) a),
      proc := (proc s)\<lparr>tds := (tds (proc s))(td \<mapsto> emptied t)\<rparr>\<rparr>)"
proof -
  let ?q = "ptr_list t"
  have qs: "td_addrs (tds (proc s)) td = q_list ?q" by (simp add: td_addrs_def t)
  have len: "length (q_list ?q) = q_size ?q" by (rule length_q_list [OF q(1)])
  define L where "L = max_ptrs (g_tsdata s) * 2 - int n"
  have L: "int (q_size ?q) \<le> L" "0 \<le> L" "L < 2 ^ 25" using room(2) mx by (auto simp: L_def qs len)
  have uL: "unat (of_int L :: size_t) = nat L"
    using L by (simp add: unat_eq_nat_uint unsigned_of_int take_bit_int_eq_self)
  have mq: "q_size ?q = min (unat (of_int L :: size_t)) (q_size ?q)" using L by (simp add: uL min_def nat_le_iff)
  have "threadscan_queue_pop_bulk dbg a n (of_int L) ?q =
      Inr (int (q_size ?q), take n a @ take (q_size ?q) (q_list ?q) @ drop (n + q_size ?q) a, popped ?q (q_size ?q))"
  proof (rule threadscan_queue_pop_bulk_eq [OF q(1) mq])
    show "n + q_size ?q \<le> length a" using room(1) by (simp add: qs len)
    have "int (q_size ?q) < 2 ^ 25" using L by linarith
    then show "q_size ?q < 2 ^ 31" by simp
    show "dbg \<longrightarrow> of_int L < (0xF00000000000000 :: size_t)" using L by (simp add: word_less_nat_alt uL nat_less_iff)
    show "dbg \<longrightarrow> 0 \<notin> set (take (q_size ?q) (q_list ?q))" using q(2) in_set_takeD by (fastforce simp: qs)
  qed
  then show ?thesis
    using t a by (simp add: pop_thread_def on_proc_def set_buf_def L_def qs len emptied_def)
qed

lemma queued_cong: "(\<And>td. td \<in> set xs \<Longrightarrow> h' td = h td) \<Longrightarrow> queued h' xs = queued h xs"
  unfolding queued_def td_addrs_def by (auto intro!: arg_cong [where f = concat] map_cong)

lemma pop_threads_eq:
  assumes "distinct xs" "\<And>td. td \<in> set xs \<Longrightarrow> \<exists>t. tds (proc s) td = Some t \<and> q_inv (ptr_list t)"
    and "dbg \<longrightarrow> 0 \<notin> set (queued (tds (proc s)) xs)"
    and "bufs s (buf_addrs (g_tsdata s)) = Some a"
    and "n + length (queued (tds (proc s)) xs) \<le> length a"
      "int (n + length (queued (tds (proc s)) xs)) \<le> max_ptrs (g_tsdata s) * 2"
    and "max_ptrs (g_tsdata s) < 2 ^ 24"
  shows "foldE (pop_thread dbg) xs (int n, s) = Inr (int (n + length (queued (tds (proc s)) xs)),
    s\<lparr>bufs := (bufs s)(buf_addrs (g_tsdata s) \<mapsto> take n a @ queued (tds (proc s)) xs @
         drop (n + length (queued (tds (proc s)) xs)) a),
      proc := (proc s)\<lparr>tds := drained (set xs) (tds (proc s))\<rparr>\<rparr>)"
  using assms
proof (induction xs arbitrary: n s a)
  case Nil
  then show ?case by (simp add: queued_def drained_def fun_upd_idem)
next
  case (Cons td xs)
  let ?B = "buf_addrs (g_tsdata s)" and ?h = "tds (proc s)"
  obtain t where t: "?h td = Some t" "q_inv (ptr_list t)" using Cons.prems(2) [of td] by auto
  define m where "m = length (td_addrs ?h td)"
  define a1 where "a1 = take n a @ td_addrs ?h td @ drop (n + m) a"
  define s1 where "s1 = s\<lparr>bufs := (bufs s)(?B \<mapsto> a1), proc := (proc s)\<lparr>tds := ?h(td \<mapsto> emptied t)\<rparr>\<rparr>"
  have qd: "queued ?h (td # xs) = td_addrs ?h td @ queued ?h xs" by (simp add: queued_def)
  have first: "pop_thread dbg td (int n, s) = Inr (int (n + m), s1)"
    using pop_thread_eq [OF t(1,2) _ Cons.prems(4), of dbg n] Cons.prems(3,5,6,7)
    by (simp add: qd m_def a1_def s1_def)
  have s1: "buf_addrs (g_tsdata s1) = ?B" "g_tsdata s1 = g_tsdata s" "bufs s1 ?B = Some a1"
    "tds (proc s1) = ?h(td \<mapsto> emptied t)" by (simp_all add: s1_def)
  have q1: "queued (tds (proc s1)) xs = queued ?h xs" using Cons.prems(1) by (intro queued_cong) (auto simp: s1)
  have la1: "length a1 = length a" using Cons.prems(5) by (simp add: a1_def m_def qd)
  have "foldE (pop_thread dbg) (td # xs) (int n, s) = foldE (pop_thread dbg) xs (int (n + m), s1)"
    using first by simp
  also have "\<dots> = Inr (int (n + m + length (queued (tds (proc s1)) xs)),
    s1\<lparr>bufs := (bufs s1)(buf_addrs (g_tsdata s1) \<mapsto> take (n + m) a1 @ queued (tds (proc s1)) xs @
         drop (n + m + length (queued (tds (proc s1)) xs)) a1),
      proc := (proc s1)\<lparr>tds := drained (set xs) (tds (proc s1))\<rparr>\<rparr>)"
  proof (rule Cons.IH)
    show "\<exists>t'. tds (proc s1) x = Some t' \<and> q_inv (ptr_list t')" if "x \<in> set xs" for x
      using Cons.prems(1) Cons.prems(2) [of x] that by (auto simp: s1)
  qed (use Cons.prems(1,3,5,6,7) in \<open>auto simp: s1(1,2,3) q1 la1 qd m_def\<close>)
  also have "take (n + m) a1 = take n a @ td_addrs ?h td" using Cons.prems(5) by (simp add: a1_def m_def qd)
  also have "drop (n + m + length (queued (tds (proc s1)) xs)) a1 =
      drop (n + m + length (queued (tds (proc s1)) xs)) a"
    using Cons.prems(5) by (simp add: a1_def m_def qd ac_simps)
  also have "drained (set xs) (tds (proc s1)) = drained (set (td # xs)) ?h"
    using Cons.prems(1) t(1) by (auto simp: drained_def fun_eq_iff s1)
  finally show ?case unfolding q1 by (simp add: s1_def qd m_def add.assoc cong: if_cong)
qed

end
