(* ===== verification/TS_Collect.thy ===== *)
theory TS_Collect
  imports TS_Reclaim
begin

text \<open>
  Correctness of one reclamation of \<^verbatim>\<open>threadscan.c\<close> and of the interface built on it: the invariant of
  the library between two calls, gathering, scanning by all threads, sweeping and storing, and what
  \<^verbatim>\<open>threadscan_reclaim\<close> and \<^verbatim>\<open>threadscan_collect\<close> do as a whole.
\<close>

subsection \<open>Gathering\<close>

text \<open>All addresses under reclamation: the stored ones first, then the queues in list order.\<close>

definition pending :: "'o ts_state \<Rightarrow> size_t list \<Rightarrow> size_t list \<Rightarrow> size_t list" where
  "pending s cs ls = stored (bufs s) cs @ queued (tds (proc s)) ls"

lemma generate_working_pointers_list_eq:
  assumes st: "storage_inv s cs D" and l: "lists (proc s) ls ss" and m: "alloc_ready k (mem (proc s)) D"
    and q: "\<And>td. td \<in> set ls \<Longrightarrow> \<exists>t. tds (proc s) td = Some t \<and> q_inv (ptr_list t)"
    and nz: "dbg \<longrightarrow> 0 \<notin> set (pending s cs ls)"
    and B: "bufs s (buf_addrs (g_tsdata s)) = Some a" "buf_addrs (g_tsdata s) \<notin> set cs"
    and room: "length (pending s cs ls) \<le> length a" "int (length (pending s cs ls)) \<le> max_ptrs (g_tsdata s) * 2"
    and mx: "max_ptrs (g_tsdata s) < 2 ^ 24"
  obtains m where "generate_working_pointers_list dbg k s = Inr (int (length (pending s cs ls)),
      s\<lparr>g_tsdata := (g_tsdata s)\<lparr>storage := 0\<rparr>,
        bufs := ((bufs s) |` (- set cs))(buf_addrs (g_tsdata s) \<mapsto>
          pending s cs ls @ drop (length (pending s cs ls)) a),
        proc := (proc s)\<lparr>mem := m, tds := drained (set ls) (tds (proc s))\<rparr>\<rparr>)"
    "alloc_ready k m (D - (\<lambda>c. (c, working_buffer_sz (g_tsdata s))) ` set cs)"
proof -
  let ?B = "buf_addrs (g_tsdata s)" and ?W = "working_buffer_sz (g_tsdata s)" and ?S = "stored (bufs s) cs"
    and ?Q = "queued (tds (proc s)) ls"
  define s0 where "s0 = s\<lparr>g_tsdata := (g_tsdata s)\<lparr>storage := 0\<rparr>\<rparr>"
  have s0: "bufs s0 = bufs s" "proc s0 = proc s" "buf_addrs (g_tsdata s0) = ?B"
    "max_ptrs (g_tsdata s0) = max_ptrs (g_tsdata s)" by (simp_all add: s0_def)
  have len: "length ?S + length ?Q \<le> length a" "int (length ?S + length ?Q) \<le> max_ptrs (g_tsdata s) * 2"
    using room by (auto simp: pending_def)
  have "\<exists>m. add_leftovers dbg k (storage (g_tsdata s)) (int 0) s0 = Inr (int (0 + length (stored (bufs s0) cs)),
      s0\<lparr>bufs := ((bufs s0) |` (- set cs))(buf_addrs (g_tsdata s0) \<mapsto>
          take 0 a @ stored (bufs s0) cs @ drop (0 + length (stored (bufs s0) cs)) a),
        proc := (proc s0)\<lparr>mem := m\<rparr>\<rparr>) \<and> alloc_ready k m (D - (\<lambda>c. (c, ?W)) ` set cs)"
    by (rule add_leftovers_correct) (use st m B len in \<open>auto simp: storage_inv_def s0\<close>)
  then obtain m1 where m1: "add_leftovers dbg k (storage (g_tsdata s)) 0 s0 = Inr (int (length ?S),
      s0\<lparr>bufs := ((bufs s) |` (- set cs))(?B \<mapsto> ?S @ drop (length ?S) a),
        proc := (proc s)\<lparr>mem := m1\<rparr>\<rparr>)" and ar: "alloc_ready k m1 (D - (\<lambda>c. (c, ?W)) ` set cs)"
    by (auto simp: s0)
  define s1 where "s1 = s0\<lparr>bufs := ((bufs s) |` (- set cs))(?B \<mapsto> ?S @ drop (length ?S) a),
        proc := (proc s)\<lparr>mem := m1\<rparr>\<rparr>"
  have s1: "tds (proc s1) = tds (proc s)" "buf_addrs (g_tsdata s1) = ?B" "thread_list_head (proc s1) = thread_list_head (proc s)"
    "bufs s1 ?B = Some (?S @ drop (length ?S) a)" "max_ptrs (g_tsdata s1) = max_ptrs (g_tsdata s)"
    by (simp_all add: s1_def s0)
  have "FOREACH_IN_THREAD_LIST (\<lambda>(n, s). tds (proc s)) (pop_thread dbg) (thread_list_head (proc s1)) (int (length ?S), s1) =
      foldE (pop_thread dbg) ls (int (length ?S), s1)"
    by (rule FOREACH_eq) (use l pop_thread_nxt in \<open>auto simp: lists_def s1\<close>)
  also have "\<dots> = Inr (int (length ?S + length (queued (tds (proc s1)) ls)),
    s1\<lparr>bufs := (bufs s1)(buf_addrs (g_tsdata s1) \<mapsto> take (length ?S) (?S @ drop (length ?S) a) @ queued (tds (proc s1)) ls @
         drop (length ?S + length (queued (tds (proc s1)) ls)) (?S @ drop (length ?S) a)),
      proc := (proc s1)\<lparr>tds := drained (set ls) (tds (proc s1))\<rparr>\<rparr>)"
    by (rule pop_threads_eq) (use l q nz len mx in \<open>auto simp: lists_def s1 pending_def\<close>)
  finally have "generate_working_pointers_list dbg k s = Inr (int (length (pending s cs ls)),
      s\<lparr>g_tsdata := (g_tsdata s)\<lparr>storage := 0\<rparr>,
        bufs := ((bufs s) |` (- set cs))(?B \<mapsto> pending s cs ls @ drop (length (pending s cs ls)) a),
        proc := (proc s)\<lparr>mem := m1, tds := drained (set ls) (tds (proc s))\<rparr>\<rparr>)"
    using m1 unfolding s1_def [symmetric] unfolding generate_working_pointers_list_def Let_def s0_def [symmetric]
    by (simp add: s1_def s0_def pending_def ac_simps)
  then show ?thesis using ar by (rule that)
qed

subsection \<open>Scanning\<close>

text \<open>The ranges a thread scans from stack pointer \<open>rsp\<close>, and the words they hold.\<close>

definition thread_ranges :: "size_t \<Rightarrow> thread_data \<Rightarrow> mem_range list" where
  "thread_ranges rsp t = \<lparr>low = rsp, high = user_stack_high t\<rparr> #
     (if low (local_block t) > 0 then [local_block t] else [])"

definition readable :: "(size_t \<rightharpoonup> size_t) \<Rightarrow> mem_range \<Rightarrow> bool" where
  "readable um r \<longleftrightarrow> (\<exists>ws. words_at um (low r) (unat ((high r - low r) div 8)) = Inr ws)"

definition range_words :: "(size_t \<rightharpoonup> size_t) \<Rightarrow> mem_range \<Rightarrow> size_t list" where
  "range_words um r = (case words_at um (low r) (unat ((high r - low r) div 8)) of Inr ws \<Rightarrow> ws | Inl _ \<Rightarrow> [])"

definition thread_words :: "(size_t \<rightharpoonup> size_t) \<Rightarrow> size_t \<Rightarrow> thread_data \<Rightarrow> size_t list" where
  "thread_words um rsp t = concat (map (range_words um) (thread_ranges rsp t))"

lemma readable_words: "readable um r \<Longrightarrow> words_at um (low r) (unat ((high r - low r) div 8)) = Inr (range_words um r)"
  by (auto simp: readable_def range_words_def)

text \<open>
  The buffer of \<open>s\<close> is ready for a scan of the addresses \<open>xs\<close>, of which those with index in \<open>S\<close> are
  marked.
\<close>

definition scanning :: "size_t list \<Rightarrow> nat set \<Rightarrow> 'o ts_state \<Rightarrow> bool" where
  "scanning xs S s \<longleftrightarrow> (\<exists>a. bufs s (buf_addrs (g_tsdata s)) = Some a \<and> map_ready (g_tsdata s) xs a \<and> marking xs S a)"

text \<open>
  What scans leave alone: everything but the marks in the buffer, the timestamps of the threads and the
  count of threads that have answered; a lowered flag stays lowered.
\<close>

definition unstamped :: "thread_data \<Rightarrow> thread_data" where
  "unstamped t = t\<lparr>local_timestamp := 0, times_without_update := 0\<rparr>"

definition lowered :: "tdheap \<Rightarrow> size_t \<Rightarrow> bool" where
  "lowered h p \<longleftrightarrow> (\<forall>t. h p = Some t \<longrightarrow> \<not> TIMESTAMP_IS_ACTIVE (local_timestamp t))"

definition stamped :: "tdheap \<Rightarrow> tdheap \<Rightarrow> bool" where
  "stamped h h' \<longleftrightarrow> (\<forall>p. map_option unstamped (h' p) = map_option unstamped (h p) \<and> (lowered h p \<longrightarrow> lowered h' p))"

definition scan_frame :: "size_t list \<Rightarrow> 'o ts_state \<Rightarrow> 'o ts_state \<Rightarrow> bool" where
  "scan_frame xs s s' \<longleftrightarrow>
     (\<exists>a a' h n. bufs s (buf_addrs (g_tsdata s)) = Some a \<and> length a' = length a \<and>
        drop (length xs) a' = drop (length xs) a \<and> stamped (tds (proc s)) h \<and>
        s' = s\<lparr>bufs := (bufs s)(buf_addrs (g_tsdata s) \<mapsto> a'), proc := (proc s)\<lparr>tds := h\<rparr>, self_stacks_searched := n\<rparr>)"

lemma stamped_refl [simp]: "stamped h h"
  by (simp add: stamped_def)

lemma stamped_trans: "stamped h h' \<Longrightarrow> stamped h' h'' \<Longrightarrow> stamped h h''"
  by (simp add: stamped_def)

lemma stampedE:
  assumes "stamped h h'" "h p = Some t"
  obtains t' where "h' p = Some t'" "unstamped t' = unstamped t"
  using assms unfolding stamped_def by (metis map_option_eq_Some)

lemma unstamped_eqD:
  assumes "unstamped t' = unstamped t"
  shows "user_stack_high t' = user_stack_high t" "local_block t' = local_block t" "td_next t' = td_next t"
    "ptr_list t' = ptr_list t" "self t' = self t" "is_active t' = is_active t"
proof -
  have "user_stack_high (unstamped t') = user_stack_high (unstamped t)" "local_block (unstamped t') = local_block (unstamped t)"
    "td_next (unstamped t') = td_next (unstamped t)" "ptr_list (unstamped t') = ptr_list (unstamped t)"
    "self (unstamped t') = self (unstamped t)" "is_active (unstamped t') = is_active (unstamped t)"
    by (simp_all only: assms)
  then show "user_stack_high t' = user_stack_high t" "local_block t' = local_block t" "td_next t' = td_next t"
    "ptr_list t' = ptr_list t" "self t' = self t" "is_active t' = is_active t"
    by (simp_all add: unstamped_def)
qed

lemma stamped_upd:
  assumes "h p = Some t" "unstamped t' = unstamped t" "\<not> TIMESTAMP_IS_ACTIVE (local_timestamp t')"
  shows "stamped h (h(p \<mapsto> t'))"
  using assms by (auto simp: stamped_def lowered_def)

lemma scan_frame_refl: "scanning xs S s \<Longrightarrow> scan_frame xs s s"
  unfolding scan_frame_def scanning_def
  by (elim exE conjE, rule exI, rule exI, rule exI [of _ "tds (proc s)"], rule exI [of _ "self_stacks_searched s"])
     (auto simp: fun_upd_idem)

lemma scan_frame_trans:
  assumes "scan_frame xs s s'" "scan_frame xs s' s''"
  shows "scan_frame xs s s''"
proof -
  obtain a a' h n where 1: "bufs s (buf_addrs (g_tsdata s)) = Some a" "length a' = length a"
    "drop (length xs) a' = drop (length xs) a" "stamped (tds (proc s)) h"
    "s' = s\<lparr>bufs := (bufs s)(buf_addrs (g_tsdata s) \<mapsto> a'), proc := (proc s)\<lparr>tds := h\<rparr>, self_stacks_searched := n\<rparr>"
    using assms(1) unfolding scan_frame_def by blast
  obtain b b' h' n' where 2: "bufs s' (buf_addrs (g_tsdata s')) = Some b" "length b' = length b"
    "drop (length xs) b' = drop (length xs) b" "stamped (tds (proc s')) h'"
    "s'' = s'\<lparr>bufs := (bufs s')(buf_addrs (g_tsdata s') \<mapsto> b'), proc := (proc s')\<lparr>tds := h'\<rparr>, self_stacks_searched := n'\<rparr>"
    using assms(2) unfolding scan_frame_def by blast
  have "b = a'" using 1(5) 2(1) by simp
  moreover have "stamped (tds (proc s)) h'" using 1(4,5) 2(4) stamped_trans by auto
  moreover have "s'' = s\<lparr>bufs := (bufs s)(buf_addrs (g_tsdata s) \<mapsto> b'), proc := (proc s)\<lparr>tds := h'\<rparr>, self_stacks_searched := n'\<rparr>"
    using 1(5) 2(5) by simp
  ultimately show ?thesis using 1(1,2,3) 2(2,3) unfolding scan_frame_def by metis
qed

lemma stamped_nxt: "stamped h h' \<Longrightarrow> nxt h' = nxt h"
proof
  fix p assume s: "stamped h h'"
  then have "map_option unstamped (h' p) = map_option unstamped (h p)" by (simp add: stamped_def)
  then show "nxt h' p = nxt h p"
    by (cases "h p"; cases "h' p") (auto simp: nxt_def dest: unstamped_eqD(3))
qed

lemma search_buf_correct:
  assumes xs: "addr_list xs" "xs \<noteq> []" "dbg \<longrightarrow> 0 \<notin> set xs" and s: "scanning xs S s"
    and r: "readable (w_memory w) r"
  shows "returns (search_buf dbg w r s) (\<lambda>s'. scan_frame xs s s' \<and>
    scanning xs (S \<union> all_hits xs (range_words (w_memory w) r)) s' \<and>
    proc s' = proc s \<and> self_stacks_searched s' = self_stacks_searched s)"
proof -
  let ?B = "buf_addrs (g_tsdata s)"
  obtain a where a: "bufs s ?B = Some a" "map_ready (g_tsdata s) xs a" "marking xs S a"
    using s by (auto simp: scanning_def)
  from search_range_correct [OF xs(1,2) a(2,3) readable_words [OF r] xs(3)]
  obtain b where b: "search_range dbg (g_tsdata s) (w_memory w) r a = Inr b"
    "scanned xs a (S \<union> all_hits xs (range_words (w_memory w) r)) b" by (rule returnsE)
  then have "search_buf dbg w r s = Inr (set_buf ?B b s)" using a(1) by (simp add: search_buf_def)
  moreover have "scan_frame xs s (set_buf ?B b s)"
    using a(1) b(2) unfolding scan_frame_def
    by (intro exI [of _ a] exI [of _ b] exI [of _ "tds (proc s)"] exI [of _ "self_stacks_searched s"])
       (simp add: set_buf_def scanned_def)
  moreover have "scanning xs (S \<union> all_hits xs (range_words (w_memory w) r)) (set_buf ?B b s)"
    using scanned_ready [OF b(2) a(2)] b(2) by (simp add: scanning_def set_buf_def scanned_def)
  ultimately show ?thesis by (simp add: set_buf_def)
qed

lemma search_thread_correct:
  assumes xs: "addr_list xs" "xs \<noteq> []" "dbg \<longrightarrow> 0 \<notin> set xs" and s: "scanning xs S s"
    and t: "tds (proc s) td = Some t" and r: "\<And>r. r \<in> set (thread_ranges rsp t) \<Longrightarrow> readable (w_memory w) r"
  shows "returns (search_thread dbg w rsp td s) (\<lambda>s'. scan_frame xs s s' \<and>
    scanning xs (S \<union> all_hits xs (thread_words (w_memory w) rsp t)) s' \<and>
    proc s' = proc s \<and> self_stacks_searched s' = self_stacks_searched s)"
proof -
  let ?r = "\<lparr>low = rsp, high = user_stack_high t\<rparr>"
  have r1: "readable (w_memory w) ?r" using r by (simp add: thread_ranges_def)
  from search_buf_correct [where dbg = dbg, OF xs s r1]
  obtain s1 where s1: "search_buf dbg w ?r s = Inr s1" "scan_frame xs s s1"
    "scanning xs (S \<union> all_hits xs (range_words (w_memory w) ?r)) s1" "proc s1 = proc s"
    "self_stacks_searched s1 = self_stacks_searched s" by (auto elim: returnsE)
  have us: "threadscan_thread_user_stack td (proc s) = Inr \<lparr>low = user_stack_low t, high = user_stack_high t\<rparr>"
    using t by (simp add: threadscan_thread_user_stack_def)
  show ?thesis
  proof (cases "low (local_block t) > 0")
    case True
    then have r2: "readable (w_memory w) (local_block t)" using r by (simp add: thread_ranges_def)
    from search_buf_correct [where dbg = dbg, OF xs s1(3) r2]
    obtain s2 where s2: "search_buf dbg w (local_block t) s1 = Inr s2" "scan_frame xs s1 s2"
      "scanning xs (S \<union> all_hits xs (range_words (w_memory w) ?r) \<union> all_hits xs (range_words (w_memory w) (local_block t))) s2"
      "proc s2 = proc s1" "self_stacks_searched s2 = self_stacks_searched s1" by (auto elim: returnsE)
    then show ?thesis using True us s1 t scan_frame_trans [OF s1(2) s2(2)]
      by (simp add: search_thread_def thread_words_def thread_ranges_def Un_assoc)
  next
    case False
    then show ?thesis using us s1 t by (simp add: search_thread_def thread_words_def thread_ranges_def)
  qed
qed

lemma unstamped_raised [simp]: "unstamped (raised_td g t) = unstamped t"
  by (simp add: raised_td_def unstamped_def)

lemma signal_handler_correct:
  assumes xs: "addr_list xs" "xs \<noteq> []" "dbg \<longrightarrow> 0 \<notin> set xs" and s: "scanning xs S s"
    and t: "tds (proc s) td = Some t" "td \<noteq> 0" "dbg \<longrightarrow> w_rsp w td \<noteq> 0"
    and r: "\<And>r. r \<in> set (thread_ranges (w_rsp w td) t) \<Longrightarrow> readable (w_memory w) r"
  shows "returns (signal_handler dbg w td s) (\<lambda>s'. scan_frame xs s s' \<and>
    scanning xs (S \<union> all_hits xs (thread_words (w_memory w) (w_rsp w td) t)) s' \<and>
    self_stacks_searched s' = self_stacks_searched s + 1)"
proof -
  define t1 where "t1 = raised_td (global_timestamp (proc s)) t"
  have t1: "threadscan_thread_cleanup_raise_flag dbg td (proc s) = Inr ((proc s)\<lparr>tds := (tds (proc s))(td \<mapsto> t1)\<rparr>)"
    "unstamped t1 = unstamped t" using raise_flag_eq [where s = "proc s", OF t(1,2)] by (simp_all add: t1_def)
  define s1 where "s1 = s\<lparr>proc := (proc s)\<lparr>tds := (tds (proc s))(td \<mapsto> t1)\<rparr>\<rparr>"
  have eqs: "thread_ranges rsp t1 = thread_ranges rsp t" "thread_words um rsp t1 = thread_words um rsp t" for rsp um
    using unstamped_eqD [OF t1(2)] by (simp_all add: thread_ranges_def thread_words_def)
  have "scanning xs S s1" using s by (simp add: scanning_def s1_def)
  from search_thread_correct [where dbg = dbg and td = td and t = t1 and rsp = "w_rsp w td" and w = w, OF xs this]
  obtain s2 where s2: "search_thread dbg w (w_rsp w td) td s1 = Inr s2" "scan_frame xs s1 s2"
    "scanning xs (S \<union> all_hits xs (thread_words (w_memory w) (w_rsp w td) t)) s2" "proc s2 = proc s1"
    "self_stacks_searched s2 = self_stacks_searched s1"
    using r by (auto simp: eqs s1_def elim: returnsE)
  define t3 where "t3 = t1\<lparr>local_timestamp := TIMESTAMP (local_timestamp t1)\<rparr>"
  define s3 where "s3 = s2\<lparr>self_stacks_searched := self_stacks_searched s + 1, proc := (proc s)\<lparr>tds := (tds (proc s))(td \<mapsto> t3)\<rparr>\<rparr>"
  have "signal_handler dbg w td s = Inr s3"
    using t t1(1) s2(1,4,5)
    by (simp add: signal_handler_def on_proc_def search_self_stack_def c_assert_def s1_def
        threadscan_thread_cleanup_lower_flag_def s3_def t3_def)
  moreover have "scanning xs (S \<union> all_hits xs (thread_words (w_memory w) (w_rsp w td) t)) s3"
    using s2(3) by (simp add: scanning_def s3_def)
  moreover have "scan_frame xs s s3"
  proof -
    have "stamped (tds (proc s)) ((tds (proc s))(td \<mapsto> t3))"
      using t1(2) by (intro stamped_upd [where t = t]) (auto simp: t(1) t3_def unstamped_def)
    moreover obtain a a' h n where "bufs s (buf_addrs (g_tsdata s)) = Some a" "length a' = length a"
      "drop (length xs) a' = drop (length xs) a"
      "s2 = s1\<lparr>bufs := (bufs s)(buf_addrs (g_tsdata s) \<mapsto> a'), proc := (proc s)\<lparr>tds := h\<rparr>, self_stacks_searched := n\<rparr>"
      using s2(2) unfolding scan_frame_def by (auto simp: s1_def)
    ultimately show ?thesis unfolding scan_frame_def s3_def s1_def
      by (intro exI [of _ a] exI [of _ a'] exI [of _ "(tds (proc s))(td \<mapsto> t3)"] exI [of _ "self_stacks_searched s + 1"]) simp
  qed
  ultimately show ?thesis by (simp add: s3_def)
qed

text \<open>The words that thread \<open>td\<close> scans.\<close>

definition td_words :: "'o world \<Rightarrow> tdheap \<Rightarrow> size_t \<Rightarrow> size_t list" where
  "td_words w h td = thread_words (w_memory w) (w_rsp w td) (the (h td))"

text \<open>Thread \<open>td\<close> can scan: the ranges it reads are mapped.\<close>

definition td_scannable :: "bool \<Rightarrow> 'o world \<Rightarrow> tdheap \<Rightarrow> size_t \<Rightarrow> bool" where
  "td_scannable dbg w h td \<longleftrightarrow> td \<noteq> 0 \<and> (dbg \<longrightarrow> w_rsp w td \<noteq> 0) \<and>
     (\<exists>t. h td = Some t \<and> (\<forall>r \<in> set (thread_ranges (w_rsp w td) t). readable (w_memory w) r))"

lemma stamped_words:
  assumes "stamped h h'" "h td = Some t"
  shows "td_words w h' td = td_words w h td" "td_scannable dbg w h td \<Longrightarrow> td_scannable dbg w h' td"
proof -
  obtain t' where t': "h' td = Some t'" "unstamped t' = unstamped t" using assms by (rule stampedE)
  then show "td_words w h' td = td_words w h td"
    using assms(2) unstamped_eqD [OF t'(2)] by (simp add: td_words_def thread_words_def thread_ranges_def)
  show "td_scannable dbg w h td \<Longrightarrow> td_scannable dbg w h' td"
    using assms(2) t'(1) unstamped_eqD [OF t'(2)] by (simp add: td_scannable_def thread_ranges_def)
qed

lemma scan_frame_stamped: "scan_frame xs s s' \<Longrightarrow> stamped (tds (proc s)) (tds (proc s'))"
  unfolding scan_frame_def by auto

lemma handlers_correct:
  assumes xs: "addr_list xs" "xs \<noteq> []" "dbg \<longrightarrow> 0 \<notin> set xs" and s: "scanning xs S s"
    and hs: "\<And>td. td \<in> set hs \<Longrightarrow> td_scannable dbg w (tds (proc s)) td"
  shows "returns (foldE (signal_handler dbg w) hs s) (\<lambda>s'. scan_frame xs s s' \<and>
    scanning xs (S \<union> all_hits xs (concat (map (td_words w (tds (proc s))) hs))) s' \<and>
    self_stacks_searched s' = self_stacks_searched s + int (length hs))"
proof (rule foldE_returns)
  show "scan_frame xs s s \<and> scanning xs (S \<union> all_hits xs (concat (map (td_words w (tds (proc s))) []))) s \<and>
    self_stacks_searched s = self_stacks_searched s + int (length ([] :: size_t list))"
    using s scan_frame_refl by simp
next
  fix us td vs s1
  assume split: "hs = us @ td # vs" and I: "scan_frame xs s s1 \<and>
    scanning xs (S \<union> all_hits xs (concat (map (td_words w (tds (proc s))) us))) s1 \<and>
    self_stacks_searched s1 = self_stacks_searched s + int (length us)"
  let ?h = "tds (proc s)" and ?h1 = "tds (proc s1)"
  have sc: "td_scannable dbg w ?h td" using hs split by simp
  then obtain t where "?h td = Some t" by (auto simp: td_scannable_def)
  note st = stamped_words [OF scan_frame_stamped [OF I [THEN conjunct1]] this]
  obtain t1 where t1: "?h1 td = Some t1" "td \<noteq> 0" "dbg \<longrightarrow> w_rsp w td \<noteq> 0"
    "\<And>r. r \<in> set (thread_ranges (w_rsp w td) t1) \<Longrightarrow> readable (w_memory w) r"
    using st(2) [OF sc] by (auto simp: td_scannable_def)
  have w1: "thread_words (w_memory w) (w_rsp w td) t1 = td_words w ?h td"
    using st(1) [of w] t1(1) by (simp add: td_words_def)
  have "returns (signal_handler dbg w td s1) (\<lambda>s'. scan_frame xs s1 s' \<and>
    scanning xs (S \<union> all_hits xs (concat (map (td_words w ?h) us)) \<union> all_hits xs (td_words w ?h td)) s' \<and>
    self_stacks_searched s' = self_stacks_searched s1 + 1)"
    using signal_handler_correct [where dbg = dbg and w = w, OF xs _ t1] I w1 by auto
  then show "returns (signal_handler dbg w td s1) (\<lambda>s'. scan_frame xs s s' \<and>
    scanning xs (S \<union> all_hits xs (concat (map (td_words w ?h) (us @ [td])))) s' \<and>
    self_stacks_searched s' = self_stacks_searched s + int (length (us @ [td])))"
    by (rule returns_mono) (use I scan_frame_trans in \<open>auto simp: Un_assoc\<close>)
qed

text \<open>All words that are scanned when \<open>me\<close> reclaims: its own and those of the signalled threads.\<close>

definition scan_words :: "'o world \<Rightarrow> size_t \<Rightarrow> tdheap \<Rightarrow> size_t list \<Rightarrow> size_t list" where
  "scan_words w me h ls = td_words w h me @ concat (map (td_words w h) (filter (signalled (w_kill w) h me) ls))"

definition scan_ready :: "bool \<Rightarrow> 'o world \<Rightarrow> size_t \<Rightarrow> tdheap \<Rightarrow> size_t list \<Rightarrow> bool" where
  "scan_ready dbg w me h ls \<longleftrightarrow> me \<in> set ls \<and> td_scannable dbg w h me \<and>
     (\<forall>td \<in> set ls. w_kill w (self (the (h td))) \<noteq> EINVAL \<and>
        (signalled (w_kill w) h me td \<longrightarrow> td_scannable dbg w h td)) \<and>
     (\<forall>hs. mset (w_order w hs) = mset hs)"

lemma all_hits_cong: "set ws = set ws' \<Longrightarrow> all_hits xs ws = all_hits xs ws'"
  by (simp add: all_hits_def)

lemma scanning_searched [simp]: "scanning xs S (s\<lparr>self_stacks_searched := n\<rparr>) = scanning xs S s"
  by (simp add: scanning_def)

lemma scan_frame_searched [simp]: "scan_frame xs (s\<lparr>self_stacks_searched := n\<rparr>) s' = scan_frame xs s s'"
  by (simp add: scan_frame_def)

lemma do_reclaim_correct:
  assumes xs: "addr_list xs" "xs \<noteq> []" "dbg \<longrightarrow> 0 \<notin> set xs" and s: "scanning xs {} s"
    and l: "lists (proc s) ls ss" and sc: "scan_ready dbg w me (tds (proc s)) ls"
  shows "returns (do_reclaim dbg w (w_rsp w me) me s) (\<lambda>((addrs, cnt), s').
    addrs = buf_addrs (g_tsdata s) \<and> cnt = int (length xs) \<and> scan_frame xs s s' \<and>
    scanning xs (all_hits xs (scan_words w me (tds (proc s)) ls)) s')"
proof -
  let ?h = "tds (proc s)"
  define s0 where "s0 = s\<lparr>self_stacks_searched := 0\<rparr>"
  define sent where "sent = filter (signalled (w_kill w) ?h me) ls"
  have me: "me \<noteq> 0" "td_scannable dbg w ?h me" using sc by (auto simp: scan_ready_def td_scannable_def)
  then obtain t where t: "?h me = Some t"
    "\<And>r. r \<in> set (thread_ranges (w_rsp w me) t) \<Longrightarrow> readable (w_memory w) r" by (auto simp: td_scannable_def)
  have kill: "threadscan_thread_signal_all_but_me dbg (w_kill w) me (proc s) = Inr (int (length sent), sent)"
  proof -
    have "w_kill w (self t) \<noteq> EINVAL" if "td \<in> set ls" "?h td = Some t" for td t
      using sc that unfolding scan_ready_def by (metis option.sel)
    then show ?thesis using signal_all_except_eq [OF l, of "w_kill w" me] me(1)
      by (simp add: threadscan_thread_signal_all_but_me_def c_assert_def sent_def)
  qed
  have "scanning xs {} s0" using s by (simp add: s0_def)
  from search_thread_correct [where dbg = dbg and w = w and td = me and rsp = "w_rsp w me", OF xs this _ t(2)]
  obtain s1 where s1: "search_thread dbg w (w_rsp w me) me s0 = Inr s1" "scan_frame xs s s1"
    "scanning xs (all_hits xs (td_words w ?h me)) s1" "proc s1 = proc s" "self_stacks_searched s1 = 0"
    using t(1) by (auto simp: s0_def td_words_def elim: returnsE)
  have ord: "set (w_order w sent) = set sent" "length (w_order w sent) = length sent"
    using sc by (auto simp: scan_ready_def dest: mset_eq_setD mset_eq_length)
  have "td_scannable dbg w (tds (proc s1)) td" if "td \<in> set (w_order w sent)" for td
    using that sc unfolding ord(1) by (auto simp: sent_def scan_ready_def s1(4))
  from handlers_correct [where dbg = dbg and w = w and hs = "w_order w sent", OF xs s1(3) this]
  obtain s2 where s2: "foldE (signal_handler dbg w) (w_order w sent) s1 = Inr s2" "scan_frame xs s1 s2"
    "scanning xs (all_hits xs (td_words w ?h me) \<union> all_hits xs (concat (map (td_words w ?h) (w_order w sent)))) s2"
    "self_stacks_searched s2 = int (length sent)"
    unfolding s1(4,5) by (auto simp: ord(2) elim: returnsE)
  have sw: "all_hits xs (td_words w ?h me) \<union> all_hits xs (concat (map (td_words w ?h) (w_order w sent))) =
      all_hits xs (scan_words w me ?h ls)"
  proof -
    have "all_hits xs (concat (map (td_words w ?h) (w_order w sent))) = all_hits xs (concat (map (td_words w ?h) sent))"
      using ord(1) by (intro all_hits_cong) simp
    then show ?thesis by (simp add: scan_words_def sent_def)
  qed
  have fr: "scan_frame xs s s2" using s1(2) s2(2) by (rule scan_frame_trans)
  then have g: "g_tsdata s2 = g_tsdata s" by (auto simp: scan_frame_def)
  have "n_addrs (g_tsdata s) = int (length xs)" using s by (auto simp: scanning_def map_ready_def)
  then show ?thesis using kill s1(1) s2(1,3,4) fr g
    by (simp add: do_reclaim_def Let_def s0_def [symmetric] sw) (simp add: s0_def)
qed

subsection \<open>Storing\<close>

text \<open>
  The block that \<^verbatim>\<open>store_remaining_addrs\<close> makes of \<open>n\<close> addresses. With one address the element copied
  second is the first one, copied a moment before.
\<close>

definition stored_block :: "size_t \<Rightarrow> nat \<Rightarrow> size_t list \<Rightarrow> size_t list" where
  "stored_block nx n a = (let b = a[n := a ! 0] in b[n + 1 := b ! 1, 1 := of_nat n, 0 := nx])"

lemma stored_block_correct:
  assumes n: "0 < n" "n + 2 \<le> length a" "n < 2 ^ 31"
  shows "stored_block nx n a ! 0 = nx" "st_addrs (stored_block nx n a) = rotate 2 (take n a)"
    "st_ok (stored_block nx n a)"
proof -
  obtain x y z r where a: "a = x # y # z # r"
    using n(1,2) by (cases a; cases "tl a"; cases "tl (tl a)") auto
  have u: "unat (of_nat n :: size_t) = n" using n(3) by (intro unat_of_nat_64) simp
  have blk: "stored_block nx n a = nx # of_nat n # (if n = 1 then x # r else (z # r)[n - 2 := x, n - 1 := y])"
  proof (cases "n = 1")
    case True
    then show ?thesis by (simp add: stored_block_def a)
  next
    case False
    then obtain m where "n = Suc (Suc m)" using n(1) by (cases n; cases "n - 1") auto
    then show ?thesis by (simp add: stored_block_def a)
  qed
  then show "stored_block nx n a ! 0 = nx" by simp
  show "st_ok (stored_block nx n a)" using n(2,3) unfolding blk by (auto simp: st_ok_def u a split: nat.splits)
  show "st_addrs (stored_block nx n a) = rotate 2 (take n a)"
  proof (cases "n = 1")
    case True
    then show ?thesis unfolding blk by (simp add: st_addrs_def a numeral_2_eq_2)
  next
    case False
    then obtain m where m: "n = Suc (Suc m)" using n(1) by (cases n; cases "n - 1") auto
    have "m + 2 \<le> length (z # r)" using n(2) by (simp add: m a)
    then have "take (Suc (Suc m)) ((z # r)[m := x, Suc m := y]) = take m (z # r) @ [x, y]"
      by (simp add: take_Suc_conv_app_nth del: list_update.simps take_Suc_Cons)
    then show ?thesis using False u unfolding blk
      by (simp add: st_addrs_def m a numeral_2_eq_2 del: take_Suc_Cons list_update.simps)
         (simp add: a)
  qed
qed

lemma store_remaining_addrs_eq:
  assumes a: "bufs s p = Some a" and n: "0 < n" "n + 2 \<le> length a" "int n + 2 \<le> max_ptrs (g_tsdata s) * 2"
  shows "store_remaining_addrs dbg k p (int n) s =
    Inr (set_buf p (stored_block (storage (g_tsdata s)) n a) (s\<lparr>g_tsdata := (g_tsdata s)\<lparr>storage := p\<rparr>\<rparr>))"
proof -
  have nn: "nat (int n + 1) = n + 1" by simp
  moreover have "0 < length a" using n(2) by linarith
  ultimately show ?thesis using assms by (simp add: store_remaining_addrs_def stored_block_def Let_def)
qed

lemma storage_inv_cong:
  assumes "storage_inv s cs D" "\<And>c. c \<in> set cs \<Longrightarrow> bufs s' c = bufs s c"
    "storage (g_tsdata s') = storage (g_tsdata s)" "working_buffer_sz (g_tsdata s') = working_buffer_sz (g_tsdata s)"
    "D - D' \<subseteq> {(p, sz)}" "p \<notin> set cs"
  shows "storage_inv s' cs D'" "stored (bufs s') cs = stored (bufs s) cs"
proof -
  have "path (st_next (bufs s')) (storage (g_tsdata s)) cs"
    by (rule path_cong [of "st_next (bufs s)"]) (use assms(1,2) in \<open>auto simp: storage_inv_def st_next_def\<close>)
  moreover have "(\<lambda>c. (c, working_buffer_sz (g_tsdata s))) ` set cs \<subseteq> D'"
    using assms(1,5,6) by (auto simp: storage_inv_def)
  ultimately show "storage_inv s' cs D'" using assms(1,2,3,4) by (simp add: storage_inv_def)
  show "stored (bufs s') cs = stored (bufs s) cs" using assms(2) by (rule stored_cong)
qed

lemma storage_inv_store:
  assumes st: "storage_inv s cs D" and p: "p \<notin> set cs" "p \<noteq> 0" "(p, working_buffer_sz (g_tsdata s)) \<in> D"
    and n: "0 < n" "n + 2 \<le> length a" "n < 2 ^ 31"
    and s': "bufs s' = (bufs s)(p \<mapsto> stored_block (storage (g_tsdata s)) n a)"
      "g_tsdata s' = (g_tsdata s)\<lparr>storage := p\<rparr>"
  shows "storage_inv s' (p # cs) D" "stored (bufs s') (p # cs) = rotate 2 (take n a) @ stored (bufs s) cs"
proof -
  note blk = stored_block_correct [OF n, of "storage (g_tsdata s)"]
  have keep: "bufs s' c = bufs s c" if "c \<in> set cs" for c using that p(1) by (auto simp: s')
  have "path (st_next (bufs s')) (storage (g_tsdata s)) cs"
    by (rule path_cong [of "st_next (bufs s)"]) (use st keep in \<open>auto simp: storage_inv_def st_next_def\<close>)
  then show "storage_inv s' (p # cs) D"
    using st p blk(1,3) keep by (auto simp: storage_inv_def s' st_next_def)
  show "stored (bufs s') (p # cs) = rotate 2 (take n a) @ stored (bufs s) cs"
    using stored_cong [OF keep, of cs] blk(2) by (simp add: stored_def s')
qed

subsection \<open>The invariant of the library\<close>

text \<open>
  Between two calls: the sizes fit, the storage list consists of the blocks \<open>cs\<close>, the lists of threads
  are \<open>ls\<close> and \<open>ss\<close>, the allocator owns the blocks \<open>D\<close>, every live thread has a proper queue and its
  helper flag is down.
\<close>

definition q_live :: "queue_t \<Rightarrow> bool" where
  "q_live q \<longleftrightarrow> q_inv q \<and> q_nowrap q \<and> unat (idx_head q) + unat (capacity q) < 2 ^ 64 \<and> 2 \<le> unat (capacity q)"

definition ts_inv :: "'o kernel \<Rightarrow> 'o ts_state \<Rightarrow> size_t list \<Rightarrow> size_t list \<Rightarrow> size_t list \<Rightarrow>
    (size_t \<times> size_t) set \<Rightarrow> bool" where
  "ts_inv k s cs ls ss D \<longleftrightarrow>
     sized (g_tsdata s) \<and> storage_inv s cs D \<and> lists (proc s) ls ss \<and> alloc_ready k (mem (proc s)) D \<and>
     (\<forall>td \<in> set ls. \<exists>t. tds (proc s) td = Some t \<and> q_live (ptr_list t)) \<and>
     (\<forall>td \<in> set ls. lowered (tds (proc s)) td)"

lemma ts_inv_queue:
  assumes "ts_inv k s cs ls ss D" "td \<in> set ls"
  shows "\<exists>t. tds (proc s) td = Some t \<and> q_inv (ptr_list t)"
  using assms by (auto simp: ts_inv_def q_live_def)

lemma emptied_queue:
  assumes "q_live (ptr_list t)"
  shows "q_live (ptr_list (emptied t))" "q_list (ptr_list (emptied t)) = []"
proof -
  have q: "q_inv (ptr_list t)" "q_nowrap (ptr_list t)" "unat (idx_head (ptr_list t)) + unat (capacity (ptr_list t)) < 2 ^ 64"
    using assms by (simp_all add: q_live_def)
  note p = popped_correct [OF q(1) order_refl]
  show "q_list (ptr_list (emptied t)) = []" using p(2) length_q_list [OF q(1)] by (simp add: emptied_def)
  show "q_live (ptr_list (emptied t))"
    using p(1) q_nowrap_popped [OF q(1,2) order_refl q(3)] assms by (simp add: q_live_def emptied_def popped_def)
qed

text \<open>Draining the queues and scanning keep what the invariant says of the threads.\<close>

lemma threads_kept:
  assumes inv: "ts_inv k s cs ls ss D" and h: "stamped (drained (set ls) (tds (proc s))) h"
  shows "nxt h = nxt (tds (proc s))"
    and "\<forall>td \<in> set ls. \<exists>t. h td = Some t \<and> q_live (ptr_list t)"
    and "\<forall>td \<in> set ls. lowered h td" and "queued h ls = []"
proof -
  let ?h0 = "tds (proc s)" and ?h1 = "drained (set ls) (tds (proc s))"
  show "nxt h = nxt ?h0" using stamped_nxt [OF h] by (simp add: nxt_drained)
  have rec: "\<exists>t. h td = Some t \<and> q_live (ptr_list t) \<and> q_list (ptr_list t) = []" if td: "td \<in> set ls" for td
  proof -
    obtain t where t: "?h0 td = Some t" "q_live (ptr_list t)" using inv td by (auto simp: ts_inv_def)
    then have "?h1 td = Some (emptied t)" using td by (simp add: drained_def)
    with h obtain t' where "h td = Some t'" "unstamped t' = unstamped (emptied t)" by (rule stampedE)
    then show ?thesis using unstamped_eqD(4) [of t' "emptied t"] emptied_queue [OF t(2)] by simp
  qed
  then show "\<forall>td \<in> set ls. \<exists>t. h td = Some t \<and> q_live (ptr_list t)" by blast
  have "td_addrs h td = []" if "td \<in> set ls" for td using rec [OF that] by (auto simp: td_addrs_def)
  then show "queued h ls = []" by (simp add: queued_def)
  have "lowered ?h1 td" if "td \<in> set ls" for td
    using inv that by (auto simp: ts_inv_def lowered_def drained_def emptied_def)
  then show "\<forall>td \<in> set ls. lowered h td" using h by (auto simp: stamped_def)
qed

subsection \<open>Sweeping and storing\<close>

text \<open>What the sweep frees and what it leaves of the addresses \<open>xs\<close> when those with index in \<open>H\<close> are marked.\<close>

definition swept :: "size_t list \<Rightarrow> nat set \<Rightarrow> size_t list" where
  "swept xs H = map ((!) xs) (filter (\<lambda>i. i \<notin> H) [0..<length xs])"

definition survivors :: "size_t list \<Rightarrow> nat set \<Rightarrow> size_t list" where
  "survivors xs H = replicate (length (takeWhile (\<lambda>i. i \<in> H) [0..<length xs])) 0 @
     map ((!) xs) (filter (\<lambda>i. i \<in> H) (dropWhile (\<lambda>i. i \<in> H) [0..<length xs]))"

lemma take_marking:
  "marking xs H a \<Longrightarrow> take (length xs) a = map (\<lambda>i. mark (i \<in> H) (xs ! i)) [0..<length xs]"
  by (rule nth_equalityI) (auto simp: marking_def)

lemma is_marked_mark: "aligned4 x \<Longrightarrow> is_marked (mark b x) = b"
  using aligned4_even [of x] aligned4_mark_odd [of x] by (auto simp: is_marked_def mark_def)

lemma swept_survivors:
  assumes m: "marking xs H a" and al: "\<forall>x \<in> set xs. aligned4 x"
  shows "filter (\<lambda>v. \<not> is_marked v) (take (length xs) a) = swept xs H"
    and "kept (take (length xs) a) = survivors xs H"
proof -
  let ?f = "\<lambda>i. mark (i \<in> H) (xs ! i)"
  have im: "is_marked (?f i) = (i \<in> H)" if "i \<in> set [0..<length xs]" for i
    using al that by (intro is_marked_mark) simp
  note tm = take_marking [OF m]
  have "filter (\<lambda>i. \<not> is_marked (?f i)) [0..<length xs] = filter (\<lambda>i. i \<notin> H) [0..<length xs]"
    using im by (intro filter_cong) auto
  then show "filter (\<lambda>v. \<not> is_marked v) (take (length xs) a) = swept xs H"
    unfolding tm swept_def filter_map comp_def by (simp add: mark_def)
  have "takeWhile (\<lambda>i. is_marked (?f i)) [0..<length xs] = takeWhile (\<lambda>i. i \<in> H) [0..<length xs]"
    "dropWhile (\<lambda>i. is_marked (?f i)) [0..<length xs] = dropWhile (\<lambda>i. i \<in> H) [0..<length xs]"
    by (rule takeWhile_cong, simp, use im in simp) (rule dropWhile_cong, simp, use im in simp)
  moreover have "filter (\<lambda>i. is_marked (?f i)) (dropWhile (\<lambda>i. i \<in> H) [0..<length xs]) =
      filter (\<lambda>i. i \<in> H) (dropWhile (\<lambda>i. i \<in> H) [0..<length xs])"
  proof (rule filter_cong [OF refl])
    fix i assume "i \<in> set (dropWhile (\<lambda>i. i \<in> H) [0..<length xs])"
    then have "i \<in> set [0..<length xs]" by (rule set_dropWhileD)
    then show "is_marked (?f i) = (i \<in> H)" by (rule im)
  qed
  moreover have "PTR_MASK (?f i) = xs ! i"
    if "i \<in> set (filter (\<lambda>i. i \<in> H) (dropWhile (\<lambda>i. i \<in> H) [0..<length xs]))" for i
  proof -
    have "i < length xs" "i \<in> H" using that by (auto dest: set_dropWhileD)
    then show ?thesis using al by (simp add: mark_def)
  qed
  ultimately show "kept (take (length xs) a) = survivors xs H"
    unfolding kept_def tm survivors_def takeWhile_map dropWhile_map filter_map by (simp add: comp_def)
qed

lemma length_swept_survivors: "length (survivors xs H) + length (swept xs H) = length xs"
proof -
  have "length (takeWhile P ys) + length (filter P (dropWhile P ys)) = length (filter P ys)" for P and ys :: "nat list"
    by (induction ys) auto
  then have "length (survivors xs H) = length (filter (\<lambda>i. i \<in> H) [0..<length xs])" by (simp add: survivors_def)
  then show ?thesis
    using sum_length_filter_compl [of "\<lambda>i. i \<in> H" "[0..<length xs]"] by (simp add: swept_def)
qed

lemma sweep_store_correct:
  assumes a: "bufs s p = Some a" "marking xs H a" and xs: "addr_list xs"
    and room: "length xs + 2 \<le> length a" "int (length xs) + 2 \<le> max_ptrs (g_tsdata s) * 2" "length xs < 2 ^ 31"
    and st: "storage_inv s cs D" "p \<notin> set cs" "p \<noteq> 0" "(p, working_buffer_sz (g_tsdata s)) \<in> D"
    and m: "alloc_ready k (mem (proc s)) D"
  shows "returns (bindE (handle_unreferenced_ptrs a (int (length xs))) (\<lambda>(a, remaining, fs).
      bindE (threadscan_util_randomize a remaining) (\<lambda>a.
      store_remaining_addrs dbg k p remaining (set_buf p a (s\<lparr>freed := freed s @ fs\<rparr>))))) (\<lambda>s'.
    \<exists>cs' D' m' st'. storage_inv s' cs' D' \<and> alloc_ready k m' D' \<and>
      mset (stored (bufs s') cs') = mset (survivors xs H) + mset (stored (bufs s) cs) \<and>
      freed s' = freed s @ swept xs H \<and> g_tsdata s' = (g_tsdata s)\<lparr>storage := st'\<rparr> \<and>
      proc s' = (proc s)\<lparr>mem := m'\<rparr> \<and>
      (cs' = cs \<and> D' = D - {(p, working_buffer_sz (g_tsdata s))} \<or> cs' = p # cs \<and> D' = D))"
proof -
  have al: "\<forall>x \<in> set xs. aligned4 x" using xs by (simp add: addr_list_def)
  let ?n = "length xs"
  let ?L = "survivors xs H"
  define n where "n = length ?L"
  have nl: "n \<le> ?n" using length_swept_survivors [of xs H] by (simp add: n_def)
  define b where "b = ?L @ replicate (?n - n) 0 @ drop ?n a"
  have sw: "handle_unreferenced_ptrs a (int ?n) = Inr (b, int n, swept xs H)"
    using room(1) by (simp add: handle_unreferenced_ptrs_eq swept_survivors [OF a(2) al] b_def n_def)
  have lb: "length b = length a" using nl room(1) by (simp add: b_def n_def)
  obtain c where c: "threadscan_util_randomize b (int n) = Inr c" "mset (take n c) = mset ?L" "drop n c = drop n b"
    using threadscan_util_randomize_correct [of "int n" b] nl room lb
    by (auto simp: b_def n_def elim!: returnsE)
  have "length (drop n c) = length (drop n b)" "length (take n c) = n"
    using c(2,3) by (auto dest: mset_eq_length simp: n_def)
  then have lc: "length c = length a" using nl room lb by auto
  define s1 where "s1 = set_buf p c (s\<lparr>freed := freed s @ swept xs H\<rparr>)"
  have s1: "bufs s1 = (bufs s)(p \<mapsto> c)" "g_tsdata s1 = g_tsdata s" "proc s1 = proc s" "freed s1 = freed s @ swept xs H"
    by (simp_all add: s1_def set_buf_def)
  have prog: "bindE (handle_unreferenced_ptrs a (int ?n)) (\<lambda>(a, remaining, fs).
      bindE (threadscan_util_randomize a remaining) (\<lambda>a.
      store_remaining_addrs dbg k p remaining (set_buf p a (s\<lparr>freed := freed s @ fs\<rparr>)))) =
      store_remaining_addrs dbg k p (int n) s1" by (simp add: sw c(1) s1_def)
  have keep: "bufs s1 x = bufs s x" if "x \<in> set cs" for x using that st(2) by (auto simp: s1)
  have st1: "storage_inv s1 cs D" "stored (bufs s1) cs = stored (bufs s) cs"
    using storage_inv_cong [OF st(1) keep _ _ _ st(2), of D] by (simp_all add: s1(2))
  show ?thesis
  proof (cases "n = 0")
    case True
    obtain m' where m': "drop_buf dbg k p s1 = Inr (s1\<lparr>proc := (proc s1)\<lparr>mem := m'\<rparr>, bufs := (bufs s1)(p := None)\<rparr>)"
      "alloc_ready k m' (D - {(p, working_buffer_sz (g_tsdata s))})"
      using m st(4) by (auto simp: s1 intro: drop_bufE [of k s1 D p "working_buffer_sz (g_tsdata s)" dbg])
    define s2 where "s2 = s1\<lparr>proc := (proc s1)\<lparr>mem := m'\<rparr>, bufs := (bufs s1)(p := None)\<rparr>"
    have keep2: "bufs s2 x = bufs s1 x" if "x \<in> set cs" for x using that st(2) by (auto simp: s2_def)
    have "storage_inv s2 cs (D - {(p, working_buffer_sz (g_tsdata s))})" "stored (bufs s2) cs = stored (bufs s) cs"
      using storage_inv_cong [where s' = s2 and sz = "working_buffer_sz (g_tsdata s)" and
          D' = "D - {(p, working_buffer_sz (g_tsdata s))}", OF st1(1) keep2 _ _ _ st(2)] st1(2)
      by (auto simp: s2_def)
    moreover have "?L = []" using True by (simp add: n_def)
    moreover have "store_remaining_addrs dbg k p (int n) s1 = Inr s2"
      using m'(1) True by (simp add: store_remaining_addrs_def s2_def)
    moreover have "freed s2 = freed s @ swept xs H" "\<exists>st. g_tsdata s2 = (g_tsdata s)\<lparr>storage := st\<rparr>"
      "proc s2 = (proc s)\<lparr>mem := m'\<rparr>" by (auto simp: s2_def s1 intro: exI [of _ "storage (g_tsdata s)"])
    ultimately show ?thesis using m'(2) unfolding prog
      by (auto intro!: exI [of _ cs] exI [of _ "D - {(p, working_buffer_sz (g_tsdata s))}"])
  next
    case False
    define s2 where "s2 = set_buf p (stored_block (storage (g_tsdata s1)) n c) (s1\<lparr>g_tsdata := (g_tsdata s1)\<lparr>storage := p\<rparr>\<rparr>)"
    have n2: "0 < n" "n + 2 \<le> length c" "n < 2 ^ 31" using False nl room lc by auto
    have "store_remaining_addrs dbg k p (int n) s1 = Inr s2"
      unfolding s2_def using n2 nl room(2) by (intro store_remaining_addrs_eq) (auto simp: s1)
    moreover have "storage_inv s2 (p # cs) D" "stored (bufs s2) (p # cs) = rotate 2 (take n c) @ stored (bufs s1) cs"
      using storage_inv_store [OF st1(1) st(2,3) _ n2, of s2] st(4) by (auto simp: s2_def set_buf_def s1(2))
    moreover have "mset (rotate 2 (take n c)) = mset ?L" using c(2) by (simp add: mset_rotate)
    ultimately show ?thesis unfolding prog using m st1(2)
      by (auto simp: s2_def set_buf_def s1 intro!: exI [of _ "p # cs"] exI [of _ D] exI [of _ "mem (proc s)"])
  qed
qed

subsection \<open>A reclamation as a whole\<close>

text \<open>What a scan depends on in the record of a thread.\<close>

definition scan_view :: "thread_data \<Rightarrow> size_t \<times> mem_range \<times> bool \<times> size_t" where
  "scan_view t = (user_stack_high t, local_block t, is_active t, self t)"

lemma scan_view_cong:
  assumes "\<And>td. map_option scan_view (h' td) = map_option scan_view (h td)"
  shows "scan_ready dbg w me h' ls = scan_ready dbg w me h ls" "scan_words w me h' ls = scan_words w me h ls"
proof -
  have eq: "td_words w h' td = td_words w h td \<and> td_scannable dbg w h' td = td_scannable dbg w h td \<and>
      self (the (h' td)) = self (the (h td)) \<and> signalled pk h' me td = signalled pk h me td" for td pk
    using assms [of td] by (cases "h td"; cases "h' td")
      (auto simp: td_words_def thread_words_def thread_ranges_def td_scannable_def signalled_def scan_view_def)
  then have "td_words w h' = td_words w h" "signalled (w_kill w) h' me = signalled (w_kill w) h me" by auto
  then show "scan_ready dbg w me h' ls = scan_ready dbg w me h ls" "scan_words w me h' ls = scan_words w me h ls"
    using eq by (simp_all add: scan_ready_def scan_words_def)
qed

lemma scan_view_drained: "map_option scan_view (drained T h td) = map_option scan_view (h td)"
  by (cases "h td") (auto simp: drained_def emptied_def scan_view_def)

text \<open>The working buffer is apart from the stored blocks.\<close>

lemma fresh_block:
  assumes "storage_inv s cs D" "\<forall>r \<in> D. apart r (p, sz)" "sz = working_buffer_sz (g_tsdata s)" "sz \<noteq> 0"
  shows "p \<notin> set cs"
proof
  assume "p \<in> set cs"
  then have "apart (p, sz) (p, sz)" using assms by (auto simp: storage_inv_def)
  then show False using assms(4) by (simp add: apart_def before_def unat_eq_zero)
qed

lemma pages_mono: "m \<le> n \<Longrightarrow> pages m \<le> pages n"
  by (simp add: pages_def div_le_mono)

text \<open>
  The three stages of \<^verbatim>\<open>threadscan_reclaim\<close> after its call of the allocator: installing the working
  memory \<open>p\<close>; gathering, sorting and mapping the addresses; and everything from the scan to the end.
\<close>

definition install :: "size_t \<Rightarrow> 'o alloc_state \<Rightarrow> 'o ts_state \<Rightarrow> 'o ts_state" where
  "install p m s =
     (set_buf p (replicate (unat (working_buffer_sz (g_tsdata s)) div 8) 0) (s\<lparr>proc := (proc s)\<lparr>mem := m\<rparr>\<rparr>))
        \<lparr>g_tsdata := assign_working_space p (g_tsdata s)\<rparr>"

definition prepare :: "bool \<Rightarrow> 'o kernel \<Rightarrow> 'o ts_state \<Rightarrow> 'o ts_state res" where
  "prepare dbg k s =
     bindE (generate_working_pointers_list dbg k s) (\<lambda>(n, s).
     let s = s\<lparr>g_tsdata := (g_tsdata s)\<lparr>n_addrs := n\<rparr>\<rparr> in
     bindE (buf_at s (buf_addrs (g_tsdata s))) (\<lambda>a.
     bindE (threadscan_util_sort a (n_addrs (g_tsdata s))) (\<lambda>a.
     bindE (generate_scan_map (g_tsdata s) a) (\<lambda>(ts, a).
     Inr (set_buf (buf_addrs ts) a (s\<lparr>g_tsdata := ts\<rparr>))))))"

definition finish :: "bool \<Rightarrow> 'o world \<Rightarrow> size_t \<Rightarrow> 'o ts_state \<Rightarrow> 'o ts_state res" where
  "finish dbg w me s =
     bindE (do_reclaim dbg w (w_rsp w me) me s) (\<lambda>((addrs, cnt), s).
     let s = s\<lparr>proc := threadscan_thread_cleanup_release (proc s)\<rparr> in
     bindE (buf_at s addrs) (\<lambda>a.
     bindE (assert_monotonicity dbg a cnt) (\<lambda>_.
     bindE (handle_unreferenced_ptrs a cnt) (\<lambda>(a, remaining, fs).
     bindE (threadscan_util_randomize a remaining) (\<lambda>a.
     store_remaining_addrs dbg (w_kernel w) addrs remaining (set_buf addrs a (s\<lparr>freed := freed s @ fs\<rparr>)))))))"

lemma bindE_pair: "bindE (case x of (a, b) \<Rightarrow> f a b) g = (case x of (a, b) \<Rightarrow> bindE (f a b) g)"
  by (cases x) simp

lemma threadscan_reclaim_stages:
  "threadscan_reclaim dbg w me s =
     bindE (threadscan_alloc_mmap dbg (w_kernel w) (working_buffer_sz (g_tsdata s)) (mem (proc s))) (\<lambda>(p, m).
     bindE (prepare dbg (w_kernel w) (install p m s)) (finish dbg w me))"
  unfolding threadscan_reclaim_def prepare_def finish_def install_def Let_def
  by (simp add: bindE_pair bindE_assoc set_buf_def)

text \<open>From the working memory to the scan: the addresses are gathered, sorted and mapped.\<close>

lemma prepare_correct:
  assumes inv: "ts_inv k s cs ls ss D" and p: "p \<notin> set cs"
    and A: "A = pending s cs ls" "dbg \<longrightarrow> 0 \<notin> set A" "int (length A) + 2 \<le> max_ptrs (g_tsdata s) * 2"
    and m: "alloc_ready k m (insert (p, working_buffer_sz (g_tsdata s)) D)"
  obtains sr c ts m' where
    "prepare dbg k (install p m s) = Inr sr"
    "sr = s\<lparr>proc := (proc s)\<lparr>mem := m', tds := drained (set ls) (tds (proc s))\<rparr>,
        g_tsdata := ts, bufs := ((bufs s) |` (- set cs))(p \<mapsto> c)\<rparr>"
    "scanning (sort A) {} sr" "length A + 2 \<le> length c" "buf_addrs ts = p" "storage ts = 0" "sized ts"
    "max_ptrs ts = max_ptrs (g_tsdata s)" "working_buffer_sz ts = working_buffer_sz (g_tsdata s)"
    "alloc_ready k m' (insert (p, working_buffer_sz (g_tsdata s)) D - (\<lambda>c. (c, working_buffer_sz (g_tsdata s))) ` set cs)"
proof -
  let ?W = "working_buffer_sz (g_tsdata s)" and ?ts0 = "assign_working_space p (g_tsdata s)"
  obtain i where i: "1 \<le> i" "i \<le> 32" "max_ptrs (g_tsdata s) = 262144 * int i"
    "unat ?W div 8 = 2 * (262144 * i) + 1024 * i" "scan_map_index ?ts0 = int (2 * (262144 * i))"
    using inv by (auto simp: ts_inv_def intro: sized_facts [of "g_tsdata s" p])
  define s0 where "s0 = install p m s"
  define a0 :: "size_t list" where "a0 = replicate (unat ?W div 8) 0"
  have la0: "length a0 = 2 * (262144 * i) + 1024 * i" by (simp add: a0_def i(4))
  have lA: "length A + 2 \<le> 2 * (262144 * i)" using A(3) i(3) by linarith
  have f0: "bufs s0 = (bufs s)(p \<mapsto> a0)" "buf_addrs (g_tsdata s0) = p" "proc s0 = (proc s)\<lparr>mem := m\<rparr>"
    "max_ptrs (g_tsdata s0) = max_ptrs (g_tsdata s)" "working_buffer_sz (g_tsdata s0) = ?W"
    "storage (g_tsdata s0) = storage (g_tsdata s)" "g_tsdata s0 = ?ts0"
    by (simp_all add: s0_def install_def set_buf_def assign_working_space_def a0_def)
  have st: "storage_inv s cs D" using inv by (simp add: ts_inv_def)
  have st0: "storage_inv s0 cs (insert (p, ?W) D)" "stored (bufs s0) cs = stored (bufs s) cs"
  proof -
    have "bufs s0 c = bufs s c" if "c \<in> set cs" for c using that p by (auto simp: f0(1))
    from storage_inv_cong [where sz = ?W and D' = "insert (p, ?W) D", OF st this _ _ _ p]
    show "storage_inv s0 cs (insert (p, ?W) D)" "stored (bufs s0) cs = stored (bufs s) cs"
      using f0(5,6) by auto
  qed
  have pe: "pending s0 cs ls = A" by (simp add: pending_def A(1) st0(2) f0(3))
  have l0: "lists (proc s0) ls ss" using inv by (auto simp: ts_inv_def f0(3) intro: lists_cong)
  have q0: "\<exists>t. tds (proc s0) td = Some t \<and> q_inv (ptr_list t)" if "td \<in> set ls" for td
    using ts_inv_queue [OF inv that] by (simp add: f0(3))
  have pre: "alloc_ready k (mem (proc s0)) (insert (p, ?W) D)" "dbg \<longrightarrow> 0 \<notin> set (pending s0 cs ls)"
    "bufs s0 (buf_addrs (g_tsdata s0)) = Some a0" "buf_addrs (g_tsdata s0) \<notin> set cs"
    "length (pending s0 cs ls) \<le> length a0" "int (length (pending s0 cs ls)) \<le> max_ptrs (g_tsdata s0) * 2"
    "max_ptrs (g_tsdata s0) < 2 ^ 24"
    using m A(2,3) p lA la0 i(2,3) f0(1,2,3,4) by (simp_all add: pe)
  have aws: "buf_addrs ?ts0 = p" "working_buffer_sz ?ts0 = ?W" by (simp_all add: assign_working_space_def)
  obtain m' where gar: "generate_working_pointers_list dbg k s0 = Inr (int (length (pending s0 cs ls)),
      s0\<lparr>g_tsdata := (g_tsdata s0)\<lparr>storage := 0\<rparr>,
        bufs := ((bufs s0) |` (- set cs))(buf_addrs (g_tsdata s0) \<mapsto>
          pending s0 cs ls @ drop (length (pending s0 cs ls)) a0),
        proc := (proc s0)\<lparr>mem := m', tds := drained (set ls) (tds (proc s0))\<rparr>\<rparr>)"
    "alloc_ready k m' (insert (p, ?W) D - (\<lambda>c. (c, working_buffer_sz (g_tsdata s0))) ` set cs)"
    by (rule generate_working_pointers_list_eq [OF st0(1) l0 pre(1) q0 pre(2-7)])
  note g = gar(1) [unfolded pe f0(7) aws] and ar = gar(2) [unfolded f0(7) aws]
  define ts1 where "ts1 = ?ts0\<lparr>storage := 0, n_addrs := int (length A)\<rparr>"
  have srt: "threadscan_util_sort (A @ drop (length A) a0) (int (length A)) = Inr (sort A @ drop (length A) a0)"
    by (simp add: threadscan_util_sort_eq)
  have smi: "scan_map_index ts1 = scan_map_index ?ts0" "n_addrs ts1 = int (length A)"
    by (simp_all add: ts1_def scan_map_index_def)
  have "pages (length A) \<le> 1024 * i"
    using pages_mono [of "length A" "512 * (1024 * i)"] lA by (simp add: pages_def)
  then have "nat (scan_map_index ts1) + pages (length A) \<le> length a0" unfolding smi(1) i(5) by (simp only: nat_int la0)
  then obtain c where c: "generate_scan_map ts1 (sort A @ drop (length A) a0) = Inr (ts1\<lparr>n_scan_map := int (pages (length A))\<rparr>, c)"
    "length c = length a0" "marking (sort A) {} c" "map_ready (ts1\<lparr>n_scan_map := int (pages (length A))\<rparr>) (sort A) c"
    using generate_scan_map_correct [of ts1 "sort A" "sort A @ drop (length A) a0"] smi i(5) la0 lA
    by (auto simp del: One_nat_def)
  define ts where "ts = ts1\<lparr>n_scan_map := int (pages (length A))\<rparr>"
  define sr where "sr = s\<lparr>proc := (proc s)\<lparr>mem := m', tds := drained (set ls) (tds (proc s))\<rparr>,
        g_tsdata := ts, bufs := ((bufs s) |` (- set cs))(p \<mapsto> c)\<rparr>"
  have tsf: "buf_addrs ts = p" "storage ts = 0" "max_ptrs ts = max_ptrs (g_tsdata s)" "working_buffer_sz ts = ?W"
    "offset_list ts = offset_list (g_tsdata s)"
    by (simp_all add: ts_def ts1_def assign_working_space_def)
  have restr: "((bufs s0) |` (- set cs))(p \<mapsto> x) = ((bufs s) |` (- set cs))(p \<mapsto> x)" for x
    by (auto simp: f0(1) restrict_map_def fun_eq_iff)
  show thesis
  proof (rule that [where sr = sr and c = c and ts = ts and m' = m'])
    show "scanning (sort A) {} sr" using c(3,4) by (simp add: scanning_def sr_def tsf ts_def [symmetric])
    show "sized ts" using inv by (simp add: ts_inv_def sized_def tsf)
    show "prepare dbg k (install p m s) = Inr sr"
      using srt c(1) p tsf(1) restr unfolding prepare_def s0_def [symmetric] g ts_def [symmetric]
      by (simp add: set_buf_def f0(3) assign_working_space_def ts1_def sr_def s0_def install_def)
  qed (use lA la0 c(2) ar in \<open>auto simp: sr_def tsf\<close>)
qed

lemma finish_correct:
  assumes xs: "addr_list xs" "xs \<noteq> []" "dbg \<longrightarrow> 0 \<notin> set xs" and s: "scanning xs {} s"
    and l: "lists (proc s) ls ss" and sc: "scan_ready dbg w me (tds (proc s)) ls"
    and H: "H = all_hits xs (scan_words w me (tds (proc s)) ls)"
    and b: "buf_addrs (g_tsdata s) = p" "bufs s p = Some c" "length xs + 2 \<le> length c" "p \<noteq> 0"
    and room: "int (length xs) + 2 \<le> max_ptrs (g_tsdata s) * 2" "length xs < 2 ^ 31"
    and st: "storage (g_tsdata s) = 0" "(p, working_buffer_sz (g_tsdata s)) \<in> D"
    and m: "alloc_ready (w_kernel w) (mem (proc s)) D"
  shows "returns (finish dbg w me s) (\<lambda>s'. \<exists>cs' D' m' st' h.
    storage_inv s' cs' D' \<and> alloc_ready (w_kernel w) m' D' \<and>
    mset (stored (bufs s') cs') = mset (survivors xs H) \<and> freed s' = freed s @ swept xs H \<and>
    g_tsdata s' = (g_tsdata s)\<lparr>storage := st'\<rparr> \<and> stamped (tds (proc s)) h \<and>
    proc s' = (proc s)\<lparr>tds := h, global_timestamp := TIMESTAMP (global_timestamp (proc s)), mem := m'\<rparr> \<and>
    (cs' = [] \<and> D' = D - {(p, working_buffer_sz (g_tsdata s))} \<or> cs' = [p] \<and> D' = D))"
proof -
  obtain s3 where s3: "do_reclaim dbg w (w_rsp w me) me s = Inr ((p, int (length xs)), s3)"
    "scan_frame xs s s3" "scanning xs H s3"
    using do_reclaim_correct [where dbg = dbg and w = w and me = me, OF xs s l sc] b(1) H
    by (auto elim!: returnsE)
  obtain a h n where fr: "length a = length c" "stamped (tds (proc s)) h"
    "s3 = s\<lparr>bufs := (bufs s)(p \<mapsto> a), proc := (proc s)\<lparr>tds := h\<rparr>, self_stacks_searched := n\<rparr>"
    using s3(2) b(1,2) unfolding scan_frame_def by auto
  define s4 where "s4 = s3\<lparr>proc := threadscan_thread_cleanup_release (proc s3)\<rparr>"
  have s4: "bufs s4 p = Some a" "g_tsdata s4 = g_tsdata s" "freed s4 = freed s"
    "proc s4 = (proc s)\<lparr>tds := h, global_timestamp := TIMESTAMP (global_timestamp (proc s))\<rparr>"
    by (simp_all add: s4_def fr(3) threadscan_thread_cleanup_release_def)
  have mk: "marking xs H a" using s3(3) b(1) by (simp add: scanning_def fr(3))
  have st4: "storage_inv s4 [] D" by (simp add: storage_inv_def s4(2) st(1))
  have "finish dbg w me s = bindE (handle_unreferenced_ptrs a (int (length xs))) (\<lambda>(a, remaining, fs).
      bindE (threadscan_util_randomize a remaining) (\<lambda>a.
      store_remaining_addrs dbg (w_kernel w) p remaining (set_buf p a (s4\<lparr>freed := freed s4 @ fs\<rparr>))))"
    using s4(1) assert_monotonicity_ok [OF xs(1) mk xs(3)] unfolding finish_def s3(1) s4_def by simp
  moreover have "returns \<dots> (\<lambda>s'. \<exists>cs' D' m' st'. storage_inv s' cs' D' \<and> alloc_ready (w_kernel w) m' D' \<and>
      mset (stored (bufs s') cs') = mset (survivors xs H) + mset (stored (bufs s4) []) \<and>
      freed s' = freed s4 @ swept xs H \<and> g_tsdata s' = (g_tsdata s4)\<lparr>storage := st'\<rparr> \<and>
      proc s' = (proc s4)\<lparr>mem := m'\<rparr> \<and>
      (cs' = [] \<and> D' = D - {(p, working_buffer_sz (g_tsdata s4))} \<or> cs' = [p] \<and> D' = D))"
    by (rule sweep_store_correct [OF s4(1) mk xs(1)])
       (use b fr(1) room st m st4 s4(2) in \<open>simp_all add: s4(4)\<close>)
  ultimately have "returns (finish dbg w me s) (\<lambda>s'. \<exists>cs' D' m' st'. storage_inv s' cs' D' \<and> alloc_ready (w_kernel w) m' D' \<and>
      mset (stored (bufs s') cs') = mset (survivors xs H) \<and>
      freed s' = freed s @ swept xs H \<and> g_tsdata s' = (g_tsdata s)\<lparr>storage := st'\<rparr> \<and>
      proc s' = (proc s)\<lparr>tds := h, global_timestamp := TIMESTAMP (global_timestamp (proc s)), mem := m'\<rparr> \<and>
      (cs' = [] \<and> D' = D - {(p, working_buffer_sz (g_tsdata s))} \<or> cs' = [p] \<and> D' = D))"
    by (simp add: s4 stored_def)
  then show ?thesis using fr(2) by (elim returns_mono) metis
qed

text \<open>
  What a reclamation leaves alone: everything in the records of threads but the contents of the queues and
  the timestamps, and all blocks but those of the storage list, which it exchanges for a new one or none.
\<close>

definition store_blocks :: "'o ts_state \<Rightarrow> size_t list \<Rightarrow> (size_t \<times> size_t) set" where
  "store_blocks s cs = (\<lambda>c. (c, working_buffer_sz (g_tsdata s))) ` set cs"

definition reclaim_frame ::
  "'o ts_state \<Rightarrow> size_t list \<Rightarrow> size_t list \<Rightarrow> (size_t \<times> size_t) set \<Rightarrow> 'o ts_state \<Rightarrow> size_t list \<Rightarrow>
   (size_t \<times> size_t) set \<Rightarrow> bool" where
  "reclaim_frame s cs ls D s' cs' D' \<longleftrightarrow>
     (\<exists>h g m. stamped (drained (set ls) (tds (proc s))) h \<and>
        proc s' = (proc s)\<lparr>tds := h, global_timestamp := g, mem := m\<rparr>) \<and>
     D' = D - store_blocks s cs \<union> store_blocks s cs' \<and> store_blocks s cs' \<inter> D = {} \<and>
     max_ptrs (g_tsdata s') = max_ptrs (g_tsdata s) \<and>
     working_buffer_sz (g_tsdata s') = working_buffer_sz (g_tsdata s)"

text \<open>What one reclamation does, in terms of the marks.\<close>

lemma reclaim_after_mmap:
  assumes inv: "ts_inv (w_kernel w) s cs ls ss D"
    and A: "A = pending s cs ls" "A \<noteq> []" "addr_list (sort A)" "dbg \<longrightarrow> 0 \<notin> set A"
      "int (length A) + 2 \<le> max_ptrs (g_tsdata s) * 2"
    and sc: "scan_ready dbg w me (tds (proc s)) ls"
    and H: "H = all_hits (sort A) (scan_words w me (tds (proc s)) ls)"
    and p: "alloc_ready (w_kernel w) m (insert (p, working_buffer_sz (g_tsdata s)) D)" "p \<notin> set cs" "p \<noteq> 0"
      "(p, working_buffer_sz (g_tsdata s)) \<notin> D"
    and sr: "scanning (sort A) {} sr" "length A + 2 \<le> length c" "buf_addrs ts = p" "storage ts = 0" "sized ts"
      "max_ptrs ts = max_ptrs (g_tsdata s)" "working_buffer_sz ts = working_buffer_sz (g_tsdata s)"
      "alloc_ready (w_kernel w) m' (insert (p, working_buffer_sz (g_tsdata s)) D -
         (\<lambda>c. (c, working_buffer_sz (g_tsdata s))) ` set cs)"
      "sr = s\<lparr>proc := (proc s)\<lparr>mem := m', tds := drained (set ls) (tds (proc s))\<rparr>,
          g_tsdata := ts, bufs := ((bufs s) |` (- set cs))(p \<mapsto> c)\<rparr>"
  shows "returns (finish dbg w me sr) (\<lambda>s'. \<exists>cs' D'. ts_inv (w_kernel w) s' cs' ls ss D' \<and>
    freed s' = freed s @ swept (sort A) H \<and> mset (pending s' cs' ls) = mset (survivors (sort A) H) \<and>
    queued (tds (proc s')) ls = [] \<and> global_timestamp (proc s') = TIMESTAMP (global_timestamp (proc s)) \<and>
    reclaim_frame s cs ls D s' cs' D')"
proof -
  let ?k = "w_kernel w" and ?W = "working_buffer_sz (g_tsdata s)" and ?xs = "sort A" and ?h = "tds (proc s)"
  let ?D = "insert (p, ?W) D - (\<lambda>c. (c, ?W)) ` set cs"
  obtain i where i: "i \<le> 32" "max_ptrs ts = 262144 * int i" using sr(5) by (auto simp: sized_def)
  have small: "length ?xs < 2 ^ 31" using A(5) i sr(6) by auto
  have xs: "addr_list ?xs" "?xs \<noteq> []" "dbg \<longrightarrow> 0 \<notin> set ?xs" using A(2-4) by (auto dest: arg_cong [of _ _ mset])
  have pr: "proc sr = (proc s)\<lparr>mem := m', tds := drained (set ls) ?h\<rparr>" "g_tsdata sr = ts" "bufs sr p = Some c" "freed sr = freed s"
    by (simp_all add: sr(9))
  have l: "lists (proc sr) ls ss" using inv by (auto simp: ts_inv_def pr nxt_drained intro: lists_cong)
  have sc': "scan_ready dbg w me (tds (proc sr)) ls" "scan_words w me (tds (proc sr)) ls = scan_words w me ?h ls"
    using sc scan_view_cong [of "drained (set ls) ?h" ?h, where w = w] by (simp_all add: pr(1) scan_view_drained)
  have H': "H = all_hits ?xs (scan_words w me (tds (proc sr)) ls)" by (simp only: sc'(2) H)
  have "returns (finish dbg w me sr) (\<lambda>s'. \<exists>cs' D' m'' st' h.
    storage_inv s' cs' D' \<and> alloc_ready ?k m'' D' \<and>
    mset (stored (bufs s') cs') = mset (survivors ?xs H) \<and> freed s' = freed sr @ swept ?xs H \<and>
    g_tsdata s' = (g_tsdata sr)\<lparr>storage := st'\<rparr> \<and> stamped (tds (proc sr)) h \<and>
    proc s' = (proc sr)\<lparr>tds := h, global_timestamp := TIMESTAMP (global_timestamp (proc sr)), mem := m''\<rparr> \<and>
    (cs' = [] \<and> D' = ?D - {(p, working_buffer_sz (g_tsdata sr))} \<or> cs' = [p] \<and> D' = ?D))"
    by (rule finish_correct [where p = p and c = c and D = ?D, OF xs sr(1) l sc'(1) H'])
       (use A(5) p(2,3) sr small in \<open>auto simp: pr\<close>)
  then show ?thesis
  proof (elim returns_mono exE conjE)
    fix s' cs' D' m'' st' h
    assume st': "storage_inv s' cs' D'" "alloc_ready ?k m'' D'" "mset (stored (bufs s') cs') = mset (survivors ?xs H)"
      and fr: "freed s' = freed sr @ swept ?xs H" and g: "g_tsdata s' = (g_tsdata sr)\<lparr>storage := st'\<rparr>"
      and h: "stamped (tds (proc sr)) h"
      and ps: "proc s' = (proc sr)\<lparr>tds := h, global_timestamp := TIMESTAMP (global_timestamp (proc sr)), mem := m''\<rparr>"
      and D': "cs' = [] \<and> D' = ?D - {(p, working_buffer_sz (g_tsdata sr))} \<or> cs' = [p] \<and> D' = ?D"
    have h': "stamped (drained (set ls) ?h) h" using h by (simp add: pr(1))
    note tk = threads_kept [OF inv h']
    have "lists (proc s') ls ss" using inv tk(1) by (auto simp: ts_inv_def ps pr(1) intro: lists_cong)
    moreover have "sized (g_tsdata s')" using sr(5) by (simp add: g pr(2) sized_def)
    ultimately have "ts_inv ?k s' cs' ls ss D'" using st'(1,2) tk(2,3) by (simp add: ts_inv_def ps)
    moreover have "reclaim_frame s cs ls D s' cs' D'"
    proof -
      have "D' = D - store_blocks s cs \<union> store_blocks s cs' \<and> store_blocks s cs' \<inter> D = {}"
        using D' p(2,4) sr(7) by (auto simp: pr(2) store_blocks_def)
      then show ?thesis using h' sr(6,7) by (auto simp: reclaim_frame_def ps pr(1) g pr(2))
    qed
    ultimately show "\<exists>cs' D'. ts_inv ?k s' cs' ls ss D' \<and>
      freed s' = freed s @ swept ?xs H \<and> mset (pending s' cs' ls) = mset (survivors ?xs H) \<and>
      queued (tds (proc s')) ls = [] \<and> global_timestamp (proc s') = TIMESTAMP (global_timestamp (proc s)) \<and>
      reclaim_frame s cs ls D s' cs' D'"
      using st'(3) fr tk(4) by (intro exI [of _ cs'] exI [of _ D']) (simp add: pending_def ps pr)
  qed
qed

lemma threadscan_reclaim_correct:
  assumes inv: "ts_inv (w_kernel w) s cs ls ss D"
    and A: "A = pending s cs ls" "A \<noteq> []" "addr_list (sort A)" "dbg \<longrightarrow> 0 \<notin> set A"
      "int (length A) + 2 \<le> max_ptrs (g_tsdata s) * 2"
    and sc: "scan_ready dbg w me (tds (proc s)) ls"
    and H: "H = all_hits (sort A) (scan_words w me (tds (proc s)) ls)"
  shows "okay (mmap_fails (w_kernel w)) (threadscan_reclaim dbg w me s) (\<lambda>s'. \<exists>cs' D'. ts_inv (w_kernel w) s' cs' ls ss D' \<and>
    freed s' = freed s @ swept (sort A) H \<and> mset (pending s' cs' ls) = mset (survivors (sort A) H) \<and>
    queued (tds (proc s')) ls = [] \<and> global_timestamp (proc s') = TIMESTAMP (global_timestamp (proc s)) \<and>
    reclaim_frame s cs ls D s' cs' D')"
    (is "okay _ _ ?Q")
proof -
  let ?k = "w_kernel w" and ?W = "working_buffer_sz (g_tsdata s)"
  have st: "storage_inv s cs D" and m: "alloc_ready ?k (mem (proc s)) D" and sz: "sized (g_tsdata s)"
    using inv by (auto simp: ts_inv_def)
  obtain i where W: "?W \<noteq> 0" "?W mod PAGESIZE = 0" using sz by (rule sized_facts [of _ 0])
  show ?thesis unfolding threadscan_reclaim_stages
  proof (rule okay_bindE [OF pages.alloc_okay [OF m W]], clarify del: mod_0_imp_dvd)
    fix p m1
    assume p: "alloc_ready ?k m1 (insert (p, ?W) D)" "block_ok (p, ?W)" "\<forall>r \<in> D. apart r (p, ?W)"
    have p0: "p \<notin> set cs" "p \<noteq> 0" using fresh_block [OF st p(3) refl W(1)] p(2) by (auto simp: block_ok_def)
    have pD: "(p, ?W) \<notin> D" using p(3) W(1) by (auto simp: apart_def before_def unat_eq_zero)
    obtain sr c ts m2 where pr: "prepare dbg ?k (install p m1 s) = Inr sr"
      "sr = s\<lparr>proc := (proc s)\<lparr>mem := m2, tds := drained (set ls) (tds (proc s))\<rparr>,
          g_tsdata := ts, bufs := ((bufs s) |` (- set cs))(p \<mapsto> c)\<rparr>"
      "scanning (sort A) {} sr" "length A + 2 \<le> length c" "buf_addrs ts = p" "storage ts = 0" "sized ts"
      "max_ptrs ts = max_ptrs (g_tsdata s)" "working_buffer_sz ts = ?W"
      "alloc_ready ?k m2 (insert (p, ?W) D - (\<lambda>c. (c, ?W)) ` set cs)"
      by (rule prepare_correct [OF inv p0(1) A(1,4,5) p(1)])
    show "okay (mmap_fails ?k) (bindE (prepare dbg ?k (install p m1 s)) (finish dbg w me)) ?Q"
      using reclaim_after_mmap [OF inv A sc H p(1) p0 pD pr(3-10,2)] by (simp add: pr(1) okayI)
  qed
qed

subsection \<open>What is freed and what is kept\<close>

lemma takeWhile_upt_below:
  assumes "i \<in> set (takeWhile P [0..<n])" "j \<le> i"
  shows "P j"
proof -
  have tw: "takeWhile P [0..<n] = take (length (takeWhile P [0..<n])) [0..<n]" by (rule takeWhile_eq_take)
  then have "set (takeWhile P [0..<n]) = {0..<min n (length (takeWhile P [0..<n]))}"
    by (metis atLeast_upt min.commute set_upt take_upt add_0 nat_le_linear take_all length_upt diff_zero min_def)
  then have "j \<in> set (takeWhile P [0..<n])" using assms by auto
  then show ?thesis by (rule set_takeWhileD [THEN conjunct2])
qed

lemma all_hits_image:
  "i < length xs \<Longrightarrow> xs ! i \<noteq> 0 \<Longrightarrow> i \<in> all_hits xs ws \<longleftrightarrow> xs ! i \<in> PTR_MASK ` set ws"
  using all_hits_nonzero [of i xs ws] by (simp add: image_iff) metis

lemma swept_iff:
  assumes "x \<noteq> 0"
  shows "x \<in> set (swept xs (all_hits xs ws)) \<longleftrightarrow> x \<in> set xs \<and> x \<notin> PTR_MASK ` set ws"
proof
  assume "x \<in> set (swept xs (all_hits xs ws))"
  then obtain i where "i < length xs" "xs ! i = x" "i \<notin> all_hits xs ws" by (auto simp: swept_def)
  then show "x \<in> set xs \<and> x \<notin> PTR_MASK ` set ws" using all_hits_nonzero [of i xs ws] assms by auto
next
  assume x: "x \<in> set xs \<and> x \<notin> PTR_MASK ` set ws"
  then obtain i where "i < length xs" "xs ! i = x" by (auto simp: in_set_conv_nth)
  moreover have "i \<notin> all_hits xs ws" using all_hits_image [of i xs ws] assms x calculation by simp
  ultimately show "x \<in> set (swept xs (all_hits xs ws))" by (auto simp: swept_def)
qed

lemma swept_distinct:
  assumes "addr_list xs"
  shows "distinct (filter (\<lambda>x. x \<noteq> 0) (swept xs H))"
proof -
  have d: "distinct (filter (\<lambda>x. x \<noteq> 0) xs)" using assms by (simp add: addr_list_def)
  have "inj_on ((!) xs) {i. i < length xs \<and> xs ! i \<noteq> 0}"
    by (rule linorder_inj_onI) (use distinct_filter_nth [OF d] in auto)
  then show ?thesis by (auto simp: swept_def filter_map comp_def distinct_map elim: inj_on_subset)
qed

lemma survivors_sound:
  assumes "x \<in> set (survivors xs (all_hits xs ws))" "x \<noteq> 0"
  shows "x \<in> set xs" "x \<in> PTR_MASK ` set ws"
proof -
  from assms obtain i where i: "i < length xs" "xs ! i = x" "i \<in> all_hits xs ws"
    by (auto simp: survivors_def dest: set_dropWhileD)
  then show "x \<in> set xs" "x \<in> PTR_MASK ` set ws"
    using all_hits_image [of i xs ws] assms(2) nth_mem [of i xs] by simp_all
qed

lemma survivors_complete:
  assumes xs: "addr_list xs" and x: "x \<in> set xs" "x \<noteq> 0" "x \<in> PTR_MASK ` set ws"
    and y: "y \<in> set (swept xs (all_hits xs ws))" "y < x"
  shows "x \<in> set (survivors xs (all_hits xs ws))"
proof -
  let ?H = "all_hits xs ws"
  obtain i where i: "i < length xs" "xs ! i = x" using x(1) by (auto simp: in_set_conv_nth)
  then have iH: "i \<in> ?H" using all_hits_nonzero [of i xs ws] x(2,3) by auto
  obtain j where j: "j < length xs" "xs ! j = y" "j \<notin> ?H" using y(1) by (auto simp: swept_def)
  have "j \<le> i" using addr_list_mono [OF xs, of i j] i j y(2) by (cases "i \<le> j") auto
  then have "i \<notin> set (takeWhile (\<lambda>i. i \<in> ?H) [0..<length xs])" using takeWhile_upt_below [of i] j(3) by metis
  moreover have "set [0..<length xs] = set (takeWhile (\<lambda>i. i \<in> ?H) [0..<length xs]) \<union>
      set (dropWhile (\<lambda>i. i \<in> ?H) [0..<length xs])"
    by (metis set_append takeWhile_dropWhile_id)
  moreover have "i \<in> set [0..<length xs]" using i(1) by simp
  ultimately have "i \<in> set (filter (\<lambda>i. i \<in> ?H) (dropWhile (\<lambda>i. i \<in> ?H) [0..<length xs]))" using iH
    unfolding set_filter by blast
  then have "x \<in> set (map ((!) xs) (filter (\<lambda>i. i \<in> ?H) (dropWhile (\<lambda>i. i \<in> ?H) [0..<length xs])))"
    using i(2) by (simp only: set_map image_iff) blast
  then show ?thesis by (simp add: survivors_def)
qed

text \<open>The addresses under reclamation as \<^verbatim>\<open>threadscan_reclaim\<close> needs them.\<close>

definition reclaimable :: "bool \<Rightarrow> 'o ts_state \<Rightarrow> size_t list \<Rightarrow> bool" where
  "reclaimable dbg s A \<longleftrightarrow> A \<noteq> [] \<and> (\<forall>x \<in> set A. aligned4 x) \<and> distinct (filter (\<lambda>x. x \<noteq> 0) A) \<and>
     (dbg \<longrightarrow> 0 \<notin> set A) \<and> int (length A) + 2 \<le> max_ptrs (g_tsdata s) * 2"

lemma reclaimable_sorted:
  assumes "reclaimable dbg s A"
  shows "addr_list (sort A)"
proof -
  have "mset (filter (\<lambda>x. x \<noteq> 0) (sort A)) = mset (filter (\<lambda>x. x \<noteq> 0) A)" by simp
  then have "distinct (filter (\<lambda>x. x \<noteq> 0) (sort A))"
    using assms mset_eq_imp_distinct_iff unfolding reclaimable_def by blast
  then show ?thesis using assms by (auto simp: addr_list_def reclaimable_def)
qed

lemma reclaim_okay:
  assumes "ts_inv (w_kernel w) s cs ls ss D" "reclaimable dbg s (pending s cs ls)"
    and "scan_ready dbg w me (tds (proc s)) ls"
  shows "okay (mmap_fails (w_kernel w)) (threadscan_reclaim dbg w me s) (\<lambda>s'. \<exists>cs' D' xs H.
    ts_inv (w_kernel w) s' cs' ls ss D' \<and> xs = sort (pending s cs ls) \<and>
    H = all_hits xs (scan_words w me (tds (proc s)) ls) \<and> addr_list xs \<and>
    freed s' = freed s @ swept xs H \<and> mset (pending s' cs' ls) = mset (survivors xs H) \<and>
    queued (tds (proc s')) ls = [] \<and> global_timestamp (proc s') = TIMESTAMP (global_timestamp (proc s)) \<and>
    reclaim_frame s cs ls D s' cs' D')"
proof -
  have A: "pending s cs ls \<noteq> []" "dbg \<longrightarrow> 0 \<notin> set (pending s cs ls)"
    "int (length (pending s cs ls)) + 2 \<le> max_ptrs (g_tsdata s) * 2" using assms(2) by (auto simp: reclaimable_def)
  note srt = reclaimable_sorted [OF assms(2)]
  show ?thesis using srt
    by (intro okay_mono [OF threadscan_reclaim_correct [OF assms(1) refl A(1) srt A(2,3) assms(3) refl]]) auto
qed

subsection \<open>Example\<close>

text \<open>One thread, two addresses in its queue, a stack with a hidden reference to the second one.\<close>

definition example_queue :: queue_t where
  "example_queue = \<lparr>elems = [32, 16, 0, 0], capacity = 4, idx_head = 2, idx_tail = 4\<rparr>"

definition example_with :: "queue_t \<Rightarrow> simple_os ts_state" where
  "example_with q =
     \<lparr>g_tsdata = register_signal_handlers 1024
        \<lparr>max_ptrs = 0, n_addrs = 0, buf_addrs = 0, n_scan_map = 0, buf_scan_map = 0, working_buffer_sz = 0,
         offset_list = [0, 0], storage = 0\<rparr>,
      self_stacks_searched = 1, bufs = Map.empty,
      proc = example_proc\<lparr>tds := [0x5000 \<mapsto> example_td\<lparr>ptr_list := q\<rparr>]\<rparr>, freed = []\<rparr>"

definition example_state :: "simple_os ts_state" where
  "example_state = example_with example_queue"

definition example_world :: "simple_os world" where
  "example_world = \<lparr>w_kernel = simple_kernel, w_kill = (\<lambda>_. 0), w_memory = [0x2FFF0 \<mapsto> 34, 0x2FFF8 \<mapsto> 5],
     w_rsp = (\<lambda>_. 0x2FFF0), w_order = rev\<rparr>"

lemma example_queue_ok: "q_ok example_queue" "q_list example_queue = [32, 16]"
proof -
  have sz: "q_size example_queue = 2" by (simp add: q_size_def example_queue_def)
  show l: "q_list example_queue = [32, 16]" unfolding q_list_def sz by (simp add: example_queue_def rotate_drop_take)
  have "\<exists>k < 63. (4 :: nat) = 2 ^ k" by (rule exI [of _ 2]) simp
  then show "q_ok example_queue"
    unfolding q_ok_def q_inv_def l sz by (simp add: q_nowrap_def example_queue_def)
qed

lemma example_with_inv:
  assumes "q_live q"
  shows "ts_inv simple_kernel (example_with q) [] [0x5000] [] {(0x5000, 4096), (0x6000, 8192)}"
proof -
  have "ptrs_ok 1024" unfolding ptrs_ok_def by (rule exI [of _ 10]) simp
  then have "sized (g_tsdata (example_with q))" "storage (g_tsdata (example_with q)) = 0"
    by (auto simp: example_with_def intro: register_signal_handlers_sized)
  moreover have "lists (proc (example_with q)) [0x5000] []"
    by (simp add: lists_def example_with_def example_proc_def nxt_def example_td_def zero_td_def)
  moreover have "alloc_ready simple_kernel (mem (proc (example_with q))) {(0x5000, 4096), (0x6000, 8192)}"
    using example_proc_ready by (simp add: example_with_def)
  ultimately show ?thesis using assms
    by (simp add: ts_inv_def storage_inv_def example_with_def lowered_def example_td_def zero_td_def TIMESTAMP_IS_ACTIVE_def)
qed

lemma example_state_inv: "ts_inv simple_kernel example_state [] [0x5000] [] {(0x5000, 4096), (0x6000, 8192)}"
proof -
  have "q_live example_queue"
    using example_queue_ok(1) by (simp add: q_ok_def q_live_def) (simp add: example_queue_def)
  then show ?thesis unfolding example_state_def by (rule example_with_inv)
qed

lemma example_pending: "pending example_state [] [0x5000] = [32, 16]"
  by (simp add: pending_def stored_def queued_def td_addrs_def example_state_def example_with_def example_queue_ok)

lemma example_reclaimable:
  "reclaimable True example_state (pending example_state [] [0x5000])"
  "reclaimable True example_state (48 # pending example_state [] [0x5000])"
  unfolding example_pending
  by (simp_all add: reclaimable_def aligned4_def PTR_MASK_def example_state_def example_with_def register_signal_handlers_def
      MAX_THREAD_COUNT_def)

lemma example_scan_ready: "scan_ready True example_world 0x5000 (tds (proc example_state)) [0x5000]"
proof -
  have "words_at [0x2FFF0 \<mapsto> 34, 0x2FFF8 \<mapsto> 5] 0x2FFF0 (Suc (Suc 0)) = Inr [34, 5]" by (simp add: load_def)
  moreover have "unat ((0x30000 - 0x2FFF0 :: size_t) div 8) = Suc (Suc 0)" by simp
  ultimately have "readable [0x2FFF0 \<mapsto> 34, 0x2FFF8 \<mapsto> 5] \<lparr>low = 0x2FFF0, high = 0x30000\<rparr>"
    by (simp only: readable_def mem_range.select_convs) blast
  then show ?thesis
    by (simp add: scan_ready_def td_scannable_def thread_ranges_def example_world_def example_state_def example_with_def
        example_td_def zero_td_def signalled_def EINVAL_def)
qed

subsection \<open>Properties of a reclamation\<close>

text \<open>
  (C3) Exactness of a reclamation. A reclamation frees an address exactly when it was under
  reclamation and no word on the scanned stacks and local blocks refers to it, with or without its two
  low bits set: nothing still referenced is freed, and nothing is freed twice. The only other outcome
  is the fatal error of a kernel that refuses memory.
\<close>

theorem reclaim_frees_exactly:
  assumes "ts_inv (w_kernel w) s cs ls ss D" and "reclaimable dbg s (pending s cs ls)"
    and "scan_ready dbg w me (tds (proc s)) ls"
  shows "okay (mmap_fails (w_kernel w)) (threadscan_reclaim dbg w me s) (\<lambda>s'. \<exists>fs.
    freed s' = freed s @ fs \<and> distinct (filter (\<lambda>x. x \<noteq> 0) fs) \<and>
    (\<forall>x. x \<noteq> 0 \<longrightarrow> (x \<in> set fs \<longleftrightarrow>
       x \<in> set (pending s cs ls) \<and> (\<forall>v \<in> set (scan_words w me (tds (proc s)) ls). PTR_MASK v \<noteq> x))))"
  by (rule okay_mono [OF reclaim_okay [OF assms]]) (auto simp: swept_iff swept_distinct)

theorem reclaim_frees_exactly_witness:
  "okay (mmap_fails (w_kernel example_world)) (threadscan_reclaim True example_world 0x5000 example_state) (\<lambda>s'. \<exists>fs.
    freed s' = freed example_state @ fs \<and> distinct (filter (\<lambda>x. x \<noteq> 0) fs) \<and>
    (\<forall>x. x \<noteq> 0 \<longrightarrow> (x \<in> set fs \<longleftrightarrow> x \<in> set (pending example_state [] [0x5000]) \<and>
       (\<forall>v \<in> set (scan_words example_world 0x5000 (tds (proc example_state)) [0x5000]). PTR_MASK v \<noteq> x))))"
  by (rule reclaim_frees_exactly [OF _ example_reclaimable(1) example_scan_ready])
     (use example_state_inv in \<open>simp add: example_world_def\<close>)

text \<open>
  (C4) What stays under reclamation. After a reclamation the pending addresses are referenced ones
  (or zero), their number and the number of freed ones add up, and every referenced address that is
  larger than some freed one is still pending. (The sweep turns the referenced addresses below the
  first freed one into zeros, so no more holds.)
\<close>

theorem reclaim_keeps_referenced:
  assumes "ts_inv (w_kernel w) s cs ls ss D" and "reclaimable dbg s (pending s cs ls)"
    and "scan_ready dbg w me (tds (proc s)) ls" and "ws = scan_words w me (tds (proc s)) ls"
  shows "okay (mmap_fails (w_kernel w)) (threadscan_reclaim dbg w me s) (\<lambda>s'. \<exists>cs' D' fs.
    ts_inv (w_kernel w) s' cs' ls ss D' \<and> freed s' = freed s @ fs \<and>
    (\<forall>x \<in> set (pending s' cs' ls). x \<noteq> 0 \<longrightarrow> x \<in> set (pending s cs ls) \<and> x \<in> PTR_MASK ` set ws) \<and>
    (\<forall>x \<in> set (pending s cs ls). x \<noteq> 0 \<longrightarrow> x \<in> PTR_MASK ` set ws \<longrightarrow> (\<exists>y \<in> set fs. y < x) \<longrightarrow>
       x \<in> set (pending s' cs' ls)) \<and>
    length fs + length (pending s' cs' ls) = length (pending s cs ls))"
proof (rule okay_mono [OF reclaim_okay [OF assms(1-3)]], clarify)
  fix s' cs' D'
  define xs where "xs = sort (pending s cs ls)"
  define H where "H = all_hits xs ws"
  assume a: "ts_inv (w_kernel w) s' cs' ls ss D'" "addr_list (sort (pending s cs ls))"
    "freed s' = freed s @ swept (sort (pending s cs ls)) (all_hits (sort (pending s cs ls)) (scan_words w me (tds (proc s)) ls))"
    "mset (pending s' cs' ls) = mset (survivors (sort (pending s cs ls))
       (all_hits (sort (pending s cs ls)) (scan_words w me (tds (proc s)) ls)))"
  note b = a(2-4) [folded assms(4) xs_def, folded H_def]
  have eqs: "set (pending s' cs' ls) = set (survivors xs H)" "length (pending s' cs' ls) = length (survivors xs H)"
    using b(3) by (auto dest: mset_eq_setD mset_eq_length)
  have xs: "set xs = set (pending s cs ls)" "length xs = length (pending s cs ls)" by (simp_all add: xs_def)
  have 1: "\<forall>x \<in> set (pending s' cs' ls). x \<noteq> 0 \<longrightarrow> x \<in> set (pending s cs ls) \<and> x \<in> PTR_MASK ` set ws"
    using survivors_sound [of _ xs ws] unfolding eqs(1) H_def xs(1) by blast
  have 2: "\<forall>x \<in> set (pending s cs ls). x \<noteq> 0 \<longrightarrow> x \<in> PTR_MASK ` set ws \<longrightarrow> (\<exists>y \<in> set (swept xs H). y < x) \<longrightarrow>
      x \<in> set (pending s' cs' ls)"
    using survivors_complete [OF b(1), of _ ws] unfolding eqs(1) H_def xs(1) by blast
  have 3: "length (swept xs H) + length (pending s' cs' ls) = length (pending s cs ls)"
    using length_swept_survivors [of xs H] eqs(2) xs(2) by simp
  show "\<exists>cs' D' fs. ts_inv (w_kernel w) s' cs' ls ss D' \<and> freed s' = freed s @ fs \<and>
    (\<forall>x \<in> set (pending s' cs' ls). x \<noteq> 0 \<longrightarrow> x \<in> set (pending s cs ls) \<and> x \<in> PTR_MASK ` set ws) \<and>
    (\<forall>x \<in> set (pending s cs ls). x \<noteq> 0 \<longrightarrow> x \<in> PTR_MASK ` set ws \<longrightarrow> (\<exists>y \<in> set fs. y < x) \<longrightarrow>
       x \<in> set (pending s' cs' ls)) \<and>
    length fs + length (pending s' cs' ls) = length (pending s cs ls)"
    using a(1) b(2) 1 2 3 by blast
qed

theorem reclaim_keeps_referenced_witness:
  "okay (mmap_fails (w_kernel example_world)) (threadscan_reclaim True example_world 0x5000 example_state) (\<lambda>s'. \<exists>cs' D' fs.
    ts_inv (w_kernel example_world) s' cs' [0x5000] [] D' \<and> freed s' = freed example_state @ fs \<and>
    (\<forall>x \<in> set (pending s' cs' [0x5000]). x \<noteq> 0 \<longrightarrow> x \<in> set (pending example_state [] [0x5000]) \<and>
       x \<in> PTR_MASK ` set (scan_words example_world 0x5000 (tds (proc example_state)) [0x5000])) \<and>
    (\<forall>x \<in> set (pending example_state [] [0x5000]). x \<noteq> 0 \<longrightarrow>
       x \<in> PTR_MASK ` set (scan_words example_world 0x5000 (tds (proc example_state)) [0x5000]) \<longrightarrow>
       (\<exists>y \<in> set fs. y < x) \<longrightarrow> x \<in> set (pending s' cs' [0x5000])) \<and>
    length fs + length (pending s' cs' [0x5000]) = length (pending example_state [] [0x5000]))"
  by (rule reclaim_keeps_referenced [OF _ example_reclaimable(1) example_scan_ready refl])
     (use example_state_inv in \<open>simp add: example_world_def\<close>)

subsection \<open>Collecting an address\<close>

lemma wait_for_timestamp_lowered:
  assumes "lists s ls ss" "\<forall>td \<in> set ls. lowered (tds s) td"
  shows "threadscan_proc_wait_for_timestamp cur s = Inr s"
  using wait_for_timestamp_exact [OF assms(1), of cur] assms(2) lists_SomeD [OF assms(1)]
  by (fastforce simp: lowered_def split: if_splits)

lemma try_acquire_free:
  assumes "lists s ls ss" "\<forall>td \<in> set ls. lowered (tds s) td" "\<not> TIMESTAMP_IS_ACTIVE (global_timestamp s)"
  shows "threadscan_thread_cleanup_try_acquire s =
    Inr (True, s\<lparr>global_timestamp := TIMESTAMP_SET_ACTIVE (global_timestamp s + 1)\<rparr>)"
proof -
  let ?s = "s\<lparr>global_timestamp := TIMESTAMP_SET_ACTIVE (global_timestamp s + 1)\<rparr>"
  have "lists ?s ls ss" using assms(1) by (auto intro: lists_cong)
  then have "threadscan_proc_wait_for_timestamp cur ?s = Inr ?s" for cur
    using assms(2) by (intro wait_for_timestamp_lowered) auto
  then show ?thesis using assms(3) by (simp add: threadscan_thread_cleanup_try_acquire_def Let_def)
qed

text \<open>The state after \<open>me\<close> has put \<open>ptr\<close> in its queue.\<close>

definition queued_ptr :: "size_t \<Rightarrow> size_t \<Rightarrow> 'o ts_state \<Rightarrow> 'o ts_state" where
  "queued_ptr me ptr s =
     (let t = the (tds (proc s) me) in
      s\<lparr>proc := (proc s)\<lparr>tds := (tds (proc s))(me \<mapsto> t\<lparr>ptr_list := pushed (ptr_list t) ptr\<rparr>)\<rparr>\<rparr>)"

text \<open>Thread \<open>me\<close> may push: its queue has room, and its counter is far from the end of its range.\<close>

definition may_push :: "'o ts_state \<Rightarrow> size_t \<Rightarrow> bool" where
  "may_push s me \<longleftrightarrow> (\<exists>t. tds (proc s) me = Some t \<and> length (q_list (ptr_list t)) + 1 < unat (capacity (ptr_list t)) \<and>
     unat (idx_head (ptr_list t)) + unat (capacity (ptr_list t)) + 1 < 2 ^ 64)"

lemma q_live_pushed:
  assumes "q_live q" "length (q_list q) + 1 < unat (capacity q)" "unat (idx_head q) + unat (capacity q) + 1 < 2 ^ 64"
  shows "q_live (pushed q v)" "q_list (pushed q v) = q_list q @ [v]"
proof -
  have q: "q_inv q" "q_size q + 1 < unat (capacity q)" using assms length_q_list by (auto simp: q_live_def)
  show "q_list (pushed q v) = q_list q @ [v]" by (rule q_list_pushed [OF q])
  have "unat (idx_head q + 1) = unat (idx_head q) + 1" using assms(3) by (simp add: unat_word_ariths)
  then show "q_live (pushed q v)"
    using assms(1,3) q_inv_pushed [OF q] by (auto simp: q_live_def q_nowrap_def)
qed

lemma queued_ptr_correct:
  assumes inv: "ts_inv k s cs ls ss D" and me: "me \<in> set ls" and room: "may_push s me"
  shows "ts_inv k (queued_ptr me ptr s) cs ls ss D"
    "mset (pending (queued_ptr me ptr s) cs ls) = add_mset ptr (mset (pending s cs ls))"
    "scan_ready dbg w me (tds (proc (queued_ptr me ptr s))) ls = scan_ready dbg w me (tds (proc s)) ls"
    "scan_words w me (tds (proc (queued_ptr me ptr s))) ls = scan_words w me (tds (proc s)) ls"
proof -
  obtain t where t: "tds (proc s) me = Some t" "length (q_list (ptr_list t)) + 1 < unat (capacity (ptr_list t))"
    "unat (idx_head (ptr_list t)) + unat (capacity (ptr_list t)) + 1 < 2 ^ 64" using room by (auto simp: may_push_def)
  define t' where "t' = t\<lparr>ptr_list := pushed (ptr_list t) ptr\<rparr>"
  have s': "queued_ptr me ptr s = s\<lparr>proc := (proc s)\<lparr>tds := (tds (proc s))(me \<mapsto> t')\<rparr>\<rparr>"
    by (simp add: queued_ptr_def t(1) t'_def)
  have live: "q_live (ptr_list t)" using inv me t(1) by (auto simp: ts_inv_def)
  note pu = q_live_pushed [OF live t(2,3), of ptr]
  have l: "lists (proc s) ls ss" using inv by (simp add: ts_inv_def)
  have "nxt ((tds (proc s))(me \<mapsto> t')) = nxt (tds (proc s))" by (rule ext) (simp add: nxt_def t(1) t'_def)
  then have "lists (proc (queued_ptr me ptr s)) ls ss" using l by (auto simp: s' intro: lists_cong)
  moreover have "storage_inv (queued_ptr me ptr s) cs D" using inv by (simp add: ts_inv_def storage_inv_def s')
  moreover have "\<forall>td \<in> set ls. lowered ((tds (proc s))(me \<mapsto> t')) td"
    using inv t(1) by (auto simp: ts_inv_def lowered_def t'_def)
  ultimately show "ts_inv k (queued_ptr me ptr s) cs ls ss D"
    using inv pu(1) by (simp add: ts_inv_def s') (simp add: t'_def)
  obtain us vs where ls: "ls = us @ me # vs" using me by (meson split_list)
  have "me \<notin> set us" "me \<notin> set vs" using l ls by (auto simp: lists_def)
  then have "queued ((tds (proc s))(me \<mapsto> t')) us = queued (tds (proc s)) us"
    "queued ((tds (proc s))(me \<mapsto> t')) vs = queued (tds (proc s)) vs" by (auto intro!: queued_cong)
  moreover have "queued h ls = queued h us @ td_addrs h me @ queued h vs" for h by (simp add: queued_def ls)
  ultimately show "mset (pending (queued_ptr me ptr s) cs ls) = add_mset ptr (mset (pending s cs ls))"
    using pu(2) t(1) by (simp add: pending_def s' td_addrs_def t'_def)
  have "map_option scan_view (((tds (proc s))(me \<mapsto> t')) td) = map_option scan_view (tds (proc s) td)" for td
    using t(1) by (simp add: scan_view_def t'_def)
  from scan_view_cong [of "(tds (proc s))(me \<mapsto> t')" "tds (proc s)", OF this, where w = w]
  show "scan_ready dbg w me (tds (proc (queued_ptr me ptr s))) ls = scan_ready dbg w me (tds (proc s)) ls"
    "scan_words w me (tds (proc (queued_ptr me ptr s))) ls = scan_words w me (tds (proc s)) ls" by (simp_all add: s')
qed

text \<open>One round of the loop of \<^verbatim>\<open>threadscan_collect\<close>.\<close>

definition collect_round :: "bool \<Rightarrow> 'o world \<Rightarrow> size_t \<Rightarrow> 'o ts_state \<Rightarrow> ('o ts_state + 'o ts_state) res" where
  "collect_round dbg w me s =
     bindE (td_at (tds (proc s)) me) (\<lambda>t.
     bindE (threadscan_queue_is_full dbg (ptr_list t)) (\<lambda>fl.
     if \<not> fl then Inr (Inr s)
     else
       bindE (threadscan_thread_cleanup_try_acquire (proc s)) (\<lambda>(got, p).
       let s = s\<lparr>proc := p\<rparr> in
       if got then bindE (threadscan_reclaim dbg w me s) (\<lambda>s. Inr (Inl s))
       else Inr (Inl s))))"

lemma okay_loopE:
  assumes "okay b (body s) (\<lambda>y. case y of Inl s' \<Rightarrow> okay b (loopE body s') P | Inr r \<Rightarrow> P r)"
  shows "okay b (loopE body s) P"
  using assms unfolding okay_def
  by (subst (1 2) loopE_unfold) (auto split: sum.splits elim!: returnsE simp: okay_def)

lemma threadscan_collect_eq:
  assumes inv: "ts_inv k s cs ls ss D" and me: "me \<in> set ls" and room: "may_push s me" and ptr: "ptr \<noteq> 0"
  shows "threadscan_collect dbg w me ptr s = loopE (collect_round dbg w me) (queued_ptr me ptr s)"
proof -
  obtain t where t: "tds (proc s) me = Some t" "length (q_list (ptr_list t)) + 1 < unat (capacity (ptr_list t))"
    using room by (auto simp: may_push_def)
  have "q_live (ptr_list t)" using inv me t(1) by (auto simp: ts_inv_def)
  then have "threadscan_queue_push dbg (ptr_list t) ptr = Inr (pushed (ptr_list t) ptr)"
    using t(2) by (intro threadscan_queue_push_eq) (auto simp: q_live_def)
  then show ?thesis using t(1) ptr
    by (simp add: threadscan_collect_def collect_round_def [abs_def] on_proc_def queued_ptr_def Let_def)
qed

lemma round_leaves:
  assumes "tds (proc s) me = Some t" "q_live (ptr_list t)" "length (q_list (ptr_list t)) + 1 < unat (capacity (ptr_list t))"
  shows "loopE (collect_round dbg w me) s = Inr s"
proof -
  have "threadscan_queue_is_full dbg (ptr_list t) = Inr False"
    using assms(2,3) threadscan_queue_is_full_correct [of "ptr_list t" dbg] by (simp add: q_live_def)
  then show ?thesis using assms(1) by (subst loopE_unfold) (simp add: collect_round_def)
qed

lemma round_reclaims:
  assumes "tds (proc s) me = Some t" "q_live (ptr_list t)" "unat (capacity (ptr_list t)) \<le> length (q_list (ptr_list t)) + 1"
    and "lists (proc s) ls ss" "\<forall>td \<in> set ls. lowered (tds (proc s)) td" "\<not> TIMESTAMP_IS_ACTIVE (global_timestamp (proc s))"
  shows "collect_round dbg w me s =
    bindE (threadscan_reclaim dbg w me
      (s\<lparr>proc := (proc s)\<lparr>global_timestamp := TIMESTAMP_SET_ACTIVE (global_timestamp (proc s) + 1)\<rparr>\<rparr>)) (\<lambda>s. Inr (Inl s))"
proof -
  have "threadscan_queue_is_full dbg (ptr_list t) = Inr True"
    using assms(2,3) threadscan_queue_is_full_correct [of "ptr_list t" dbg] by (simp add: q_live_def)
  then show ?thesis using assms(1) try_acquire_free [OF assms(4-6)] by (simp add: collect_round_def)
qed

lemma queued_empty:
  assumes "queued h ls = []" "td \<in> set ls"
  shows "td_addrs h td = []"
  using assms by (auto simp: queued_def)

text \<open>A loop that starts with a full queue and a free lock reclaims once and ends.\<close>

definition reclaimed ::
  "'o world \<Rightarrow> size_t \<Rightarrow> 'o ts_state \<Rightarrow> size_t list \<Rightarrow> size_t list \<Rightarrow> size_t list \<Rightarrow> (size_t \<times> size_t) set \<Rightarrow>
   'o ts_state \<Rightarrow> size_t list \<Rightarrow> (size_t \<times> size_t) set \<Rightarrow> bool" where
  "reclaimed w me s cs ls ss D s' cs' D' \<longleftrightarrow>
     (\<exists>xs H. ts_inv (w_kernel w) s' cs' ls ss D' \<and> xs = sort (pending s cs ls) \<and>
       H = all_hits xs (scan_words w me (tds (proc s)) ls) \<and> addr_list xs \<and>
       freed s' = freed s @ swept xs H \<and> mset (pending s' cs' ls) = mset (survivors xs H) \<and>
       queued (tds (proc s')) ls = [] \<and> \<not> TIMESTAMP_IS_ACTIVE (global_timestamp (proc s')) \<and>
       reclaim_frame s cs ls D s' cs' D')"

lemma collect_loop_full:
  assumes inv: "ts_inv (w_kernel w) s cs ls ss D" and me: "me \<in> set ls" "tds (proc s) me = Some t"
    and full: "unat (capacity (ptr_list t)) \<le> length (q_list (ptr_list t)) + 1"
    and rec: "reclaimable dbg s (pending s cs ls)" and sc: "scan_ready dbg w me (tds (proc s)) ls"
    and free: "\<not> TIMESTAMP_IS_ACTIVE (global_timestamp (proc s))"
  shows "okay (mmap_fails (w_kernel w)) (loopE (collect_round dbg w me) s) (\<lambda>s'. \<exists>cs' D'.
    reclaimed w me s cs ls ss D s' cs' D')"
    (is "okay ?b _ ?P")
proof (rule okay_loopE)
  define s2 where "s2 = s\<lparr>proc := (proc s)\<lparr>global_timestamp := TIMESTAMP_SET_ACTIVE (global_timestamp (proc s) + 1)\<rparr>\<rparr>"
  have s2: "g_tsdata s2 = g_tsdata s" "tds (proc s2) = tds (proc s)" "freed s2 = freed s"
    "pending s2 cs ls = pending s cs ls" by (simp_all add: s2_def pending_def)
  have "lists (proc s2) ls ss" using inv by (auto simp: ts_inv_def s2_def intro: lists_cong)
  then have inv2: "ts_inv (w_kernel w) s2 cs ls ss D" using inv by (simp add: ts_inv_def s2_def storage_inv_def)
  have live: "q_live (ptr_list t)" using inv me by (auto simp: ts_inv_def)
  have round: "collect_round dbg w me s = bindE (threadscan_reclaim dbg w me s2) (\<lambda>s. Inr (Inl s))"
    unfolding s2_def by (rule round_reclaims [OF me(2) live full _ _ free]) (use inv in \<open>auto simp: ts_inv_def\<close>)
  have sc2: "scan_ready dbg w me (tds (proc s2)) ls" "reclaimable dbg s2 (pending s2 cs ls)"
    using sc rec by (simp_all add: s2 reclaimable_def)
  have frame: "reclaim_frame s2 cs ls D s' cs' D' = reclaim_frame s cs ls D s' cs' D'" for s' cs' D'
    by (simp add: reclaim_frame_def store_blocks_def s2_def)
  show "okay ?b (collect_round dbg w me s) (\<lambda>y. case y of Inl s' \<Rightarrow> okay ?b (loopE (collect_round dbg w me) s') ?P | Inr r \<Rightarrow> ?P r)"
    unfolding round
  proof (rule okay_bindE [OF reclaim_okay [OF inv2 sc2(2,1)]], elim exE conjE)
    fix s3 cs' D' xs H
    assume r: "ts_inv (w_kernel w) s3 cs' ls ss D'" "queued (tds (proc s3)) ls = []" "xs = sort (pending s2 cs ls)"
      "H = all_hits xs (scan_words w me (tds (proc s2)) ls)" "freed s3 = freed s2 @ swept xs H"
      "global_timestamp (proc s3) = TIMESTAMP (global_timestamp (proc s2))" "addr_list xs"
      "mset (pending s3 cs' ls) = mset (survivors xs H)" "reclaim_frame s2 cs ls D s3 cs' D'"
    obtain t3 where t3: "tds (proc s3) me = Some t3" "q_live (ptr_list t3)" using r(1) me(1) by (auto simp: ts_inv_def)
    have "q_list (ptr_list t3) = []" using queued_empty [OF r(2) me(1)] t3(1) by (simp add: td_addrs_def)
    then have "loopE (collect_round dbg w me) s3 = Inr s3" using t3 by (intro round_leaves) (auto simp: q_live_def)
    moreover have "reclaimed w me s cs ls ss D s3 cs' D'"
      using r unfolding reclaimed_def by (intro exI [of _ xs] exI [of _ H]) (simp add: s2 frame)
    ultimately show "okay ?b (Inr (Inl s3)) (\<lambda>y. case y of Inl s' \<Rightarrow> okay ?b (loopE (collect_round dbg w me) s') ?P | Inr r \<Rightarrow> ?P r)"
      by auto
  qed
qed

lemma reclaimable_cong:
  assumes "mset A' = mset A" "g_tsdata s' = g_tsdata s"
  shows "reclaimable dbg s' A' = reclaimable dbg s A"
proof -
  have "mset (filter P A') = mset (filter P A)" for P using assms(1) by (simp only: mset_filter)
  then have "distinct (filter P A') = distinct (filter P A)" for P by (rule mset_eq_imp_distinct_iff)
  then show ?thesis using assms(2) mset_eq_length [OF assms(1)] mset_eq_setD [OF assms(1)]
    by (auto simp: reclaimable_def)
qed

text \<open>
  The outcome of \<^verbatim>\<open>threadscan_collect\<close> when the queue has room for the address and no other thread reclaims:
  either room is left, and the address is queued; or the queue was full then, and a reclamation followed.
\<close>

definition has_room :: "'o ts_state \<Rightarrow> size_t \<Rightarrow> bool" where
  "has_room s me \<longleftrightarrow> length (td_addrs (tds (proc s)) me) + 2 < unat (capacity (ptr_list (the (tds (proc s) me))))"

lemma collect_leaves:
  assumes inv: "ts_inv k s cs ls ss D" and me: "me \<in> set ls" and room: "may_push s me" and ptr: "ptr \<noteq> 0"
    and hr: "has_room s me"
  shows "threadscan_collect dbg w me ptr s = Inr (queued_ptr me ptr s)"
proof -
  obtain t where t: "tds (proc s) me = Some t" "q_live (ptr_list t)" using inv me by (auto simp: ts_inv_def)
  have "q_live (pushed (ptr_list t) ptr)" "q_list (pushed (ptr_list t) ptr) = q_list (ptr_list t) @ [ptr]"
    using q_live_pushed [OF t(2)] room t(1) by (auto simp: may_push_def)
  moreover have "tds (proc (queued_ptr me ptr s)) me = Some (t\<lparr>ptr_list := pushed (ptr_list t) ptr\<rparr>)"
    by (simp add: queued_ptr_def Let_def t(1))
  ultimately have "loopE (collect_round dbg w me) (queued_ptr me ptr s) = Inr (queued_ptr me ptr s)"
    using hr t(1) by (intro round_leaves) (auto simp: td_addrs_def has_room_def)
  then show ?thesis by (simp only: threadscan_collect_eq [OF inv me room ptr])
qed

lemma collect_outcome:
  assumes inv: "ts_inv (w_kernel w) s cs ls ss D" and me: "me \<in> set ls" and room: "may_push s me" and ptr: "ptr \<noteq> 0"
    and full: "\<not> has_room s me \<Longrightarrow> reclaimable dbg s (ptr # pending s cs ls) \<and> scan_ready dbg w me (tds (proc s)) ls \<and>
      \<not> TIMESTAMP_IS_ACTIVE (global_timestamp (proc s))"
  shows "okay (mmap_fails (w_kernel w)) (threadscan_collect dbg w me ptr s) (\<lambda>s'.
    if has_room s me then s' = queued_ptr me ptr s
    else \<exists>cs' D'. reclaimed w me (queued_ptr me ptr s) cs ls ss D s' cs' D')"
proof -
  obtain t where t: "tds (proc s) me = Some t" "q_live (ptr_list t)" using inv me by (auto simp: ts_inv_def)
  let ?s = "queued_ptr me ptr s"
  note q1 = queued_ptr_correct [OF inv me room, where ptr = ptr]
  have s1: "g_tsdata ?s = g_tsdata s" "global_timestamp (proc ?s) = global_timestamp (proc s)"
    "tds (proc ?s) me = Some (t\<lparr>ptr_list := pushed (ptr_list t) ptr\<rparr>)"
    by (simp_all add: queued_ptr_def Let_def t(1))
  have push: "q_live (pushed (ptr_list t) ptr)" "q_list (pushed (ptr_list t) ptr) = q_list (ptr_list t) @ [ptr]"
    "length (q_list (ptr_list t)) + 1 < unat (capacity (ptr_list t))"
    using q_live_pushed [OF t(2)] room t(1) by (auto simp: may_push_def)
  have start: "threadscan_collect dbg w me ptr s = loopE (collect_round dbg w me) ?s"
    by (rule threadscan_collect_eq [OF inv me room ptr])
  show ?thesis
  proof (cases "has_room s me")
    case True
    then show ?thesis using collect_leaves [OF inv me room ptr, of dbg w] by simp
  next
    case False
    have "reclaimable dbg ?s (pending ?s cs ls)"
      using full [OF False] reclaimable_cong [of "pending ?s cs ls" "ptr # pending s cs ls" ?s s] q1(2) s1(1) by simp
    then show ?thesis
      using collect_loop_full [OF q1(1) me s1(3)] False push(2,3) full [OF False] t(1) q1(3) [where w = w]
      by (simp add: start s1(2) has_room_def td_addrs_def)
  qed
qed

text \<open>
  Collecting into a queue with room. \<^verbatim>\<open>threadscan_collect\<close> of an address by a thread whose queue
  does not fill up returns, adds exactly that address to the pending ones, frees nothing and keeps the
  invariant.
\<close>

theorem collect_queues:
  assumes "ts_inv k s cs ls ss D" and "me \<in> set ls" and "may_push s me" and "ptr \<noteq> 0"
    and "length (td_addrs (tds (proc s)) me) + 2 < unat (capacity (ptr_list (the (tds (proc s) me))))"
  shows "returns (threadscan_collect dbg w me ptr s) (\<lambda>s'. ts_inv k s' cs ls ss D \<and> freed s' = freed s \<and>
    mset (pending s' cs ls) = add_mset ptr (mset (pending s cs ls)))"
proof -
  have "has_room s me" using assms(5) by (simp add: has_room_def)
  moreover have "freed (queued_ptr me ptr s) = freed s" by (simp add: queued_ptr_def Let_def)
  ultimately show ?thesis
    using collect_leaves [OF assms(1-4), of dbg w] queued_ptr_correct(1,2) [OF assms(1-3)] by simp
qed

theorem collect_queues_witness:
  "returns (threadscan_collect True example_world 0x5000 48 (example_with (threadscan_queue_init [0, 0, 0, 0] 4)))
    (\<lambda>s'. ts_inv simple_kernel s' [] [0x5000] [] {(0x5000, 4096), (0x6000, 8192)} \<and>
      freed s' = freed (example_with (threadscan_queue_init [0, 0, 0, 0] 4)) \<and>
      mset (pending s' [] [0x5000]) =
        add_mset 48 (mset (pending (example_with (threadscan_queue_init [0, 0, 0, 0] 4)) [] [0x5000])))"
proof (rule collect_queues)
  let ?q = "threadscan_queue_init [0, 0, 0, 0] 4"
  have l: "q_list ?q = []" by (simp add: q_list_def q_size_def threadscan_queue_init_def)
  have "\<exists>k < 63. (4 :: nat) = 2 ^ k" by (rule exI [of _ 2]) simp
  then have "q_live ?q"
    by (simp add: q_live_def q_inv_def q_nowrap_def q_size_def threadscan_queue_init_def)
  then show "ts_inv simple_kernel (example_with ?q) [] [0x5000] [] {(0x5000, 4096), (0x6000, 8192)}"
    by (rule example_with_inv)
  have t: "tds (proc (example_with ?q)) 0x5000 = Some (example_td\<lparr>ptr_list := ?q\<rparr>)" by (simp add: example_with_def)
  have c: "capacity ?q = 4" "idx_head ?q = 0" by (simp_all add: threadscan_queue_init_def)
  show "may_push (example_with ?q) 0x5000" using t l c by (simp add: may_push_def)
  show "length (td_addrs (tds (proc (example_with ?q))) 0x5000) + 2 <
      unat (capacity (ptr_list (the (tds (proc (example_with ?q)) 0x5000))))"
    using t l c by (simp add: td_addrs_def)
qed simp_all

text \<open>
  (C9) Collecting the address that fills the queue. When no other thread reclaims, \<^verbatim>\<open>threadscan_collect\<close>
  becomes the reclaimer, returns (or ends the process because the kernel refuses memory), has given
  up the reclaimer lock, frees exactly the unreferenced addresses, the new one included, and leaves
  the queues of all threads empty.
\<close>

theorem collect_reclaims:
  assumes "ts_inv (w_kernel w) s cs ls ss D" and "me \<in> set ls" and "may_push s me" and "ptr \<noteq> 0"
    and "length (td_addrs (tds (proc s)) me) + 2 = unat (capacity (ptr_list (the (tds (proc s) me))))"
    and "reclaimable dbg s (ptr # pending s cs ls)" and "scan_ready dbg w me (tds (proc s)) ls"
    and "\<not> TIMESTAMP_IS_ACTIVE (global_timestamp (proc s))"
  shows "okay (mmap_fails (w_kernel w)) (threadscan_collect dbg w me ptr s) (\<lambda>s'. \<exists>cs' D' fs.
    ts_inv (w_kernel w) s' cs' ls ss D' \<and> queued (tds (proc s')) ls = [] \<and>
    \<not> TIMESTAMP_IS_ACTIVE (global_timestamp (proc s')) \<and> freed s' = freed s @ fs \<and>
    (\<forall>x. x \<noteq> 0 \<longrightarrow> (x \<in> set fs \<longleftrightarrow> x \<in> insert ptr (set (pending s cs ls)) \<and>
       x \<notin> PTR_MASK ` set (scan_words w me (tds (proc s)) ls))))"
proof -
  let ?s = "queued_ptr me ptr s"
  have full: "\<not> has_room s me" using assms(5) by (simp add: has_room_def)
  note q = queued_ptr_correct(2,4) [OF assms(1-3), where ptr = ptr]
  have set1: "set (pending ?s cs ls) = insert ptr (set (pending s cs ls))"
    using q(1) by (metis set_mset_add_mset_insert set_mset_mset)
  have "okay (mmap_fails (w_kernel w)) (threadscan_collect dbg w me ptr s) (\<lambda>s'. \<exists>cs' D'. reclaimed w me ?s cs ls ss D s' cs' D')"
    using collect_outcome [OF assms(1-4), of dbg] assms(6-8) full by simp
  then show ?thesis
  proof (rule okay_mono, elim exE)
    fix s' cs' D' assume "reclaimed w me ?s cs ls ss D s' cs' D'"
    then obtain xs H where r: "ts_inv (w_kernel w) s' cs' ls ss D'" "xs = sort (pending ?s cs ls)"
      "H = all_hits xs (scan_words w me (tds (proc ?s)) ls)" "freed s' = freed s @ swept xs H"
      "queued (tds (proc s')) ls = []" "\<not> TIMESTAMP_IS_ACTIVE (global_timestamp (proc s'))"
      unfolding reclaimed_def by (auto simp: queued_ptr_def Let_def)
    have "x \<in> set (swept xs H) \<longleftrightarrow> x \<in> insert ptr (set (pending s cs ls)) \<and>
       x \<notin> PTR_MASK ` set (scan_words w me (tds (proc s)) ls)" if "x \<noteq> 0" for x
      using swept_iff [OF that, of xs "scan_words w me (tds (proc ?s)) ls"] by (simp add: r(2,3) q(2) set1)
    then show "\<exists>cs' D' fs. ts_inv (w_kernel w) s' cs' ls ss D' \<and> queued (tds (proc s')) ls = [] \<and>
      \<not> TIMESTAMP_IS_ACTIVE (global_timestamp (proc s')) \<and> freed s' = freed s @ fs \<and>
      (\<forall>x. x \<noteq> 0 \<longrightarrow> (x \<in> set fs \<longleftrightarrow> x \<in> insert ptr (set (pending s cs ls)) \<and>
         x \<notin> PTR_MASK ` set (scan_words w me (tds (proc s)) ls)))"
      using r(1,4-6) by blast
  qed
qed

theorem collect_reclaims_witness:
  "okay (mmap_fails (w_kernel example_world)) (threadscan_collect True example_world 0x5000 48 example_state) (\<lambda>s'. \<exists>cs' D' fs.
    ts_inv (w_kernel example_world) s' cs' [0x5000] [] D' \<and> queued (tds (proc s')) [0x5000] = [] \<and>
    \<not> TIMESTAMP_IS_ACTIVE (global_timestamp (proc s')) \<and> freed s' = freed example_state @ fs \<and>
    (\<forall>x. x \<noteq> 0 \<longrightarrow> (x \<in> set fs \<longleftrightarrow> x \<in> insert 48 (set (pending example_state [] [0x5000])) \<and>
       x \<notin> PTR_MASK ` set (scan_words example_world 0x5000 (tds (proc example_state)) [0x5000]))))"
proof (rule collect_reclaims [OF _ _ _ _ _ _ example_scan_ready])
  show "ts_inv (w_kernel example_world) example_state [] [0x5000] [] {(0x5000, 4096), (0x6000, 8192)}"
    using example_state_inv by (simp add: example_world_def)
  have t: "tds (proc example_state) 0x5000 = Some (example_td\<lparr>ptr_list := example_queue\<rparr>)"
    by (simp add: example_state_def example_with_def)
  have c: "capacity example_queue = 4" "idx_head example_queue = 2" by (simp_all add: example_queue_def)
  show "may_push example_state 0x5000" using t c by (simp add: may_push_def example_queue_ok)
  show "length (td_addrs (tds (proc example_state)) 0x5000) + 2 =
      unat (capacity (ptr_list (the (tds (proc example_state) 0x5000))))"
    using t c by (simp add: td_addrs_def example_queue_ok)
  show "reclaimable True example_state (48 # pending example_state [] [0x5000])"
    by (rule example_reclaimable(2))
  show "\<not> TIMESTAMP_IS_ACTIVE (global_timestamp (proc example_state))"
    by (simp add: example_state_def example_with_def example_proc_def TIMESTAMP_IS_ACTIVE_def)
qed simp_all

subsection \<open>Properties of the storage and of the buffers\<close>

text \<open>
  (C23) Storing and gathering. The addresses that one round stores are the addresses that a later round
  gathers, with those that were stored before, and the blocks that held them are given back.
\<close>

theorem store_gather_round_trip:
  assumes "storage_inv s cs D" and "alloc_ready k (mem (proc s)) D"
    and "bufs s p = Some a" and "p \<notin> set cs" and "p \<noteq> 0" and "(p, working_buffer_sz (g_tsdata s)) \<in> D"
    and "0 < n" and "n + 2 \<le> length a" and "n < 2 ^ 31" and "int n + 2 \<le> max_ptrs (g_tsdata s) * 2"
    and "buf_addrs (g_tsdata s) \<notin> set (p # cs)" and "bufs s (buf_addrs (g_tsdata s)) = Some b"
    and "n + length (stored (bufs s) cs) \<le> length b"
    and "int (n + length (stored (bufs s) cs)) \<le> max_ptrs (g_tsdata s) * 2"
  shows "returns (bindE (store_remaining_addrs dbg k p (int n) s) (\<lambda>s'. add_leftovers dbg k (storage (g_tsdata s')) 0 s'))
    (\<lambda>(n', s'). n' = int (n + length (stored (bufs s) cs)) \<and>
      (\<exists>b'. bufs s' (buf_addrs (g_tsdata s)) = Some b' \<and>
         mset (take (nat n') b') = mset (take n a) + mset (stored (bufs s) cs)) \<and>
      alloc_ready k (mem (proc s')) (D - (\<lambda>c. (c, working_buffer_sz (g_tsdata s))) ` set (p # cs)))"
proof -
  let ?B = "buf_addrs (g_tsdata s)" and ?W = "working_buffer_sz (g_tsdata s)" and ?N = "n + length (stored (bufs s) cs)"
  define s1 where "s1 = set_buf p (stored_block (storage (g_tsdata s)) n a) (s\<lparr>g_tsdata := (g_tsdata s)\<lparr>storage := p\<rparr>\<rparr>)"
  have s1: "bufs s1 = (bufs s)(p \<mapsto> stored_block (storage (g_tsdata s)) n a)" "g_tsdata s1 = (g_tsdata s)\<lparr>storage := p\<rparr>"
    "proc s1 = proc s" by (simp_all add: s1_def set_buf_def)
  have store: "store_remaining_addrs dbg k p (int n) s = Inr s1"
    unfolding s1_def by (rule store_remaining_addrs_eq [where a = a]) (use assms in auto)
  note st = storage_inv_store [OF assms(1,4,5,6,7,8,9) s1(1,2)]
  have len: "length (stored (bufs s1) (p # cs)) = ?N" using assms(8) by (simp add: st(2))
  have "\<exists>m. add_leftovers dbg k p (int 0) s1 = Inr (int (0 + length (stored (bufs s1) (p # cs))),
      s1\<lparr>bufs := ((bufs s1) |` (- set (p # cs)))(buf_addrs (g_tsdata s1) \<mapsto>
          take 0 b @ stored (bufs s1) (p # cs) @ drop (0 + length (stored (bufs s1) (p # cs))) b),
        proc := (proc s1)\<lparr>mem := m\<rparr>\<rparr>) \<and> alloc_ready k m (D - (\<lambda>c. (c, ?W)) ` set (p # cs))"
  proof (rule add_leftovers_correct)
    show "path (st_next (bufs s1)) p (p # cs)" "distinct (p # cs)" "(\<lambda>c. (c, ?W)) ` set (p # cs) \<subseteq> D"
      "\<And>c. c \<in> set (p # cs) \<Longrightarrow> \<exists>l. bufs s1 c = Some l \<and> st_ok l"
      using st(1) by (auto simp: storage_inv_def s1(2))
  qed (use assms(2,11-14) len in \<open>auto simp: s1\<close>)
  then obtain m where m: "add_leftovers dbg k p 0 s1 = Inr (int ?N,
      s1\<lparr>bufs := ((bufs s1) |` (- set (p # cs)))(?B \<mapsto> stored (bufs s1) (p # cs) @ drop ?N b), proc := (proc s1)\<lparr>mem := m\<rparr>\<rparr>)"
    "alloc_ready k m (D - (\<lambda>c. (c, ?W)) ` set (p # cs))"
    unfolding len by (auto simp: s1(2))
  have "take ?N (stored (bufs s1) (p # cs) @ drop ?N b) = stored (bufs s1) (p # cs)" using len by simp
  then show ?thesis using m store by (simp add: s1(2) st(2) mset_rotate del: of_nat_add)
qed

text \<open>A state with a stored block, small enough to look at.\<close>

definition small_state :: "size_t \<Rightarrow> (size_t \<rightharpoonup> size_t list) \<Rightarrow> simple_os ts_state" where
  "small_state st bs =
     \<lparr>g_tsdata = \<lparr>max_ptrs = 2, n_addrs = 0, buf_addrs = 0x9000, n_scan_map = 0, buf_scan_map = 0,
        working_buffer_sz = 8192, offset_list = [32, 0], storage = st\<rparr>,
      self_stacks_searched = 1, bufs = bs, proc = example_proc, freed = []\<rparr>"

theorem store_gather_round_trip_witness:
  "returns (bindE (store_remaining_addrs True simple_kernel 0x6000 (int 2) (small_state 0 [0x6000 \<mapsto> [16, 32, 0, 0], 0x9000 \<mapsto> [0, 0, 0]]))
      (\<lambda>s'. add_leftovers True simple_kernel (storage (g_tsdata s')) 0 s'))
    (\<lambda>(n', s'). n' = int (2 + length (stored (bufs (small_state 0 [0x6000 \<mapsto> [16, 32, 0, 0], 0x9000 \<mapsto> [0, 0, 0]])) [])) \<and>
      (\<exists>b'. bufs s' (buf_addrs (g_tsdata (small_state 0 [0x6000 \<mapsto> [16, 32, 0, 0], 0x9000 \<mapsto> [0, 0, 0]]))) = Some b' \<and>
         mset (take (nat n') b') = mset (take 2 [16, 32, 0, 0]) +
           mset (stored (bufs (small_state 0 [0x6000 \<mapsto> [16, 32, 0, 0], 0x9000 \<mapsto> [0, 0, 0]])) [])) \<and>
      alloc_ready simple_kernel (mem (proc s')) ({(0x5000, 4096), (0x6000, 8192)} -
        (\<lambda>c. (c, working_buffer_sz (g_tsdata (small_state 0 [0x6000 \<mapsto> [16, 32, 0, 0], 0x9000 \<mapsto> [0, 0, 0]])))) ` set [0x6000]))"
  by (rule store_gather_round_trip [where b = "[0, 0, 0]"])
     (use example_proc_ready in \<open>simp_all add: small_state_def storage_inv_def stored_def\<close>)

text \<open>
  (C28) Too many leftovers. When the stored blocks hold more than \<^verbatim>\<open>2 * max_ptrs\<close> addresses together,
  which several reclaimers can bring about because each stores its leftovers after it has given up the
  lock, the next gathering ends the process.
\<close>

theorem gather_overflow_fatal:
  assumes "storage_inv s cs D" and "alloc_ready k (mem (proc s)) D"
    and "buf_addrs (g_tsdata s) \<notin> set cs" and "bufs s (buf_addrs (g_tsdata s)) = Some a"
    and "0 \<le> max_ptrs (g_tsdata s)" and "max_ptrs (g_tsdata s) * 2 \<le> int (length a)"
    and "max_ptrs (g_tsdata s) * 2 < int (length (stored (bufs s) cs))"
  shows "generate_working_pointers_list dbg k s = Inl (Fatal ''threadscan internal error: overflowed address list.'')"
proof -
  define s0 where "s0 = s\<lparr>g_tsdata := (g_tsdata s)\<lparr>storage := 0\<rparr>\<rparr>"
  have "add_leftovers dbg k (storage (g_tsdata s)) (int 0) s0 =
      Inl (Fatal ''threadscan internal error: overflowed address list.'')"
    by (rule add_leftovers_overflow [where cs = cs and D = D and a = a and W = "working_buffer_sz (g_tsdata s)"])
       (use assms in \<open>auto simp: s0_def storage_inv_def\<close>)
  then show ?thesis by (simp add: generate_working_pointers_list_def Let_def s0_def)
qed

theorem gather_overflow_fatal_witness:
  "generate_working_pointers_list False simple_kernel
     (small_state 0x6000 [0x6000 \<mapsto> [0, 5, 16, 32, 48, 64, 80], 0x9000 \<mapsto> [0, 0, 0, 0]]) =
   Inl (Fatal ''threadscan internal error: overflowed address list.'')"
  by (rule gather_overflow_fatal [where cs = "[0x6000]" and D = "{(0x5000, 4096), (0x6000, 8192)}" and a = "[0, 0, 0, 0]"])
     (use example_proc_ready in \<open>simp_all add: small_state_def storage_inv_def stored_def st_addrs_def st_next_def st_ok_def\<close>)

text \<open>
  (C24) The working buffer fits. For every setting of the environment, the buffer that the constructor
  computes holds \<^verbatim>\<open>2 * max_ptrs\<close> addresses followed by one word of scan map for each page of them, is a
  whole number of pages, and none of the products wraps around.
\<close>

theorem working_buffer_fits:
  assumes "length (offset_list ts) = 2" and "ts' = register_signal_handlers (fst (env_init val)) ts"
  shows "max_ptrs ts' = 256 * fst (env_init val) \<and>
    unat (offset_list ts' ! 0) = 8 * nat (2 * max_ptrs ts') \<and>
    unat (working_buffer_sz ts') = unat (offset_list ts' ! 0) + 8 * pages (nat (2 * max_ptrs ts')) \<and>
    working_buffer_sz ts' mod PAGESIZE = 0"
proof (intro conjI)
  have "sized ts'" unfolding assms(2) by (rule register_signal_handlers_sized [OF ptrs_ok_env_init assms(1)])
  then obtain m where m: "1 \<le> m" "m \<le> 32" "max_ptrs ts' = 262144 * int m"
    "unat (offset_list ts' ! 0) = 16 * (262144 * m)" "unat (working_buffer_sz ts') = 16 * (262144 * m) + 8192 * m"
    by (auto simp: sized_def)
  have n: "nat (2 * max_ptrs ts') = 512 * (1024 * m)" using m(3) by simp
  show "max_ptrs ts' = 256 * fst (env_init val)"
    by (simp add: assms(2) register_signal_handlers_def Let_def MAX_THREAD_COUNT_def)
  show "unat (offset_list ts' ! 0) = 8 * nat (2 * max_ptrs ts')" using m(4) n by simp
  show "unat (working_buffer_sz ts') = unat (offset_list ts' ! 0) + 8 * pages (nat (2 * max_ptrs ts'))"
    using m(4,5) unfolding n by (simp add: pages_def)
  show "working_buffer_sz ts' mod PAGESIZE = 0" by (rule page_multiple [of _ "1026 * m"]) (simp add: m(5))
qed

theorem working_buffer_fits_witness:
  "\<exists>ts'. ts' = register_signal_handlers (fst (env_init (Some ''8000''))) (g_tsdata (small_state 0 Map.empty)) \<and>
    max_ptrs ts' = 256 * fst (env_init (Some ''8000'')) \<and>
    unat (offset_list ts' ! 0) = 8 * nat (2 * max_ptrs ts') \<and>
    unat (working_buffer_sz ts') = unat (offset_list ts' ! 0) + 8 * pages (nat (2 * max_ptrs ts')) \<and>
    working_buffer_sz ts' mod PAGESIZE = 0"
  by (rule exI, rule conjI [OF refl], rule working_buffer_fits [OF _ refl]) (simp add: small_state_def)

end
