(* ===== verification/TS_Procmap.thy ===== *)
theory TS_Procmap
  imports TS_Thread
begin

text \<open>
  The reader of \<^verbatim>\<open>/proc/self/maps\<close> in \<^verbatim>\<open>proc.c\<close>, which finds the stack of the main thread: the part of
  \<^verbatim>\<open>fscanf\<close> that it uses, \<^verbatim>\<open>read_mapline\<close> and \<^verbatim>\<open>threadscan_proc_stack_from_addr\<close>.

  The lines that the kernel prints are read back exactly (\<open>read_printed\<close>); for every other content of the
  file the reader still ends.
\<close>

subsection \<open>The standard library\<close>

text \<open>An open file: the characters not yet read, and the end-of-file indicator of the stream.\<close>

record stream =
  rest :: string
  at_eof :: bool

definition isspace :: "char \<Rightarrow> bool" where
  "isspace c = (let n = of_char c :: nat in n = 32 \<or> (9 \<le> n \<and> n \<le> 13))"

definition digit_val :: "char \<Rightarrow> nat" where
  "digit_val c =
     (let n = of_char c in
      if 48 \<le> n \<and> n \<le> 57 then n - 48
      else if 97 \<le> n \<and> n \<le> 102 then n - 87
      else if 65 \<le> n \<and> n \<le> 70 then n - 55
      else 16)"

definition is_digit :: "nat \<Rightarrow> char \<Rightarrow> bool" where
  "is_digit b c \<longleftrightarrow> digit_val c < b"

definition digits_value :: "nat \<Rightarrow> string \<Rightarrow> nat" where
  "digits_value b ds = foldl (\<lambda>v c. v * b + digit_val c) 0 ds"

text \<open>Reading as long as the characters satisfy \<open>P\<close>; seeing the end of the file sets the indicator.\<close>

definition skip_while :: "(char \<Rightarrow> bool) \<Rightarrow> stream \<Rightarrow> stream" where
  "skip_while P f = (let r = dropWhile P (rest f) in \<lparr>rest = r, at_eof = at_eof f \<or> r = []\<rparr>)"

text \<open>
  A conversion of \<^verbatim>\<open>fscanf\<close> finds no more input, finds input of the wrong form, or converts. A number
  is its sign and its absolute value.
\<close>

datatype 'a conversion = No_input | No_match | Got 'a

definition scan_number :: "nat \<Rightarrow> stream \<Rightarrow> (bool \<times> nat) conversion \<times> stream" where
  "scan_number b f =
     (let f = skip_while isspace f in
      if rest f = [] then (No_input, f)
      else
        let neg = (hd (rest f) = CHR ''-'');
            r = (if hd (rest f) \<in> {CHR ''-'', CHR ''+''} then tl (rest f) else rest f);
            r = (if b = 16 \<and> (take 2 r = ''0x'' \<or> take 2 r = ''0X'') then drop 2 r else r);
            ds = takeWhile (is_digit b) r;
            f = skip_while (is_digit b) (f\<lparr>rest := r\<rparr>)
        in if ds = [] then (No_match, f) else (Got (neg, digits_value b ds), f))"

definition scan_string :: "stream \<Rightarrow> string conversion \<times> stream" where
  "scan_string f =
     (let f = skip_while isspace f in
      if rest f = [] then (No_input, f)
      else (Got (takeWhile (\<lambda>c. \<not> isspace c) (rest f)), skip_while (\<lambda>c. \<not> isspace c) f))"

text \<open>
  \<^verbatim>\<open>strtoull\<close> and \<^verbatim>\<open>strtol\<close>, which saturate; \<^verbatim>\<open>%x\<close> and \<^verbatim>\<open>%d\<close> store the low 32 bits.
\<close>

definition strtoull :: "bool \<times> nat \<Rightarrow> 64 word" where
  "strtoull = (\<lambda>(neg, v). if 2 ^ 64 \<le> v then - 1 else if neg then - of_nat v else of_nat v)"

definition strtol :: "bool \<times> nat \<Rightarrow> 64 word" where
  "strtol = (\<lambda>(neg, v).
     if neg then (if 2 ^ 63 \<le> v then 2 ^ 63 else - of_nat v)
     else (if 2 ^ 63 \<le> v then 2 ^ 63 - 1 else of_nat v))"

text \<open>
  The format: white space, a literal character, \<^verbatim>\<open>%llx\<close>, \<^verbatim>\<open>%x\<close>, \<^verbatim>\<open>%d\<close>, and \<^verbatim>\<open>%s\<close> into an array of the
  given size. A word that does not fit into the array with its terminating zero is written past the end.
\<close>

datatype directive = White | Literal char | Llx | Hex | Dec | Str nat

datatype scanned = U64 "64 word" | U32 "32 word" | Chars string

type_synonym scan_result = "int \<times> scanned list \<times> stream"

definition input_failure :: "scanned list \<Rightarrow> stream \<Rightarrow> scan_result res" where
  "input_failure vs f = Inr (if vs = [] then - 1 else int (length vs), vs, f)"

definition match_failure :: "scanned list \<Rightarrow> stream \<Rightarrow> scan_result res" where
  "match_failure vs f = Inr (int (length vs), vs, f)"

text \<open>\<open>vs\<close>: the values stored so far. The result begins with the value that \<^verbatim>\<open>fscanf\<close> returns.\<close>

fun fscanf :: "directive list \<Rightarrow> scanned list \<Rightarrow> stream \<Rightarrow> scan_result res" where
  "fscanf [] vs f = Inr (int (length vs), vs, f)"
| "fscanf (White # ds) vs f = fscanf ds vs (skip_while isspace f)"
| "fscanf (Literal c # ds) vs f =
     (if rest f = [] then input_failure vs (f\<lparr>at_eof := True\<rparr>)
      else if hd (rest f) = c then fscanf ds vs (f\<lparr>rest := tl (rest f)\<rparr>)
      else match_failure vs f)"
| "fscanf (Llx # ds) vs f =
     (case scan_number 16 f of
        (No_input, f) \<Rightarrow> input_failure vs f
      | (No_match, f) \<Rightarrow> match_failure vs f
      | (Got v, f) \<Rightarrow> fscanf ds (vs @ [U64 (strtoull v)]) f)"
| "fscanf (Hex # ds) vs f =
     (case scan_number 16 f of
        (No_input, f) \<Rightarrow> input_failure vs f
      | (No_match, f) \<Rightarrow> match_failure vs f
      | (Got v, f) \<Rightarrow> fscanf ds (vs @ [U32 (ucast (strtoull v))]) f)"
| "fscanf (Dec # ds) vs f =
     (case scan_number 10 f of
        (No_input, f) \<Rightarrow> input_failure vs f
      | (No_match, f) \<Rightarrow> match_failure vs f
      | (Got v, f) \<Rightarrow> fscanf ds (vs @ [U32 (ucast (strtol v))]) f)"
| "fscanf (Str n # ds) vs f =
     (case scan_string f of
        (No_input, f) \<Rightarrow> input_failure vs f
      | (No_match, f) \<Rightarrow> match_failure vs f
      | (Got w, f) \<Rightarrow> if n \<le> length w then Inl Bad_access else fscanf ds (vs @ [Chars w]) f)"

subsection \<open>Reading a line\<close>

definition MAPLINE_LOCATION_SIZE :: nat where
  "MAPLINE_LOCATION_SIZE = 256"

text \<open>The arrays \<^verbatim>\<open>bits\<close> and \<^verbatim>\<open>location\<close> are the strings in them.\<close>

record mapline =
  range_begin :: "64 word"
  range_end :: "64 word"
  bits :: string
  f1 :: "64 word"
  f2 :: "32 word"
  f3 :: "32 word"
  f4 :: "32 word"
  location :: string

text \<open>\<^verbatim>\<open>"%llx-%llx %s %llx %x:%x %d"\<close>, where \<^verbatim>\<open>bits\<close> is an array of 5.\<close>

definition mapline_format :: "directive list" where
  "mapline_format =
     [Llx, Literal CHR ''-'', Llx, White, Str 5, White, Llx, White, Hex, Literal CHR '':'', Hex, White, Dec]"

text \<open>
  \<^verbatim>\<open>while (' ' == (c = fgetc(fp)));\<close>: the first character that is no blank, if there is one. The variable
  \<^verbatim>\<open>c\<close> is a signed character, so the character 255 is taken for the end of the file.
\<close>

definition fgetc_nonblank :: "stream \<Rightarrow> char option \<times> stream" where
  "fgetc_nonblank f =
     (let f = skip_while (\<lambda>c. c = CHR '' '') f in
      if rest f = [] then (None, f)
      else (if hd (rest f) = CHR 0xFF then None else Some (hd (rest f)), f\<lparr>rest := tl (rest f)\<rparr>))"

definition fscanf_returned :: fault where
  "fscanf_returned = Fatal ''threadscan internal error: fscanf returned''"

fun word_stored :: "scanned \<Rightarrow> string" where
  "word_stored (Chars w) = w"
| "word_stored v = []"

text \<open>The rest of a line whose numbers were read into \<open>m\<close>.\<close>

definition read_name :: "mapline \<Rightarrow> stream \<Rightarrow> (mapline option \<times> stream) res" where
  "read_name m f =
     (case fgetc_nonblank f of
        (None, f) \<Rightarrow> Inr (Some m, f)
      | (Some c, f) \<Rightarrow>
          if c = CHR 0x0A then Inr (Some m, f)
          else bindE (fscanf [Str (MAPLINE_LOCATION_SIZE - 1), White] [] f) (\<lambda>(n, vs, f).
            if n \<noteq> 1 then Inl fscanf_returned
            else Inr (Some (m\<lparr>location := c # word_stored (hd vs)\<rparr>), f)))"

definition read_location :: "int \<Rightarrow> scanned list \<Rightarrow> stream \<Rightarrow> (mapline option \<times> stream) res" where
  "read_location n vs f =
     (case vs of
        [U64 b, U64 e, Chars bs, U64 v1, U32 v2, U32 v3, U32 v4] \<Rightarrow>
          if n \<noteq> 7 then Inl fscanf_returned
          else read_name \<lparr>range_begin = b, range_end = e, bits = bs, f1 = v1, f2 = v2, f3 = v3, f4 = v4, location = []\<rparr> f
      | _ \<Rightarrow> Inl fscanf_returned)"

text \<open>No line is read at the end of the file (the code returns zero).\<close>

definition read_mapline :: "stream \<Rightarrow> (mapline option \<times> stream) res" where
  "read_mapline f =
     (if at_eof f then Inr (None, f)
      else bindE (fscanf mapline_format [] f) (\<lambda>(n, vs, f). read_location n vs f))"

subsection \<open>Finding the stack\<close>

definition stack_body :: "size_t \<Rightarrow> stream \<Rightarrow> (stream + mem_range) res" where
  "stack_body addr f =
     bindE (read_mapline f) (\<lambda>(m, f).
       case m of
         None \<Rightarrow> Inr (Inr \<lparr>low = 0, high = 0\<rparr>)
       | Some l \<Rightarrow>
           if addr > range_begin l \<and> addr < range_end l
           then Inr (Inr \<lparr>low = range_begin l, high = range_end l\<rparr>)
           else Inr (Inl f))"

text \<open>\<open>maps\<close> is the content of \<^verbatim>\<open>/proc/self/maps\<close>, or nothing if it cannot be opened.\<close>

definition threadscan_proc_stack_from_addr :: "bool \<Rightarrow> string option \<Rightarrow> size_t \<Rightarrow> mem_range res" where
  "threadscan_proc_stack_from_addr dbg maps addr =
     bindE (c_assert dbg (addr > 0)) (\<lambda>_.
       case maps of
         None \<Rightarrow> Inl (Fatal ''threadscan: unable to open memory map file.'')
       | Some content \<Rightarrow> loopE (stack_body addr) \<lparr>rest = content, at_eof = False\<rparr>)"

subsection \<open>Every reading ends\<close>

lemma rest_skip_while [simp]: "rest (skip_while P f) = dropWhile P (rest f)"
  by (simp add: skip_while_def Let_def)

lemma at_eof_skip_while [simp]: "at_eof (skip_while P f) \<longleftrightarrow> at_eof f \<or> dropWhile P (rest f) = []"
  by (simp add: skip_while_def Let_def)

text \<open>What is left to read never grows, and it shrinks when a number or a word was converted.\<close>

lemma length_tl_le: "length (tl xs) \<le> length xs"
  by (cases xs) auto

lemma scan_number_shrinks:
  assumes "scan_number b f = (c, f')"
  shows "length (rest f') \<le> length (rest f) \<and> (\<forall>v. c = Got v \<longrightarrow> length (rest f') < length (rest f))"
proof (cases "dropWhile isspace (rest f) = []")
  case True
  then show ?thesis using assms by (auto simp: scan_number_def Let_def length_dropWhile_le)
next
  case False
  define r0 where "r0 = dropWhile isspace (rest f)"
  define r1 where "r1 = (if hd r0 \<in> {CHR ''-'', CHR ''+''} then tl r0 else r0)"
  define r2 where "r2 = (if b = 16 \<and> (take 2 r1 = ''0x'' \<or> take 2 r1 = ''0X'') then drop 2 r1 else r1)"
  have "length r0 \<le> length (rest f)" by (simp add: r0_def length_dropWhile_le)
  moreover have "length r1 \<le> length r0" by (simp add: r1_def length_tl_le)
  moreover have "length r2 \<le> length r1" by (simp add: r2_def)
  moreover have "length (dropWhile P r2) \<le> length r2" for P by (rule length_dropWhile_le)
  moreover have "length (dropWhile P r2) < length r2" if "takeWhile P r2 \<noteq> []" for P
    using that by (cases r2) (auto simp: length_dropWhile_le less_Suc_eq_le split: if_splits)
  moreover have "f' = skip_while (is_digit b) ((skip_while isspace f)\<lparr>rest := r2\<rparr>)"
    "\<exists>v. c = Got v \<Longrightarrow> takeWhile (is_digit b) r2 \<noteq> []"
    using assms False unfolding r0_def [symmetric] scan_number_def Let_def rest_skip_while r1_def [symmetric] r2_def [symmetric]
    by (auto split: if_splits)
  ultimately show ?thesis by (fastforce dest: le_trans)
qed

lemma scan_string_shrinks:
  assumes "scan_string f = (c, f')"
  shows "length (rest f') \<le> length (rest f)"
  using assms length_dropWhile_le [of isspace "rest f"]
    length_dropWhile_le [of "\<lambda>c. \<not> isspace c" "dropWhile isspace (rest f)"]
  by (auto simp: scan_string_def Let_def split: if_splits)

lemma fscanf_shrinks:
  "fscanf ds vs f = Inr (n, vs', f') \<Longrightarrow> length (rest f') \<le> length (rest f)"
proof (induction ds vs f rule: fscanf.induct)
  case (2 ds vs f)
  then show ?case using length_dropWhile_le [of isspace "rest f"] by fastforce
next
  case (3 c ds vs f)
  then show ?case using length_tl_le [of "rest f"]
    by (auto simp: input_failure_def match_failure_def split: if_splits)
next
  case (7 n ds vs f)
  then show ?case
    by (fastforce simp: input_failure_def match_failure_def split: prod.splits conversion.splits if_splits
        dest: scan_string_shrinks)
qed (fastforce simp: input_failure_def match_failure_def split: prod.splits conversion.splits if_splits
    dest: scan_number_shrinks)+

text \<open>\<^verbatim>\<open>fscanf\<close> never hangs, and with a number first it consumes a character if it stores a value.\<close>

lemma fscanf_no_hang: "fscanf ds vs f \<noteq> Inl Hang"
  by (induction ds vs f rule: fscanf.induct)
     (auto simp: input_failure_def match_failure_def split: prod.splits conversion.splits)

lemma fscanf_format_shrinks:
  assumes "fscanf mapline_format [] f = Inr (n, vs, f')" and "vs \<noteq> []"
  shows "length (rest f') < length (rest f)"
proof -
  obtain c g where c: "scan_number 16 f = (c, g)" by fastforce
  then show ?thesis
  proof (cases c)
    case (Got v)
    obtain ds where ds: "mapline_format = Llx # ds" by (simp add: mapline_format_def)
    have "fscanf ds [U64 (strtoull v)] g = Inr (n, vs, f')" using assms(1) c Got by (simp add: ds)
    then show ?thesis using fscanf_shrinks scan_number_shrinks [OF c] Got by fastforce
  qed (use assms in \<open>auto simp: mapline_format_def input_failure_def match_failure_def\<close>)
qed

lemma fgetc_nonblank_shrinks:
  assumes "fgetc_nonblank f = (c, f')"
  shows "length (rest f') \<le> length (rest f)"
proof -
  define r where "r = dropWhile (\<lambda>c. c = CHR '' '') (rest f)"
  have "rest f' = r \<or> rest f' = tl r"
    using assms by (simp add: fgetc_nonblank_def Let_def r_def [symmetric] split: if_split_asm)
       (auto simp: r_def [symmetric] simp del: dropWhile_eq_Nil_conv)
  moreover have "length r \<le> length (rest f)" by (simp add: r_def length_dropWhile_le)
  ultimately show ?thesis using length_tl_le [of r] by fastforce
qed

lemma read_name_shrinks:
  assumes "read_name m f = Inr (m', f')"
  shows "length (rest f') \<le> length (rest f)"
proof -
  obtain c g where c: "fgetc_nonblank f = (c, g)" by fastforce
  have "length (rest f') \<le> length (rest g)"
    using assms c
    by (auto simp: read_name_def bindE_Inr_iff simp del: fscanf.simps dest!: fscanf_shrinks
        split: if_split_asm option.split_asm)
  then show ?thesis using fgetc_nonblank_shrinks [OF c] by simp
qed

lemma read_mapline_shrinks:
  assumes "read_mapline f = Inr (Some m, f')"
  shows "length (rest f') < length (rest f)"
proof -
  obtain n vs g where 1: "fscanf mapline_format [] f = Inr (n, vs, g)"
    and r: "read_location n vs g = Inr (Some m, f')"
    using assms by (auto simp: read_mapline_def bindE_Inr_iff split: if_split_asm)
  from r have 2: "vs \<noteq> []" by (auto simp: read_location_def)
  have "length (rest f') \<le> length (rest g)"
    using r by (auto simp: read_location_def dest: read_name_shrinks split: list.split_asm scanned.split_asm if_split_asm)
  then show ?thesis using fscanf_format_shrinks [OF 1 2] by simp
qed

lemma read_mapline_no_hang: "read_mapline f \<noteq> Inl Hang"
  by (auto simp: read_mapline_def read_location_def read_name_def bindE_def fscanf_returned_def fscanf_no_hang simp del: fscanf.simps
      split: sum.split prod.split list.split scanned.split option.split)

text \<open>
  (C35) Termination. Whatever the process map holds, \<^verbatim>\<open>threadscan_proc_stack_from_addr\<close> ends: it returns a
  range or ends the process, but does not read for ever, since every line that it goes past is at least one
  character.
\<close>

theorem stack_from_addr_ends: "threadscan_proc_stack_from_addr dbg maps addr \<noteq> Inl Hang"
proof -
  have "loopE (stack_body addr) f \<noteq> Inl Hang" for f
  proof (rule loopE_ends [where m = "\<lambda>f. length (rest f)"])
    show "stack_body addr f \<noteq> Inl Hang" for f
      using read_mapline_no_hang [of f] by (auto simp: stack_body_def bindE_def split: sum.split option.split)
    show "length (rest f') < length (rest f)" if "stack_body addr f = Inr (Inl f')" for f f'
      using that by (auto simp: stack_body_def bindE_Inr_iff dest: read_mapline_shrinks split: option.split_asm if_split_asm)
  qed
  then show ?thesis
    by (auto simp: threadscan_proc_stack_from_addr_def c_assert_def split: option.split)
qed

subsection \<open>The lines that the kernel prints\<close>

text \<open>
  A line of the process map as proc(5) describes it: numbers in hexadecimal, padded with zeros, the inode in
  decimal, and blanks up to the name, which may be missing.
\<close>

definition digit_char :: "nat \<Rightarrow> char" where
  "digit_char d = char_of (if d < 10 then 48 + d else 87 + d)"

fun numeral_string :: "nat \<Rightarrow> nat \<Rightarrow> string" where
  "numeral_string b n = (if b < 2 \<or> n < b then [digit_char n] else numeral_string b (n div b) @ [digit_char (n mod b)])"

declare numeral_string.simps [simp del]

definition padded :: "nat \<Rightarrow> nat \<Rightarrow> nat \<Rightarrow> string" where
  "padded w b n = replicate (w - length (numeral_string b n)) CHR ''0'' @ numeral_string b n"

definition print_mapline :: "mapline \<Rightarrow> nat \<Rightarrow> string" where
  "print_mapline l pad =
     padded 8 16 (unat (range_begin l)) @ CHR ''-'' # padded 8 16 (unat (range_end l)) @ CHR '' '' #
     bits l @ CHR '' '' # padded 8 16 (unat (f1 l)) @ CHR '' '' #
     padded 2 16 (unat (f2 l)) @ CHR '':'' # padded 2 16 (unat (f3 l)) @ CHR '' '' #
     padded 1 10 (unat (f4 l)) @ CHR '' '' # replicate pad CHR '' '' @ location l @ [CHR 0x0A]"

text \<open>Digits are neither white space nor signs.\<close>

lemma digit_val_digit_char:
  assumes "d < 16"
  shows "digit_val (digit_char d) = d"
proof -
  have "(if d < 10 then 48 + d else 87 + d) < 256" using assms by simp
  then have "of_char (digit_char d) = (if d < 10 then 48 + d else 87 + d)"
    by (simp add: digit_char_def of_char_of)
  then show ?thesis using assms by (simp add: digit_val_def Let_def)
qed

lemma digit_of_char: "digit_val c < 16 \<longleftrightarrow>
    (of_char c :: nat) \<in> {48..57} \<union> {97..102} \<union> {65..70}"
  by (auto simp: digit_val_def Let_def)

lemma is_digit_hex: "is_digit b c \<Longrightarrow> b \<le> 16 \<Longrightarrow> digit_val c < 16"
  by (simp add: is_digit_def)

lemma not_digit [simp]:
  "\<not> is_digit 16 CHR ''-''" "\<not> is_digit 16 CHR '' ''" "\<not> is_digit 16 CHR '':''" "\<not> is_digit 10 CHR '' ''"
  by (simp_all add: is_digit_def digit_val_def)

lemma isspace_chars [simp]: "isspace CHR '' ''" "isspace CHR 0x0A" "\<not> isspace CHR ''-''" "\<not> isspace CHR '':''"
  by (simp_all add: isspace_def)

lemma digit_not_other:
  assumes "is_digit b c" and "b \<le> 16"
  shows "\<not> isspace c" and "c \<noteq> CHR ''-''" and "c \<noteq> CHR ''+''" and "c \<noteq> CHR ''x''" and "c \<noteq> CHR ''X''"
  using is_digit_hex [OF assms] by (auto simp: digit_of_char isspace_def Let_def)

lemma zero_is_digit: "0 < b \<Longrightarrow> is_digit b CHR ''0''"
  by (simp add: is_digit_def digit_val_def)

text \<open>A number that was printed is read back.\<close>

lemma digits_value_append: "digits_value b (ds @ [c]) = digits_value b ds * b + digit_val c"
  by (simp add: digits_value_def)

lemma digits_value_zeros: "digits_value b (replicate k CHR ''0'' @ ds) = digits_value b ds"
proof -
  have "foldl (\<lambda>v c. v * b + digit_val c) 0 (replicate k CHR ''0'') = 0"
    by (induction k) (simp_all add: digit_val_def)
  then show ?thesis by (simp add: digits_value_def)
qed

lemma digits_value_numeral:
  assumes "2 \<le> b" and "b \<le> 16"
  shows "digits_value b (numeral_string b n) = n"
  using assms
proof (induction b n rule: numeral_string.induct)
  case (1 b n)
  show ?case
  proof (cases "n < b")
    case True
    then show ?thesis using 1(2,3)
      by (subst numeral_string.simps) (simp add: digits_value_def digit_val_digit_char)
  next
    case False
    moreover have "n mod b < 16" using 1(2,3) by (intro less_le_trans [OF mod_less_divisor [of b n]]) auto
    ultimately show ?thesis using 1
      by (subst numeral_string.simps) (simp add: digits_value_append digit_val_digit_char)
  qed
qed

lemma numeral_string_digits: "2 \<le> b \<Longrightarrow> b \<le> 16 \<Longrightarrow> c \<in> set (numeral_string b n) \<Longrightarrow> is_digit b c"
proof (induction b n rule: numeral_string.induct)
  case (1 b n)
  have "n mod b < b" using 1(2) by simp
  moreover from this have "n mod b < 16" using 1(3) by simp
  ultimately show ?case using 1
    by (subst (asm) (2) numeral_string.simps) (auto simp: is_digit_def digit_val_digit_char split: if_splits)
qed

lemma padded_facts:
  assumes "2 \<le> b" and "b \<le> 16"
  shows "digits_value b (padded w b n) = n" and "padded w b n \<noteq> []" and "\<forall>c \<in> set (padded w b n). is_digit b c"
proof -
  show "digits_value b (padded w b n) = n"
    by (simp add: padded_def digits_value_zeros digits_value_numeral [OF assms])
  show "padded w b n \<noteq> []" by (subst padded_def, subst numeral_string.simps) simp
  show "\<forall>c \<in> set (padded w b n). is_digit b c"
    using assms numeral_string_digits [OF assms] by (auto simp: padded_def zero_is_digit split: if_splits)
qed

lemma scan_digits:
  assumes ds: "ds \<noteq> []" "\<forall>c \<in> set ds. is_digit b c" and b: "b \<le> 16"
    and c: "\<not> is_digit b c" "c \<noteq> CHR ''x''" "c \<noteq> CHR ''X''"
  shows "scan_number b \<lparr>rest = replicate k CHR '' '' @ ds @ c # r, at_eof = e\<rparr> =
    (Got (False, digits_value b ds), \<lparr>rest = c # r, at_eof = e\<rparr>)"
proof -
  define R where "R = ds @ c # r"
  obtain d ds' where d: "ds = d # ds'" using ds(1) by (meson neq_Nil_conv)
  have nd: "\<not> isspace d" "d \<noteq> CHR ''-''" "d \<noteq> CHR ''+''"
    using ds(2) d digit_not_other [of b d] b by auto
  have "take 2 R \<noteq> ''0x''" "take 2 R \<noteq> ''0X''"
    using ds(2) digit_not_other(4,5) [of b _, OF _ b] c(2,3) unfolding R_def by (cases ds'; force simp: d)+
  moreover have "dropWhile isspace (replicate k CHR '' '' @ R) = R"
    by (induction k) (simp_all add: R_def d nd)
  moreover have "takeWhile (is_digit b) R = ds" "dropWhile (is_digit b) R = c # r"
    using ds(2) c(1) by (simp_all add: R_def takeWhile_append dropWhile_append)
  moreover have "hd R = d" "R \<noteq> []" by (simp_all add: R_def d)
  ultimately show ?thesis
    unfolding R_def [symmetric] using nd ds(1) by (simp add: scan_number_def Let_def skip_while_def del: dropWhile_eq_Nil_conv)
qed

lemma scan_padded_hex:
  assumes "c \<in> {CHR ''-'', CHR '' '', CHR '':''}"
  shows "scan_number 16 \<lparr>rest = padded w 16 n @ c # r, at_eof = e\<rparr> = (Got (False, n), \<lparr>rest = c # r, at_eof = e\<rparr>)"
    and "scan_number 16 \<lparr>rest = CHR '' '' # padded w 16 n @ c # r, at_eof = e\<rparr> = (Got (False, n), \<lparr>rest = c # r, at_eof = e\<rparr>)"
  using scan_digits [OF padded_facts(2,3) [of 16 w n], of c 0] scan_digits [OF padded_facts(2,3) [of 16 w n], of c 1]
    padded_facts(1) [of 16 w n] assms by auto

lemma scan_padded_dec:
  "scan_number 10 \<lparr>rest = padded w 10 n @ CHR '' '' # r, at_eof = e\<rparr> = (Got (False, n), \<lparr>rest = CHR '' '' # r, at_eof = e\<rparr>)"
  using scan_digits [OF padded_facts(2,3) [of 10 w n], of "CHR '' ''" 0] padded_facts(1) [of 10 w n] by simp

subsection \<open>Reading what was printed\<close>

text \<open>
  What the code relies on: the permissions are four characters at most, and a name is one word of at least
  two and at most 255 characters.
\<close>

definition is_word :: "string \<Rightarrow> bool" where
  "is_word w \<longleftrightarrow> w \<noteq> [] \<and> (\<forall>c \<in> set w. \<not> isspace c)"

definition readable :: "mapline \<Rightarrow> bool" where
  "readable l \<longleftrightarrow> is_word (bits l) \<and> length (bits l) < 5 \<and>
     (location l = [] \<or>
      is_word (location l) \<and> hd (location l) \<noteq> CHR 0xFF \<and> 2 \<le> length (location l) \<and> length (location l) < MAPLINE_LOCATION_SIZE)"

lemma scan_word:
  assumes "is_word w" and "isspace c" and "rest f = CHR '' '' # w @ c # r \<or> rest f = w @ c # r"
  shows "scan_string f = (Got w, f\<lparr>rest := c # r\<rparr>)"
proof -
  obtain d w' where d: "w = d # w'" "\<not> isspace d" using assms(1) by (cases w) (auto simp: is_word_def)
  then have "skip_while isspace f = f\<lparr>rest := w @ c # r\<rparr>"
    using assms(3) by (auto simp: skip_while_def)
  moreover have "takeWhile (\<lambda>c. \<not> isspace c) (w @ c # r) = w" "dropWhile (\<lambda>c. \<not> isspace c) (w @ c # r) = c # r"
    using assms(1,2) by (simp_all add: is_word_def takeWhile_append dropWhile_append)
  ultimately show ?thesis by (simp add: scan_string_def d(1) skip_while_def)
qed

lemma skip_blanks:
  assumes "rest f = replicate k CHR '' '' @ c # r" and "\<not> P c" and "P CHR '' ''"
  shows "skip_while P f = f\<lparr>rest := c # r\<rparr>"
proof -
  have "dropWhile P (replicate k CHR '' '' @ c # r) = c # r" using assms(2,3) by (induction k) simp_all
  then show ?thesis using assms(1) by (simp add: skip_while_def)
qed

text \<open>The numbers of a line.\<close>

lemma padded_hd:
  assumes "2 \<le> b" and "b \<le> 16"
  obtains d ds where "padded w b n = d # ds" and "is_digit b d" and "\<not> isspace d"
  using padded_facts(2,3) [OF assms, of w n] digit_not_other(1) [OF _ assms(2)] by (cases "padded w b n") auto

lemma strtoull_of_unat: "strtoull (False, unat w) = w" for w :: "64 word"
  using unat_less_2p64 [of w] by (simp add: strtoull_def)

lemma ucast_down_up: "ucast (ucast w :: 64 word) = w" for w :: "32 word"
  by (rule bit_word_eqI) (simp add: bit_ucast_iff)

lemma strtoull_of_unat32: "ucast (strtoull (False, unat w)) = w" for w :: "32 word"
proof -
  have "unat w < 2 ^ 32" using unsigned_less [of w] by simp
  then show ?thesis by (simp add: strtoull_def unsigned_of_nat take_bit_nat_eq_self ucast_down_up)
qed

lemma strtol_of_unat32: "ucast (strtol (False, unat w)) = w" for w :: "32 word"
proof -
  have "unat w < 2 ^ 32" using unsigned_less [of w] by simp
  then show ?thesis by (simp add: strtol_def unsigned_of_nat take_bit_nat_eq_self ucast_down_up)
qed

lemma fscanf_skip_padded:
  assumes "2 \<le> b" and "b \<le> 16"
  shows "skip_while isspace \<lparr>rest = CHR '' '' # padded w b n @ r, at_eof = e\<rparr> = \<lparr>rest = padded w b n @ r, at_eof = e\<rparr>"
proof -
  obtain d ds where d: "padded w b n = d # ds" "\<not> isspace d" using padded_hd [OF assms] .
  show ?thesis using d by (simp add: skip_while_def)
qed

lemma fscanf_printed:
  assumes "is_word (bits l)" and "length (bits l) < 5"
  shows "fscanf mapline_format [] \<lparr>rest = print_mapline l pad @ tail, at_eof = False\<rparr> =
    Inr (7, [U64 (range_begin l), U64 (range_end l), Chars (bits l), U64 (f1 l), U32 (f2 l), U32 (f3 l), U32 (f4 l)],
      \<lparr>rest = CHR '' '' # replicate pad CHR '' '' @ location l @ CHR 0x0A # tail, at_eof = False\<rparr>)"
proof -
  obtain d w where b: "bits l = d # w" "\<not> isspace d" using assms(1) by (cases "bits l") (auto simp: is_word_def)
  have sp: "skip_while isspace \<lparr>rest = CHR '' '' # bits l @ r, at_eof = False\<rparr> = \<lparr>rest = bits l @ r, at_eof = False\<rparr>" for r
    by (simp add: skip_while_def b)
  have sw: "scan_string \<lparr>rest = bits l @ CHR '' '' # r, at_eof = False\<rparr> = (Got (bits l), \<lparr>rest = CHR '' '' # r, at_eof = False\<rparr>)" for r
    by (subst scan_word [OF assms(1), of "CHR '' ''"]) auto
  show ?thesis
    using assms(2)
    by (simp add: mapline_format_def print_mapline_def scan_padded_hex scan_padded_dec sp sw fscanf_skip_padded
        strtoull_of_unat strtoull_of_unat32 strtol_of_unat32)
qed

lemma fgetc_nonblank_line:
  assumes "c \<noteq> CHR '' ''"
  shows "fgetc_nonblank \<lparr>rest = CHR '' '' # replicate pad CHR '' '' @ c # r, at_eof = False\<rparr> =
    (if c = CHR 0xFF then None else Some c, \<lparr>rest = r, at_eof = False\<rparr>)"
proof -
  have "dropWhile (\<lambda>c. c = CHR '' '') (replicate pad CHR '' '' @ c # r) = c # r"
    using assms by (induction pad) simp_all
  then show ?thesis by (simp add: fgetc_nonblank_def skip_while_def Let_def)
qed

lemma read_name_word:
  assumes "is_word (c # w)" and "w \<noteq> []" and "isspace s" and "c \<noteq> CHR 0xFF"
  shows "read_name m \<lparr>rest = CHR '' '' # replicate pad CHR '' '' @ (c # w) @ s # r, at_eof = False\<rparr> =
    (if length w < MAPLINE_LOCATION_SIZE - 1
     then Inr (Some (m\<lparr>location := c # w\<rparr>), skip_while isspace \<lparr>rest = s # r, at_eof = False\<rparr>)
     else Inl Bad_access)"
proof -
  have c: "c \<noteq> CHR '' ''" "c \<noteq> CHR 0x0A" using assms(1) isspace_chars(1,2) by (auto simp: is_word_def simp del: isspace_chars)
  have w: "is_word w" using assms(1,2) by (simp add: is_word_def)
  have scan: "scan_string \<lparr>rest = w @ s # r, at_eof = False\<rparr> = (Got w, \<lparr>rest = s # r, at_eof = False\<rparr>)"
    by (subst scan_word [OF w assms(3)]) auto
  show ?thesis unfolding read_name_def append_Cons fgetc_nonblank_line [OF c(1)] using c(2) assms(4) scan by simp
qed

lemma read_mapline_printed:
  assumes "is_word (bits l)" and "length (bits l) < 5"
  shows "read_mapline \<lparr>rest = print_mapline l pad @ r, at_eof = False\<rparr> =
    read_name (l\<lparr>location := []\<rparr>) \<lparr>rest = CHR '' '' # replicate pad CHR '' '' @ location l @ CHR 0x0A # r, at_eof = False\<rparr>"
  by (simp add: read_mapline_def fscanf_printed [OF assms] read_location_def) (cases l, simp)

lemma read_mapline_readable:
  assumes "readable l"
  shows "read_mapline \<lparr>rest = print_mapline l pad @ r, at_eof = False\<rparr> =
    Inr (Some l, if location l = [] then \<lparr>rest = r, at_eof = False\<rparr> else skip_while isspace \<lparr>rest = r, at_eof = False\<rparr>)"
proof (cases "location l")
  case Nil
  then show ?thesis using assms fgetc_nonblank_line [of "CHR 0x0A" pad r]
    by (simp add: readable_def read_mapline_printed read_name_def)
next
  case (Cons c w)
  have "skip_while isspace \<lparr>rest = CHR 0x0A # r, at_eof = False\<rparr> = skip_while isspace \<lparr>rest = r, at_eof = False\<rparr>"
    by (simp add: skip_while_def)
  moreover have "l\<lparr>location := c # w\<rparr> = l" using Cons by (cases l) simp
  moreover have "w \<noteq> []" using assms Cons by (auto simp: readable_def)
  ultimately show ?thesis using assms read_name_word [of c w "CHR 0x0A" "l\<lparr>location := []\<rparr>" pad r] Cons
    by (auto simp: readable_def read_mapline_printed)
qed

text \<open>A file made of such lines.\<close>

definition printed :: "(mapline \<times> nat) list \<Rightarrow> string" where
  "printed ls = concat (map (\<lambda>(l, pad). print_mapline l pad) ls)"

lemma printed_append: "printed (ls @ x # ms) = printed ls @ printed (x # ms)"
  and printed_Cons: "printed ((l, pad) # ms) = print_mapline l pad @ printed ms"
  by (simp_all add: printed_def)

definition holds_addr :: "size_t \<Rightarrow> mapline \<times> nat \<Rightarrow> bool" where
  "holds_addr addr = (\<lambda>(l, pad). range_begin l < addr \<and> addr < range_end l)"

lemma printed_starts: "ls \<noteq> [] \<Longrightarrow> \<exists>c r. printed ls = c # r \<and> \<not> isspace c"
proof (cases ls)
  case (Cons x xs)
  obtain d ds where "padded 8 16 (unat (range_begin (fst x))) = d # ds" "\<not> isspace d"
    by (rule padded_hd [of 16 8 "unat (range_begin (fst x))"]) auto
  then show ?thesis by (simp add: Cons printed_def print_mapline_def split_def)
qed simp

definition after_lines :: "(mapline \<times> nat) list \<Rightarrow> string \<Rightarrow> stream" where
  "after_lines ls r = \<lparr>rest = r, at_eof = (r = [] \<and> ls \<noteq> [] \<and> location (fst (last ls)) \<noteq> [])\<rparr>"

lemma search_lines:
  assumes "\<forall>x \<in> set ls. readable (fst x)" and "r = [] \<or> \<not> isspace (hd r)"
  shows "loopE (stack_body addr) \<lparr>rest = printed ls @ r, at_eof = False\<rparr> =
    (case find (holds_addr addr) ls of
       Some (l, pad) \<Rightarrow> Inr \<lparr>low = range_begin l, high = range_end l\<rparr>
     | None \<Rightarrow> loopE (stack_body addr) (after_lines ls r))"
  using assms(1)
proof (induction ls)
  case Nil
  then show ?case by (simp add: printed_def after_lines_def)
next
  case (Cons x xs)
  obtain l pad where x: "x = (l, pad)" by (cases x)
  let ?f = "if location l = [] then \<lparr>rest = printed xs @ r, at_eof = False\<rparr> else skip_while isspace \<lparr>rest = printed xs @ r, at_eof = False\<rparr>"
  have read: "read_mapline \<lparr>rest = printed (x # xs) @ r, at_eof = False\<rparr> = Inr (Some l, ?f)"
    using Cons.prems read_mapline_readable [of l pad "printed xs @ r"] by (simp add: printed_def x)
  have start: "printed xs @ r = [] \<or> \<not> isspace (hd (printed xs @ r))"
    using printed_starts [of xs] assms(2) by (cases "xs = []") (auto simp: printed_def)
  have f: "?f = (if xs = [] then after_lines [x] r else \<lparr>rest = printed xs @ r, at_eof = False\<rparr>)"
  proof (cases "xs = []")
    case True
    then show ?thesis using start
      by (cases r) (auto simp: after_lines_def x skip_while_def printed_def)
  next
    case False
    obtain c s where "printed xs = c # s" "\<not> isspace c" using printed_starts [OF False] by blast
    then show ?thesis using False by (simp add: skip_while_def)
  qed
  have body: "stack_body addr \<lparr>rest = printed (x # xs) @ r, at_eof = False\<rparr> =
      (if holds_addr addr x then Inr (Inr \<lparr>low = range_begin l, high = range_end l\<rparr>) else Inr (Inl ?f))"
    unfolding stack_body_def read by (simp add: x holds_addr_def)
  have after: "after_lines ((l, pad) # xs) r = (if xs = [] then after_lines [(l, pad)] r else after_lines xs r)"
    by (simp add: after_lines_def)
  show ?case unfolding loopE_unfold [of _ "\<lparr>rest = printed (x # xs) @ r, at_eof = False\<rparr>"] body f
    using Cons.IH Cons.prems by (auto simp: after x split: option.splits)
qed

text \<open>
  (C34) Round trip. On a process map as the kernel prints it, whose last line has a name and whose names are single
  words that fit the buffer, \<^verbatim>\<open>threadscan_proc_stack_from_addr\<close> returns the first range that the address lies
  strictly inside of, and the empty range if there is none.
\<close>

theorem stack_from_addr_finds:
  assumes "\<forall>x \<in> set ls. readable (fst x)" and "ls \<noteq> []" and "location (fst (last ls)) \<noteq> []" and "addr > 0"
  shows "threadscan_proc_stack_from_addr dbg (Some (printed ls)) addr =
    Inr (case find (holds_addr addr) ls of
           Some (l, pad) \<Rightarrow> \<lparr>low = range_begin l, high = range_end l\<rparr>
         | None \<Rightarrow> \<lparr>low = 0, high = 0\<rparr>)"
proof -
  have "loopE (stack_body addr) (after_lines ls []) = Inr \<lparr>low = 0, high = 0\<rparr>"
    using assms(2,3) by (subst loopE_unfold) (simp add: stack_body_def read_mapline_def after_lines_def)
  then show ?thesis
    using search_lines [OF assms(1), of "[]" addr] assms(4)
    by (auto simp: threadscan_proc_stack_from_addr_def c_assert_def split: option.split)
qed

definition example_map :: "(mapline \<times> nat) list" where
  "example_map =
     [(\<lparr>range_begin = 0x400000, range_end = 0x401000, bits = ''r-xp'', f1 = 0, f2 = 8, f3 = 1, f4 = 131077, location = ''/bin/a''\<rparr>, 26),
      (\<lparr>range_begin = 0x601000, range_end = 0x622000, bits = ''rw-p'', f1 = 0, f2 = 0, f3 = 0, f4 = 0, location = []\<rparr>, 0),
      (\<lparr>range_begin = 0x7ffc10000000, range_end = 0x7ffc10021000, bits = ''rw-p'', f1 = 0, f2 = 0, f3 = 0, f4 = 0,
        location = ''[stack]''\<rparr>, 26)]"

lemma example_map_readable: "\<forall>x \<in> set example_map. readable (fst x)"
  by (simp add: example_map_def readable_def is_word_def isspace_def MAPLINE_LOCATION_SIZE_def)

theorem stack_from_addr_finds_witness:
  "threadscan_proc_stack_from_addr True (Some (printed example_map)) 0x7ffc10020ff8 =
    Inr \<lparr>low = 0x7ffc10000000, high = 0x7ffc10021000\<rparr>"
  using stack_from_addr_finds [OF example_map_readable, of "0x7ffc10020ff8" True]
  by (simp add: example_map_def holds_addr_def)

text \<open>
  (C40) Error behaviour. If the address is in none of the lines read so far, the process ends (a) when the file ends
  with a line without a name, since the end of the file has not been noticed then, and (b) when the name of a
  line is followed by \<^verbatim>\<open>(deleted)\<close>, which the kernel appends for a file that was removed; and (c) a name
  of ms than 255 characters is written past the end of \<^verbatim>\<open>location\<close>.
\<close>

theorem stack_from_addr_faults:
  assumes "\<forall>x \<in> set ls. readable (fst x) \<and> \<not> holds_addr addr x" and "ls \<noteq> []" and "addr > 0"
    and "readable l" and "location l \<noteq> []" and "\<not> holds_addr addr (l, pad)"
    and "is_word long" and "hd long \<noteq> CHR 0xFF" and "255 < length long"
  shows "(location (fst (last ls)) = [] \<longrightarrow>
      threadscan_proc_stack_from_addr dbg (Some (printed ls)) addr = Inl (Fatal ''threadscan internal error: fscanf returned'')) \<and>
    threadscan_proc_stack_from_addr dbg
      (Some (printed (ls @ (l\<lparr>location := location l @ '' (deleted)''\<rparr>, pad) # ms))) addr =
      Inl (Fatal ''threadscan internal error: fscanf returned'') \<and>
    threadscan_proc_stack_from_addr dbg (Some (printed (ls @ (l\<lparr>location := long\<rparr>, pad) # ms))) addr = Inl Bad_access"
proof -
  have start: "threadscan_proc_stack_from_addr dbg (Some (printed ls @ r)) addr = loopE (stack_body addr) (after_lines ls r)"
    if "r = [] \<or> \<not> isspace (hd r)" for r
  proof -
    have "find (holds_addr addr) ls = None" using assms(1) by (simp add: find_None_iff)
    then show ?thesis using search_lines [of ls r addr] assms(1,3) that
      by (simp add: threadscan_proc_stack_from_addr_def c_assert_def)
  qed
  have line: "threadscan_proc_stack_from_addr dbg (Some (printed (ls @ (l', pad) # ms))) addr =
      loopE (stack_body addr) \<lparr>rest = print_mapline l' pad @ printed ms, at_eof = False\<rparr>" for l'
  proof -
    obtain c r where "printed ((l', pad) # ms) = c # r" "\<not> isspace c" using printed_starts by blast
    then show ?thesis using start [of "printed ((l', pad) # ms)"]
      by (simp add: printed_append after_lines_def) (simp add: printed_Cons)
  qed
  have l: "is_word (bits l)" "length (bits l) < 5" "is_word (location l)" "hd (location l) \<noteq> CHR 0xFF" "2 \<le> length (location l)"
    "length (location l) < MAPLINE_LOCATION_SIZE" "\<not> (range_begin l < addr \<and> addr < range_end l)"
    using assms(4,5,6) by (auto simp: readable_def holds_addr_def)
  have no_number: "scan_number 16 \<lparr>rest = CHR ''('' # r, at_eof = e\<rparr> = (No_match, \<lparr>rest = CHR ''('' # r, at_eof = e\<rparr>)" for r e
    by (simp add: scan_number_def Let_def skip_while_def is_digit_def digit_val_def isspace_def)
  show ?thesis
  proof (intro conjI impI)
    assume "location (fst (last ls)) = []"
    then show "threadscan_proc_stack_from_addr dbg (Some (printed ls)) addr = Inl (Fatal ''threadscan internal error: fscanf returned'')"
      using start [of "[]"] assms(2)
      by simp (subst loopE_unfold,
          simp add: stack_body_def read_mapline_def after_lines_def mapline_format_def scan_number_def skip_while_def
            input_failure_def read_location_def fscanf_returned_def)
  next
    obtain c w where c: "location l = c # w" "w \<noteq> []" using l(5) by (cases "location l") (auto simp: Suc_le_eq)
    have "read_mapline \<lparr>rest = print_mapline (l\<lparr>location := location l @ '' (deleted)''\<rparr>) pad @ printed ms, at_eof = False\<rparr> =
        Inr (Some l, \<lparr>rest = ''(deleted)'' @ CHR 0x0A # printed ms, at_eof = False\<rparr>)"
      using l c read_name_word [of c w "CHR '' ''" "l\<lparr>location := []\<rparr>" pad "''(deleted)'' @ CHR 0x0A # printed ms"]
      by (simp add: read_mapline_printed skip_while_def isspace_def)
    then show "threadscan_proc_stack_from_addr dbg
        (Some (printed (ls @ (l\<lparr>location := location l @ '' (deleted)''\<rparr>, pad) # ms))) addr =
        Inl (Fatal ''threadscan internal error: fscanf returned'')"
      unfolding line using l(7)
      by (subst loopE_unfold, simp add: stack_body_def, subst loopE_unfold)
         (simp add: stack_body_def read_mapline_def mapline_format_def no_number match_failure_def read_location_def fscanf_returned_def)
  next
    obtain c w where c: "long = c # w" "w \<noteq> []" using assms(7,9) by (cases long; cases "tl long") auto
    have "read_mapline \<lparr>rest = print_mapline (l\<lparr>location := long\<rparr>) pad @ printed ms, at_eof = False\<rparr> = Inl Bad_access"
      using l c assms(7-9) read_name_word [of c w "CHR 0x0A" "l\<lparr>location := []\<rparr>" pad "printed ms"]
      by (simp add: read_mapline_printed MAPLINE_LOCATION_SIZE_def)
    then show "threadscan_proc_stack_from_addr dbg (Some (printed (ls @ (l\<lparr>location := long\<rparr>, pad) # ms))) addr = Inl Bad_access"
      unfolding line by (subst loopE_unfold) (simp add: stack_body_def)
  qed
qed

definition library_line :: mapline where
  "library_line = \<lparr>range_begin = 0x7f0000000000, range_end = 0x7f0000001000, bits = ''r-xp'', f1 = 0, f2 = 8, f3 = 1, f4 = 42,
     location = ''/lib/b.so''\<rparr>"

theorem stack_from_addr_faults_witness:
  "threadscan_proc_stack_from_addr True (Some (printed (take 2 example_map))) 0x7ffc10020ff8 =
      Inl (Fatal ''threadscan internal error: fscanf returned'') \<and>
    threadscan_proc_stack_from_addr True
      (Some (printed (take 2 example_map @ (library_line\<lparr>location := location library_line @ '' (deleted)''\<rparr>, 20) # drop 2 example_map)))
      0x7ffc10020ff8 = Inl (Fatal ''threadscan internal error: fscanf returned'') \<and>
    threadscan_proc_stack_from_addr True
      (Some (printed (take 2 example_map @ (library_line\<lparr>location := replicate 256 CHR ''/''\<rparr>, 20) # drop 2 example_map)))
      0x7ffc10020ff8 = Inl Bad_access"
proof -
  have prefix: "\<forall>x \<in> set (take 2 example_map). readable (fst x) \<and> \<not> holds_addr 0x7ffc10020ff8 x"
    using example_map_readable in_set_takeD [of _ 2 example_map]
    by (auto simp: example_map_def holds_addr_def)
  have long: "is_word (replicate 256 CHR ''/'')" "hd (replicate 256 CHR ''/'') \<noteq> CHR 0xFF"
    by (auto simp: is_word_def isspace_def)
  have line: "readable library_line" "location library_line \<noteq> []" "\<not> holds_addr 0x7ffc10020ff8 (library_line, 20)"
    by (simp_all add: library_line_def readable_def is_word_def isspace_def MAPLINE_LOCATION_SIZE_def holds_addr_def)
  have "take 2 example_map \<noteq> []" "location (fst (last (take 2 example_map))) = []" by (simp_all add: example_map_def)
  then show ?thesis using stack_from_addr_faults [OF prefix _ _ line long, of True "drop 2 example_map"] by simp
qed

lemma example_map_stack:
  "threadscan_proc_stack_from_addr dbg (Some (printed example_map)) 0x7ffc10020ff8 =
    Inr \<lparr>low = 0x7ffc10000000, high = 0x7ffc10021000\<rparr>"
  using search_lines [OF example_map_readable, of "[]" "0x7ffc10020ff8"]
  by (simp add: threadscan_proc_stack_from_addr_def c_assert_def example_map_def holds_addr_def)

end
