(* ===== verification/TS_Wrappers.thy ===== *)
theory TS_Wrappers
  imports TS_Procmap
begin

text \<open>
  The wrappers of \<^verbatim>\<open>wrappers.c\<close>: \<^verbatim>\<open>pthread_create\<close>, \<^verbatim>\<open>pthread_exit\<close> and \<^verbatim>\<open>pthread_join\<close> as a program that is
  linked with the library sees them, the replacement of \<^verbatim>\<open>main\<close>, and how the wrappers come to be called: the
  constructor of the module and \<^verbatim>\<open>__libc_start_main\<close>.

  The functions of the pthread library that they call are parameters: what they return is in the
  record \<open>libpthread\<close>; the pointers to them, which a debug build asserts to be set, are in \<open>links\<close>. A pointer to a record that a new thread receives is part of the result of
  \<^verbatim>\<open>pthread_create\<close>.
\<close>

subsection \<open>The surroundings\<close>

text \<open>The part of \<^verbatim>\<open>pthread_attr_t\<close> that matters.\<close>

record thread_attr =
  a_stack :: size_t
  a_stacksize :: size_t

record libpthread =
  attr_init :: "int \<times> thread_attr"
  attr_getstack :: "thread_attr \<Rightarrow> int \<times> size_t \<times> size_t"
  attr_setstack :: "thread_attr \<Rightarrow> size_t \<Rightarrow> size_t \<Rightarrow> int \<times> thread_attr"
  orig_pthread_create :: "thread_attr \<Rightarrow> size_t \<Rightarrow> int \<times> size_t"
  orig_pthread_join :: "size_t \<Rightarrow> int"

record 'o wrap_state =
  g_thread_count :: int
  ps :: "'o proc_state"

subsection \<open>The wrappers\<close>

text \<open>The attributes of the new thread: those of the user or the initial ones.\<close>

definition create_attr :: "libpthread \<Rightarrow> thread_attr option \<Rightarrow> thread_attr res" where
  "create_attr lib attr =
     (case attr of
        None \<Rightarrow>
          if fst (attr_init lib) \<noteq> 0 then Inl (Fatal ''threadscan: could not create thread.'')
          else Inr (snd (attr_init lib))
      | Some a \<Rightarrow> Inr a)"

definition STACKSIZE :: size_t where
  "STACKSIZE = 2 * 1024 * 1024"

text \<open>The stack of the new thread: the user's, or one from the allocator.\<close>

definition create_stack ::
  "bool \<Rightarrow> 'o kernel \<Rightarrow> libpthread \<Rightarrow> size_t \<Rightarrow> thread_attr \<Rightarrow> 'o proc_state \<Rightarrow>
   (size_t \<times> size_t \<times> thread_attr \<times> 'o proc_state) res" where
  "create_stack dbg k lib td real_attr p =
     (let (ret, stack, stacksize) = attr_getstack lib real_attr in
      if ret \<noteq> 0 then Inl (Fatal ''threadscan: unable to get stack attributes.'')
      else if stack = 0 then
        bindE (c_assert dbg (STACKSIZE mod PAGESIZE = 0)) (\<lambda>_.
        bindE (threadscan_alloc_mmap dbg k STACKSIZE (mem p)) (\<lambda>(stack, m).
        let (ret, real_attr) = attr_setstack lib real_attr stack STACKSIZE in
        if ret \<noteq> 0 then Inl (Fatal ''threadscan: unable to set stack attributes.'')
        else
          bindE (upd_td td (\<lambda>t. t\<lparr>stack_is_ours := True\<rparr>) (p\<lparr>mem := m\<rparr>)) (\<lambda>p.
          Inr (stack, STACKSIZE, real_attr, p))))
      else Inr (stack, stacksize, real_attr, p))"

text \<open>
  The result: what the original \<^verbatim>\<open>pthread_create\<close> returned, the new thread's identifier, and the
  record that its \<^verbatim>\<open>threadscan_thread_base\<close> receives.
\<close>

definition pthread_create ::
  "bool \<Rightarrow> 'o kernel \<Rightarrow> libpthread \<Rightarrow> int \<Rightarrow> thread_attr option \<Rightarrow> size_t \<Rightarrow> size_t \<Rightarrow> 'o wrap_state \<Rightarrow>
   ((int \<times> size_t \<times> size_t) \<times> 'o wrap_state) res" where
  "pthread_create dbg k lib ptrs_per_thread attr start_routine arg s =
     (let cnt = g_thread_count s in
      if MAX_THREAD_COUNT < cnt then Inl (Fatal ''Exceeded maximum thread count'')
      else
        bindE (threadscan_util_thread_data_new dbg k ptrs_per_thread (ps s)) (\<lambda>(td, p).
        if td = 0 then Inl (Fatal ''threadscan: Out of memory.'')
        else
          bindE (upd_td td (\<lambda>t. t\<lparr>user_routine := start_routine, user_arg := arg, is_active := False\<rparr>) p) (\<lambda>p.
          bindE (create_attr lib attr) (\<lambda>real_attr.
          bindE (create_stack dbg k lib td real_attr p) (\<lambda>(stack, stacksize, real_attr, p).
          bindE (upd_td td (\<lambda>t. t\<lparr>user_stack_low := stack, user_stack_high := stack + stacksize\<rparr>) p) (\<lambda>p.
          bindE (threadscan_proc_add_thread_data dbg td p) (\<lambda>p.
          let (ret, thread) = orig_pthread_create lib real_attr td in
          bindE (if ret \<noteq> 0 then
                   bindE (td_at (tds p) td) (\<lambda>t.
                   bindE (if stack_is_ours t
                          then bindE (threadscan_alloc_munmap dbg k stack (mem p)) (\<lambda>m. Inr (p\<lparr>mem := m\<rparr>))
                          else Inr p) (\<lambda>p.
                   threadscan_util_thread_data_free dbg k td p))
                 else Inr p) (\<lambda>p.
          Inr ((ret, thread, td), s\<lparr>g_thread_count := cnt + 1, ps := p\<rparr>)))))))))"

text \<open>\<^verbatim>\<open>pthread_exit\<close> of thread \<open>me\<close>, up to the call of the original one, which does not return.\<close>

definition pthread_exit :: "bool \<Rightarrow> size_t \<Rightarrow> 'o wrap_state \<Rightarrow> 'o wrap_state res" where
  "pthread_exit dbg me s =
     bindE (threadscan_thread_cleanup dbg me (ps s)) (\<lambda>p.
     Inr (s\<lparr>ps := p, g_thread_count := g_thread_count s - 1\<rparr>))"

definition pthread_join ::
  "bool \<Rightarrow> 'o kernel \<Rightarrow> libpthread \<Rightarrow> size_t \<Rightarrow> 'o wrap_state \<Rightarrow> (int \<times> 'o wrap_state) res" where
  "pthread_join dbg k lib thread s =
     (let ret = orig_pthread_join lib thread in
      bindE (threadscan_util_thread_data_cleanup dbg k thread (ps s)) (\<lambda>p.
      Inr (ret, s\<lparr>ps := p\<rparr>)))"

text \<open>
  \<^verbatim>\<open>main_replacement\<close> up to the call of \<^verbatim>\<open>main_thunk\<close>: \<open>maps\<close> is the content of the process map, \<open>addr\<close> the
  address of the local variable \<^verbatim>\<open>stack_data\<close>, \<open>sp\<close> and \<open>self_id\<close> the stack pointer and the identifier of
  the main thread. The result is the main thread's record.
\<close>

definition main_replacement ::
  "bool \<Rightarrow> 'o kernel \<Rightarrow> int \<Rightarrow> string option \<Rightarrow> size_t \<Rightarrow> size_t \<Rightarrow> size_t \<Rightarrow> size_t \<Rightarrow> size_t \<Rightarrow> 'o wrap_state \<Rightarrow>
   (size_t \<times> 'o wrap_state) res" where
  "main_replacement dbg k ptrs_per_thread maps addr thunk args_at sp self_id s =
     bindE (threadscan_util_thread_data_new dbg k ptrs_per_thread (ps s)) (\<lambda>(td, p).
     if td = 0 then Inl (Fatal ''threadscan: Out of memory.'')
     else
       bindE (upd_td td (\<lambda>t. t\<lparr>user_routine := thunk, user_arg := args_at\<rparr>) p) (\<lambda>p.
       bindE (threadscan_proc_stack_from_addr dbg maps addr) (\<lambda>stack_data.
       bindE (upd_td td (\<lambda>t. t\<lparr>user_stack_low := low stack_data\<rparr>) p) (\<lambda>p.
       bindE (threadscan_proc_add_thread_data dbg td p) (\<lambda>p.
       bindE (threadscan_thread_base sp self_id td p) (\<lambda>p.
       Inr (td, s\<lparr>ps := p\<rparr>)))))))"

subsection \<open>Start-up\<close>

text \<open>The pointers to the original functions, and to the program's \<^verbatim>\<open>main\<close>.\<close>

record links =
  ptr_pthread_create :: size_t
  ptr_pthread_exit :: size_t
  ptr_pthread_join :: size_t
  ptr_libc_start_main :: size_t
  orig_main :: size_t

record main_args =
  argc :: int
  argv :: size_t
  envp :: size_t

definition do_wrapper_replacement :: "(string \<Rightarrow> size_t) \<Rightarrow> links \<Rightarrow> links" where
  "do_wrapper_replacement dlsym l =
     l\<lparr>ptr_pthread_create := dlsym ''pthread_create'', ptr_pthread_exit := dlsym ''pthread_exit'',
       ptr_pthread_join := dlsym ''pthread_join'', ptr_libc_start_main := dlsym ''__libc_start_main''\<rparr>"

text \<open>\<open>run p args\<close> is what the function at address \<open>p\<close> returns; the result is passed to \<^verbatim>\<open>exit\<close>.\<close>

definition main_thunk :: "(size_t \<Rightarrow> main_args \<Rightarrow> int) \<Rightarrow> links \<Rightarrow> main_args \<Rightarrow> int" where
  "main_thunk run l args = run (orig_main l) args"

text \<open>
  \<open>start p f args\<close> is what the function at address \<open>p\<close> does with the entry point \<open>f\<close>; the entry point
  that it gets is \<^verbatim>\<open>main_replacement\<close>, which depends on where \<^verbatim>\<open>main\<close> has been stored.
\<close>

definition libc_start_main ::
  "(size_t \<Rightarrow> (main_args \<Rightarrow> 'b) \<Rightarrow> main_args \<Rightarrow> 'b) \<Rightarrow> (links \<Rightarrow> main_args \<Rightarrow> 'b) \<Rightarrow> size_t \<Rightarrow> main_args \<Rightarrow>
   links \<Rightarrow> 'b" where
  "libc_start_main start entry main args l =
     (let l = l\<lparr>orig_main := main\<rparr> in start (ptr_libc_start_main l) (entry l) args)"

text \<open>
  The call \<^verbatim>\<open>td->user_routine(td->user_arg)\<close> at the end of \<^verbatim>\<open>threadscan_thread_base\<close>: \<open>code\<close> has the functions and
  \<open>objs\<close> the objects that the two pointers can lead to.
\<close>

definition call_routine :: "(size_t \<rightharpoonup> 'a \<Rightarrow> 'b) \<Rightarrow> (size_t \<rightharpoonup> 'a) \<Rightarrow> thread_data \<Rightarrow> 'b res" where
  "call_routine code objs t =
     (case (code (user_routine t), objs (user_arg t)) of
        (Some f, Some a) \<Rightarrow> Inr (f a)
      | _ \<Rightarrow> Inl Bad_access)"

text \<open>
  The entry point: \<^verbatim>\<open>main_replacement\<close>, at whose end \<^verbatim>\<open>threadscan_thread_base\<close> calls what the record of the main thread
  points to. Here \<open>thunk\<close> and \<open>args_at\<close> are the addresses of \<^verbatim>\<open>main_thunk\<close> and of the local variable \<^verbatim>\<open>main_args\<close>. The
  result is the exit status of the process, with the main thread's record and the state in which \<^verbatim>\<open>main\<close> begins.
\<close>

definition main_entry ::
  "bool \<Rightarrow> 'o kernel \<Rightarrow> int \<Rightarrow> string option \<Rightarrow> size_t \<Rightarrow> size_t \<Rightarrow> size_t \<Rightarrow> size_t \<Rightarrow> size_t \<Rightarrow>
   (size_t \<Rightarrow> main_args \<Rightarrow> int) \<Rightarrow> 'o wrap_state \<Rightarrow> links \<Rightarrow> main_args \<Rightarrow> (int \<times> size_t \<times> 'o wrap_state) res" where
  "main_entry dbg k ptrs_per_thread maps addr thunk args_at sp self_id run s l args =
     bindE (main_replacement dbg k ptrs_per_thread maps addr thunk args_at sp self_id s) (\<lambda>(td, s).
     bindE (td_at (tds (ps s)) td) (\<lambda>t.
     bindE (call_routine [thunk \<mapsto> main_thunk run l] [args_at \<mapsto> args] t) (\<lambda>status.
     Inr (status, td, s))))"

subsection \<open>The record of a new thread\<close>

text \<open>Everything that \<^verbatim>\<open>pthread_create\<close> does before it calls the original function.\<close>

definition create_record ::
  "bool \<Rightarrow> 'o kernel \<Rightarrow> libpthread \<Rightarrow> int \<Rightarrow> thread_attr option \<Rightarrow> size_t \<Rightarrow> size_t \<Rightarrow> 'o proc_state \<Rightarrow>
   (size_t \<times> size_t \<times> thread_attr \<times> 'o proc_state) res" where
  "create_record dbg k lib n attr start_routine arg p =
     bindE (threadscan_util_thread_data_new dbg k n p) (\<lambda>(td, p).
     if td = 0 then Inl (Fatal ''threadscan: Out of memory.'')
     else
       bindE (upd_td td (\<lambda>t. t\<lparr>user_routine := start_routine, user_arg := arg, is_active := False\<rparr>) p) (\<lambda>p.
       bindE (create_attr lib attr) (\<lambda>real_attr.
       bindE (create_stack dbg k lib td real_attr p) (\<lambda>(stack, stacksize, real_attr, p).
       bindE (upd_td td (\<lambda>t. t\<lparr>user_stack_low := stack, user_stack_high := stack + stacksize\<rparr>) p) (\<lambda>p.
       bindE (threadscan_proc_add_thread_data dbg td p) (\<lambda>p. Inr (td, stack, real_attr, p)))))))"

lemma bindE_if: "bindE (if b then m else m') f = (if b then bindE m f else bindE m' f)"
  by simp

lemma bindE_split: "bindE (case x of (a, b) \<Rightarrow> f a b) g = (case x of (a, b) \<Rightarrow> bindE (f a b) g)"
  by (cases x) simp

text \<open>The call of the original \<^verbatim>\<open>pthread_create\<close> and what follows it.\<close>

definition launch ::
  "bool \<Rightarrow> 'o kernel \<Rightarrow> libpthread \<Rightarrow> 'o wrap_state \<Rightarrow> size_t \<times> size_t \<times> thread_attr \<times> 'o proc_state \<Rightarrow>
   ((int \<times> size_t \<times> size_t) \<times> 'o wrap_state) res" where
  "launch dbg k lib s = (\<lambda>(td, stack, real_attr, p).
     let (ret, thread) = orig_pthread_create lib real_attr td in
     bindE (if ret \<noteq> 0 then
              bindE (td_at (tds p) td) (\<lambda>t.
              bindE (if stack_is_ours t
                     then bindE (threadscan_alloc_munmap dbg k stack (mem p)) (\<lambda>m. Inr (p\<lparr>mem := m\<rparr>))
                     else Inr p) (\<lambda>p.
              threadscan_util_thread_data_free dbg k td p))
            else Inr p) (\<lambda>p.
     Inr ((ret, thread, td), s\<lparr>g_thread_count := g_thread_count s + 1, ps := p\<rparr>)))"

lemma pthread_create_stages:
  assumes "g_thread_count s \<le> MAX_THREAD_COUNT"
  shows "pthread_create dbg k lib n attr start_routine arg s =
    bindE (create_record dbg k lib n attr start_routine arg (ps s)) (launch dbg k lib s)"
  using assms unfolding pthread_create_def create_record_def launch_def Let_def bindE_split bindE_assoc
  by (auto simp: bindE_if bindE_split bindE_assoc intro!: arg_cong [where f = "bindE m" for m] ext)

text \<open>
  What is assumed of the pthread library: initial attributes and the stack of given attributes can be
  read, and a stack can be set; \<open>real\<close> are the attributes before, \<open>stack\<close> the stack they name.
\<close>

definition attr_works :: "libpthread \<Rightarrow> thread_attr option \<Rightarrow> thread_attr \<Rightarrow> size_t \<Rightarrow> size_t \<Rightarrow> bool" where
  "attr_works lib attr real stack sz \<longleftrightarrow>
     create_attr lib attr = Inr real \<and> attr_getstack lib real = (0, stack, sz) \<and>
     (stack = 0 \<longrightarrow> (\<forall>st. fst (attr_setstack lib real st STACKSIZE) = 0))"

text \<open>The records of all threads are blocks of the allocator.\<close>

definition records_owned :: "size_t list \<Rightarrow> size_t list \<Rightarrow> (size_t \<times> size_t) set \<Rightarrow> bool" where
  "records_owned ls ss D \<longleftrightarrow> (\<lambda>td. (td, MEMBLOCK_SIZE)) ` (set ls \<union> set ss) \<subseteq> D"

lemma STACKSIZE_ok: "STACKSIZE \<noteq> 0" "STACKSIZE mod PAGESIZE = 0"
  by (simp_all add: STACKSIZE_def PAGESIZE_def)

lemma apart_neq: "apart (p, n) (q, m) \<Longrightarrow> n \<noteq> 0 \<Longrightarrow> m \<noteq> 0 \<Longrightarrow> p \<noteq> q"
  by (auto simp: apart_def before_def unat_eq_zero)

text \<open>The block of memory and size of the stack that the new thread gets.\<close>

lemma create_stack_correct:
  assumes w: "attr_works lib attr real stack0 sz0" and td: "tds p td = Some t" "\<not> stack_is_ours t"
    and m: "alloc_ready k (mem p) D"
  shows "okay (mmap_fails k) (create_stack dbg k lib td real p) (\<lambda>(stack, sz, ra, p').
    p' = p\<lparr>mem := mem p', tds := (tds p)(td \<mapsto> t\<lparr>stack_is_ours := (stack0 = 0)\<rparr>)\<rparr> \<and>
    (if stack0 = 0 then sz = STACKSIZE \<and> (\<forall>r \<in> D. apart r (stack, STACKSIZE)) \<and>
       alloc_ready k (mem p') (insert (stack, STACKSIZE) D)
     else stack = stack0 \<and> sz = sz0 \<and> alloc_ready k (mem p') D))"
proof (cases "stack0 = 0")
  case True
  have gs: "attr_getstack lib real = (0, 0, sz0)" "\<And>st. fst (attr_setstack lib real st STACKSIZE) = 0"
    using w True by (auto simp: attr_works_def)
  show ?thesis
    unfolding create_stack_def gs(1)
    by (simp add: True c_assert_def STACKSIZE_ok,
        rule okay_bindE [OF pages.alloc_okay [OF m STACKSIZE_ok]])
       (use td gs(2) in \<open>auto simp: split_def\<close>)
next
  case False
  then have "create_stack dbg k lib td real p = Inr (stack0, sz0, real, p)"
    using w by (simp add: attr_works_def create_stack_def)
  moreover have "t\<lparr>stack_is_ours := False\<rparr> = t" using td(2) by simp
  ultimately show ?thesis using False m td(1) by (simp add: fun_upd_idem)
qed

text \<open>The new record \<open>t\<close> at \<open>td\<close>: what it holds and which blocks belong to it.\<close>

definition new_thread :: "int \<Rightarrow> size_t \<Rightarrow> size_t \<Rightarrow> size_t \<Rightarrow> bool \<Rightarrow> size_t \<Rightarrow> thread_data \<Rightarrow> (size_t \<times> size_t) set \<Rightarrow> bool" where
  "new_thread n start_routine arg stack ours td t D \<longleftrightarrow>
     td \<noteq> 0 \<and> user_routine t = start_routine \<and> user_arg t = arg \<and> user_stack_low t = stack \<and> stack_is_ours t = ours \<and>
     ref_count t = 1 \<and> \<not> is_active t \<and> local_timestamp t = 0 \<and>
     q_ok (ptr_list t) \<and> q_list (ptr_list t) = [] \<and> capacity (ptr_list t) = of_int n \<and> idx_head (ptr_list t) = 0 \<and>
     distinct (map fst (td_blocks (of_int n * 8) STACKSIZE td t)) \<and>
     (\<forall>r \<in> D. \<forall>b \<in> set (td_blocks (of_int n * 8) STACKSIZE td t). apart r b)"

definition record_made :: "'o kernel \<Rightarrow> int \<Rightarrow> size_t \<Rightarrow> size_t \<Rightarrow> bool \<Rightarrow> size_t list \<Rightarrow> size_t list \<Rightarrow> (size_t \<times> size_t) set \<Rightarrow>
    tdheap \<Rightarrow> size_t \<times> size_t \<times> thread_attr \<times> 'o proc_state \<Rightarrow> bool" where
  "record_made k n start_routine arg ours ls ss D h = (\<lambda>(td, stack, ra, p').
     \<exists>t. lists p' (td # ls) ss \<and> td \<notin> set ls \<union> set ss \<and> tds p' = h(td \<mapsto> t) \<and>
       new_thread n start_routine arg stack ours td t D \<and>
       alloc_ready k (mem p') (set (td_blocks (of_int n * 8) STACKSIZE td t) \<union> D))"

lemma create_record_correct:
  fixes p :: "'o proc_state"
  assumes l: "lists p ls ss" and o: "records_owned ls ss D" and m: "alloc_ready k (mem p) D" and n: "ptrs_ok n"
    and w: "attr_works lib attr real stack0 sz0"
  shows "okay (mmap_fails k) (create_record dbg k lib n attr start_routine arg p) (record_made k n start_routine arg (stack0 = 0) ls ss D (tds p))"
  unfolding create_record_def
proof (rule okay_bindE [OF thread_data_new_correct [OF m n]], clarify del: mod_0_imp_dvd)
  fix td e and p1 :: "'o proc_state"
  assume 1: "tds p1 = (tds p)(td \<mapsto> fresh_td n e)" "thread_list_head p1 = thread_list_head p"
    "td_staged_to_free p1 = td_staged_to_free p" "td \<noteq> 0" "e \<noteq> td"
    "\<forall>r \<in> D. apart r (td, MEMBLOCK_SIZE) \<and> apart r (e, of_int n * 8)"
    "alloc_ready k (mem p1) ({(e, of_int n * 8), (td, MEMBLOCK_SIZE)} \<union> D)"
  let ?D1 = "{(e, of_int n * 8), (td, MEMBLOCK_SIZE)} \<union> D"
  have msz: "MEMBLOCK_SIZE \<noteq> 0" "(of_int n * 8 :: size_t) \<noteq> 0"
    using ptrs_ok_buffer [OF n] by (simp_all add: MEMBLOCK_SIZE_def PAGESIZE_def)
  have new: "td \<notin> set ls" "td \<notin> set ss"
    using o 1(6) apart_neq [of td MEMBLOCK_SIZE td MEMBLOCK_SIZE] msz(1) by (auto simp: records_owned_def)
  define t1 where "t1 = (fresh_td n e)\<lparr>user_routine := start_routine, user_arg := arg, is_active := False\<rparr>"
  define p2 where "p2 = p1\<lparr>tds := (tds p)(td \<mapsto> t1)\<rparr>"
  have p2: "upd_td td (\<lambda>t. t\<lparr>user_routine := start_routine, user_arg := arg, is_active := False\<rparr>) p1 = Inr p2"
    "tds p2 td = Some t1" "mem p2 = mem p1" "\<not> stack_is_ours t1"
    by (simp_all add: 1(1) p2_def t1_def fresh_td_def zero_td_def)
  have real: "create_attr lib attr = Inr real" using w by (simp add: attr_works_def)
  have "okay (mmap_fails k)
    (bindE (create_stack dbg k lib td real p2) (\<lambda>(stack, stacksize, real_attr, p).
       bindE (upd_td td (\<lambda>t. t\<lparr>user_stack_low := stack, user_stack_high := stack + stacksize\<rparr>) p) (\<lambda>p.
       bindE (threadscan_proc_add_thread_data dbg td p) (\<lambda>p. Inr (td, stack, real_attr, p)))))
    (record_made k n start_routine arg (stack0 = 0) ls ss D (tds p))"
  proof (rule okay_bindE [OF create_stack_correct [OF w p2(2,4) 1(7) [folded p2(3)]]], clarify del: mod_0_imp_dvd)
    fix stack sz ra and p3 :: "'o proc_state"
    assume 3: "p3 = p2\<lparr>mem := mem p3, tds := (tds p2)(td \<mapsto> t1\<lparr>stack_is_ours := (stack0 = 0)\<rparr>)\<rparr>"
      "if stack0 = 0 then sz = STACKSIZE \<and> (\<forall>r \<in> ?D1. apart r (stack, STACKSIZE)) \<and>
         alloc_ready k (mem p3) (insert (stack, STACKSIZE) ?D1)
       else stack = stack0 \<and> sz = sz0 \<and> alloc_ready k (mem p3) ?D1"
    define t4 where "t4 = t1\<lparr>stack_is_ours := (stack0 = 0), user_stack_low := stack, user_stack_high := stack + sz\<rparr>"
    define p4 where "p4 = p3\<lparr>tds := (tds p)(td \<mapsto> t4)\<rparr>"
    have t3: "tds p3 = (tds p)(td \<mapsto> t1\<lparr>stack_is_ours := (stack0 = 0)\<rparr>)"
      by (subst 3(1)) (simp add: p2_def)
    have heads: "thread_list_head p4 = thread_list_head p" "td_staged_to_free p4 = td_staged_to_free p"
      unfolding p4_def by (subst 3(1), simp add: p2_def 1(2,3))+
    have p4: "upd_td td (\<lambda>t. t\<lparr>user_stack_low := stack, user_stack_high := stack + sz\<rparr>) p3 = Inr p4"
      by (simp add: t3 p4_def t4_def)
    have "lists p4 ls ss" by (rule lists_cong [OF l]) (use new heads in \<open>auto simp: p4_def\<close>)
    then obtain p5 where p5: "threadscan_util_thread_list_add dbg td p4 = Inr p5" "lists p5 (td # ls) ss"
      "tds p5 = (tds p4)(td \<mapsto> t4\<lparr>td_next := thread_list_head p4\<rparr>)" "mem p5 = mem p4"
      by (rule list_add_correct [OF _ new 1(4)]) (auto simp: p4_def)
    define t5 where "t5 = t4\<lparr>td_next := thread_list_head p4\<rparr>"
    have blk: "td_blocks (of_int n * 8) STACKSIZE td t5 =
        (if stack0 = 0 then [(stack, STACKSIZE)] else []) @ [(e, of_int n * 8), (td, MEMBLOCK_SIZE)]"
      by (simp add: td_blocks_def t5_def t4_def t1_def fresh_td_def)
    have "new_thread n start_routine arg stack (stack0 = 0) td t5 D"
    proof -
      have "stack \<noteq> e" "stack \<noteq> td" if "stack0 = 0"
        using 3(2) that apart_neq [of e "of_int n * 8" stack STACKSIZE] apart_neq [of td MEMBLOCK_SIZE stack STACKSIZE]
          msz STACKSIZE_ok(1) by auto
      then have "distinct (map fst (td_blocks (of_int n * 8) STACKSIZE td t5))" using 1(5) by (auto simp: blk)
      moreover have "\<forall>r \<in> D. \<forall>b \<in> set (td_blocks (of_int n * 8) STACKSIZE td t5). apart r b"
        using 1(6) 3(2) by (auto simp: blk split: if_splits)
      moreover have "q_ok (ptr_list t5)" "q_list (ptr_list t5) = []" "capacity (ptr_list t5) = of_int n" "idx_head (ptr_list t5) = 0"
        using fresh_td_queue [OF n, of e] by (simp_all add: t5_def t4_def t1_def)
      ultimately show ?thesis using 1(4) by (simp add: new_thread_def) (simp add: t5_def t4_def t1_def fresh_td_def zero_td_def)
    qed
    moreover have "alloc_ready k (mem p5) (set (td_blocks (of_int n * 8) STACKSIZE td t5) \<union> D)"
      using 3(2) by (simp add: blk p5(4) p4_def insert_commute split: if_splits)
    moreover have "tds p5 = (tds p)(td \<mapsto> t5)" by (simp add: p5(3) p4_def t5_def)
    ultimately show "okay (mmap_fails k)
        (bindE (upd_td td (\<lambda>t. t\<lparr>user_stack_low := stack, user_stack_high := stack + sz\<rparr>) p3) (\<lambda>p.
         bindE (threadscan_proc_add_thread_data dbg td p) (\<lambda>p. Inr (td, stack, ra, p))))
      (record_made k n start_routine arg (stack0 = 0) ls ss D (tds p))"
      using new p5(1,2) unfolding p4 by (auto simp: threadscan_proc_add_thread_data_def record_made_def)
  qed
  then show "okay (mmap_fails k)
    (if td = 0 then Inl (Fatal ''threadscan: Out of memory.'')
     else bindE (upd_td td (\<lambda>t. t\<lparr>user_routine := start_routine, user_arg := arg, is_active := False\<rparr>) p1) (\<lambda>p.
       bindE (create_attr lib attr) (\<lambda>real_attr.
       bindE (create_stack dbg k lib td real_attr p) (\<lambda>(stack, stacksize, real_attr, p).
       bindE (upd_td td (\<lambda>t. t\<lparr>user_stack_low := stack, user_stack_high := stack + stacksize\<rparr>) p) (\<lambda>p.
       bindE (threadscan_proc_add_thread_data dbg td p) (\<lambda>p. Inr (td, stack, real_attr, p)))))))
    (record_made k n start_routine arg (stack0 = 0) ls ss D (tds p))"
    using 1(4) by (simp add: p2(1) real)
qed

text \<open>What \<^verbatim>\<open>pthread_create\<close> does when the original one succeeds.\<close>

lemma pthread_create_correct:
  assumes "lists (ps s) ls ss" and "records_owned ls ss D" and "alloc_ready k (mem (ps s)) D" and "ptrs_ok n"
    and "attr_works lib attr real stack0 sz0"
    and "g_thread_count s \<le> MAX_THREAD_COUNT" and "\<forall>ra td. fst (orig_pthread_create lib ra td) = 0"
  shows "okay (mmap_fails k) (pthread_create dbg k lib n attr start_routine arg s) (\<lambda>((ret, thread, td), s').
    ret = 0 \<and> g_thread_count s' = g_thread_count s + 1 \<and>
    (\<exists>t stack. lists (ps s') (td # ls) ss \<and> td \<notin> set ls \<union> set ss \<and> tds (ps s') = (tds (ps s))(td \<mapsto> t) \<and>
       new_thread n start_routine arg stack (stack0 = 0) td t D \<and>
       alloc_ready k (mem (ps s')) (set (td_blocks (of_int n * 8) STACKSIZE td t) \<union> D)))"
  unfolding pthread_create_stages [OF assms(6)]
proof (rule okay_bindE [OF create_record_correct [OF assms(1-5)]], clarify del: mod_0_imp_dvd)
  fix td stack ra p'
  assume "record_made k n start_routine arg (stack0 = 0) ls ss D (tds (ps s)) (td, stack, ra, p')"
  moreover obtain thread where "orig_pthread_create lib ra td = (0, thread)"
    using assms(7) by (metis prod.collapse)
  ultimately show "okay (mmap_fails k) (launch dbg k lib s (td, stack, ra, p'))
    (\<lambda>((ret, thread, td), s'). ret = 0 \<and> g_thread_count s' = g_thread_count s + 1 \<and>
      (\<exists>t stack. lists (ps s') (td # ls) ss \<and> td \<notin> set ls \<union> set ss \<and> tds (ps s') = (tds (ps s))(td \<mapsto> t) \<and>
         new_thread n start_routine arg stack (stack0 = 0) td t D \<and>
         alloc_ready k (mem (ps s')) (set (td_blocks (of_int n * 8) STACKSIZE td t) \<union> D)))"
    by (auto simp: launch_def record_made_def)
qed

subsection \<open>Properties\<close>

text \<open>
  Creating a thread. When the pthread library does its part, \<^verbatim>\<open>pthread_create\<close> puts a new record in
  front of the list of threads, with an empty queue, a reference count of one and the stack of the user
  or a new one; its blocks are apart from everything the library owned. The thread count goes up by
  one, and also a count of \<^verbatim>\<open>MAX_THREAD_COUNT\<close> is let through.
\<close>

theorem pthread_create_registers:
  assumes "lists (ps s) ls ss" and "records_owned ls ss D" and "alloc_ready k (mem (ps s)) D"
    and "n = fst (env_init val)" and "attr_works lib attr real stack0 sz0"
    and "g_thread_count s \<le> MAX_THREAD_COUNT" and "\<forall>ra td. fst (orig_pthread_create lib ra td) = 0"
  shows "okay (mmap_fails k) (pthread_create dbg k lib n attr start_routine arg s) (\<lambda>((ret, thread, td), s').
    ret = 0 \<and> g_thread_count s' = g_thread_count s + 1 \<and>
    (\<exists>t stack. lists (ps s') (td # ls) ss \<and> td \<notin> set ls \<union> set ss \<and> tds (ps s') = (tds (ps s))(td \<mapsto> t) \<and>
       new_thread n start_routine arg stack (stack0 = 0) td t D \<and>
       alloc_ready k (mem (ps s')) (set (td_blocks (of_int n * 8) STACKSIZE td t) \<union> D)))"
  using assms(4) by (intro pthread_create_correct [OF assms(1-3) _ assms(5-7)]) (simp add: ptrs_ok_env_init)

text \<open>A library that does its part: identifiers are the addresses of the records.\<close>

definition simple_lib :: libpthread where
  "simple_lib = \<lparr>attr_init = (0, \<lparr>a_stack = 0, a_stacksize = 0\<rparr>), attr_getstack = (\<lambda>a. (0, a_stack a, a_stacksize a)),
     attr_setstack = (\<lambda>a st sz. (0, \<lparr>a_stack = st, a_stacksize = sz\<rparr>)), orig_pthread_create = (\<lambda>a td. (0, td)),
     orig_pthread_join = (\<lambda>_. 0)\<rparr>"

definition example_wrap :: "simple_os wrap_state" where
  "example_wrap = \<lparr>g_thread_count = 1, ps = example_proc\<rparr>"

lemma simple_lib_works: "attr_works simple_lib None \<lparr>a_stack = 0, a_stacksize = 0\<rparr> 0 0"
  by (simp add: attr_works_def create_attr_def simple_lib_def)

lemma example_wrap_facts: "lists (ps example_wrap) [0x5000] []" "records_owned [0x5000] [] {(0x5000, 4096), (0x6000, 8192)}"
  "alloc_ready simple_kernel (mem (ps example_wrap)) {(0x5000, 4096), (0x6000, 8192)}"
  using example_proc_lists example_proc_ready
  by (simp_all add: example_wrap_def records_owned_def MEMBLOCK_SIZE_def PAGESIZE_def)

theorem pthread_create_registers_witness:
  "okay (mmap_fails simple_kernel)
    (pthread_create True simple_kernel simple_lib (fst (env_init None)) None 0x400000 7 example_wrap)
    (\<lambda>((ret, thread, td), s'). ret = 0 \<and> g_thread_count s' = g_thread_count example_wrap + 1 \<and>
      (\<exists>t stack. lists (ps s') (td # [0x5000]) [] \<and> td \<notin> set [0x5000] \<union> set [] \<and>
         tds (ps s') = (tds (ps example_wrap))(td \<mapsto> t) \<and>
         new_thread (fst (env_init None)) 0x400000 7 stack (0 = (0 :: size_t)) td t {(0x5000, 4096), (0x6000, 8192)} \<and>
         alloc_ready simple_kernel (mem (ps s'))
           (set (td_blocks (of_int (fst (env_init None)) * 8) STACKSIZE td t) \<union> {(0x5000, 4096), (0x6000, 8192)})))"
  by (rule pthread_create_registers [OF example_wrap_facts refl simple_lib_works])
     (simp_all add: example_wrap_def MAX_THREAD_COUNT_def simple_lib_def)

text \<open>Start, exit and join of a thread whose record \<open>t\<close> is at the head of the list.\<close>

lemma run_thread:
  assumes l: "lists p (td # ls) ss" and t: "tds p td = Some t" "ref_count t = 1"
    and m: "alloc_ready k (mem p) D" "set (td_blocks bsz ssz td t) \<subseteq> D" "distinct (map fst (td_blocks bsz ssz td t))"
  shows "returns (bindE (threadscan_thread_base sp thread td p) (\<lambda>p.
      bindE (pthread_exit dbg td (s\<lparr>ps := p\<rparr>)) (pthread_join dbg k lib thread)))
    (\<lambda>(ret, s'). lists (ps s') ls ss \<and> g_thread_count s' = g_thread_count s - 1 \<and>
      alloc_ready k (mem (ps s')) (D - set (td_blocks bsz ssz td t)))"
proof -
  define t1 where "t1 = t\<lparr>user_stack_high := sp - (sp AND (PAGESIZE - 1)), local_timestamp := 0, self := thread, is_active := True\<rparr>"
  define p1 where "p1 = p\<lparr>tds := (tds p)(td \<mapsto> t1)\<rparr>"
  have base: "threadscan_thread_base sp thread td p = Inr p1"
    using t(1) by (simp add: threadscan_thread_base_def Let_def p1_def t1_def)
  have "lists p1 (td # ls) ss" by (rule lists_cong [OF l]) (use t(1) in \<open>auto simp: p1_def t1_def nxt_def\<close>)
  moreover have "tds p1 td = Some t1" "ref_count t1 = 1" using t(2) by (simp_all add: p1_def t1_def)
  ultimately obtain p2 t2 where p2: "threadscan_thread_cleanup dbg td p1 = Inr p2" "lists p2 ls (td # ss)"
    "tds p2 td = Some t2" "t2 = t1\<lparr>is_active := False, ref_count := 0, td_next := td_next t2\<rparr>" "mem p2 = mem p1"
    using thread_cleanup_correct [of p1 "td # ls" ss td t1 dbg] by (metis list.set_intros(1) remove1.simps(2))
  have t2: "self t2 = thread" "ref_count t2 = 0" "td_blocks bsz ssz td t2 = td_blocks bsz ssz td t"
    by (subst p2(4), simp add: t1_def td_blocks_def)+
  have exit: "pthread_exit dbg td (s\<lparr>ps := p1\<rparr>) = Inr (s\<lparr>ps := p2, g_thread_count := g_thread_count s - 1\<rparr>)"
    by (simp add: pthread_exit_def p2(1))
  have "returns (threadscan_util_thread_data_cleanup dbg k thread p2) (\<lambda>p'. lists p' ls ([] @ ss) \<and> tds p' td = None \<and>
      alloc_ready k (mem p') (D - set (td_blocks bsz ssz td t2)))"
    by (rule thread_data_cleanup_correct) (use p2(2,3,5) t2 m in \<open>auto simp: p1_def\<close>)
  then show ?thesis unfolding base by (auto simp: exit pthread_join_def t2(3) elim!: returnsE)
qed

text \<open>
  (C33) The life of a thread. Creation, start, exit and join of a thread, with no other exit or join of
  the same identifier in between, return everything: the two lists of threads, the thread count and
  the memory of the library are what they were.
\<close>

theorem thread_life_cycle:
  assumes "lists (ps s) ls ss" and "records_owned ls ss D" and "alloc_ready k (mem (ps s)) D"
    and "n = fst (env_init val)" and "attr_works lib attr real stack0 sz0"
    and "g_thread_count s \<le> MAX_THREAD_COUNT" and "\<forall>ra td. fst (orig_pthread_create lib ra td) = 0"
  shows "okay (mmap_fails k)
    (bindE (pthread_create dbg k lib n attr start_routine arg s) (\<lambda>((ret, thread, td), s).
     bindE (threadscan_thread_base sp thread td (ps s)) (\<lambda>p.
     bindE (pthread_exit dbg td (s\<lparr>ps := p\<rparr>)) (pthread_join dbg k lib thread))))
    (\<lambda>(ret, s'). lists (ps s') ls ss \<and> g_thread_count s' = g_thread_count s \<and> alloc_ready k (mem (ps s')) D)"
proof -
  have n: "ptrs_ok n" by (simp add: assms(4) ptrs_ok_env_init)
  let ?rest = "\<lambda>((ret, thread, td), s).
     bindE (threadscan_thread_base sp thread td (ps s)) (\<lambda>p.
     bindE (pthread_exit dbg td (s\<lparr>ps := p\<rparr>)) (pthread_join dbg k lib thread))"
  show ?thesis unfolding pthread_create_stages [OF assms(6)] bindE_assoc
  proof (rule okay_bindE [OF create_record_correct [OF assms(1-3) n assms(5)]], clarify del: mod_0_imp_dvd)
    fix td stack ra p'
    assume "record_made k n start_routine arg (stack0 = 0) ls ss D (tds (ps s)) (td, stack, ra, p')"
    then obtain t where r: "lists p' (td # ls) ss" "tds p' td = Some t"
      "new_thread n start_routine arg stack (stack0 = 0) td t D"
      "alloc_ready k (mem p') (set (td_blocks (of_int n * 8) STACKSIZE td t) \<union> D)" by (auto simp: record_made_def)
    obtain thread where orig: "orig_pthread_create lib ra td = (0, thread)" using assms(7) by (metis prod.collapse)
    have blk: "(set (td_blocks (of_int n * 8) STACKSIZE td t) \<union> D) - set (td_blocks (of_int n * 8) STACKSIZE td t) = D"
    proof -
      have nz: "snd b \<noteq> 0" if "b \<in> set (td_blocks (of_int n * 8) STACKSIZE td t)" for b
        using that ptrs_ok_buffer(2) [OF n] STACKSIZE_ok(1)
        by (auto simp: td_blocks_def MEMBLOCK_SIZE_def PAGESIZE_def split: if_splits)
      have "b \<notin> D" if "b \<in> set (td_blocks (of_int n * 8) STACKSIZE td t)" for b
        using r(3) that nz [OF that] apart_neq [of "fst b" "snd b" "fst b" "snd b"] by (auto simp: new_thread_def)
      then show ?thesis by auto
    qed
    have "returns (?rest ((0, thread, td), s\<lparr>g_thread_count := g_thread_count s + 1, ps := p'\<rparr>))
      (\<lambda>(ret, s'). lists (ps s') ls ss \<and> g_thread_count s' = g_thread_count s + 1 - 1 \<and> alloc_ready k (mem (ps s')) D)"
      using run_thread [OF r(1,2) _ r(4), of "of_int n * 8" STACKSIZE sp thread dbg
          "s\<lparr>g_thread_count := g_thread_count s + 1, ps := p'\<rparr>" lib] r(3) unfolding blk
      by (simp add: new_thread_def)
    from okayI [OF this]
    show "okay (mmap_fails k) (bindE (launch dbg k lib s (td, stack, ra, p')) ?rest)
      (\<lambda>(ret, s'). lists (ps s') ls ss \<and> g_thread_count s' = g_thread_count s \<and> alloc_ready k (mem (ps s')) D)"
      by (simp add: launch_def orig)
  qed
qed

theorem thread_life_cycle_witness:
  "okay (mmap_fails simple_kernel)
    (bindE (pthread_create True simple_kernel simple_lib (fst (env_init None)) None 0x400000 7 example_wrap) (\<lambda>((ret, thread, td), s).
     bindE (threadscan_thread_base 0x20ff8 thread td (ps s)) (\<lambda>p.
     bindE (pthread_exit True td (s\<lparr>ps := p\<rparr>)) (pthread_join True simple_kernel simple_lib thread))))
    (\<lambda>(ret, s'). lists (ps s') [0x5000] [] \<and> g_thread_count s' = g_thread_count example_wrap \<and>
       alloc_ready simple_kernel (mem (ps s')) {(0x5000, 4096), (0x6000, 8192)})"
  by (rule thread_life_cycle [OF example_wrap_facts refl simple_lib_works])
     (simp_all add: example_wrap_def MAX_THREAD_COUNT_def simple_lib_def)

text \<open>
  (C37) A failed creation. When the original \<^verbatim>\<open>pthread_create\<close> fails, a release build frees the new record
  while it is still the head of the list of threads: the next walk over the list, such as that of the
  next reclaimer, reads freed memory.
\<close>

theorem create_failure_dangles:
  assumes "lists (ps s) ls ss" and "records_owned ls ss D" and "alloc_ready k (mem (ps s)) D"
    and "n = fst (env_init val)" and "attr_works lib attr real stack0 sz0"
    and "g_thread_count s \<le> MAX_THREAD_COUNT" and "\<forall>ra td. fst (orig_pthread_create lib ra td) \<noteq> 0"
  shows "okay (mmap_fails k) (pthread_create False k lib n attr start_routine arg s) (\<lambda>((ret, thread, td), s').
    ret \<noteq> 0 \<and> g_thread_count s' = g_thread_count s + 1 \<and> thread_list_head (ps s') = td \<and> tds (ps s') td = None \<and>
    threadscan_proc_signal_all_except pthread_kill me (ps s') = Inl Bad_access)"
proof -
  have n: "ptrs_ok n" by (simp add: assms(4) ptrs_ok_env_init)
  show ?thesis unfolding pthread_create_stages [OF assms(6)]
  proof (rule okay_bindE [OF create_record_correct [OF assms(1-3) n assms(5)]], clarify del: mod_0_imp_dvd)
    fix td stack ra and p' :: "'a proc_state"
    assume "record_made k n start_routine arg (stack0 = 0) ls ss D (tds (ps s)) (td, stack, ra, p')"
    then obtain t where r: "lists p' (td # ls) ss" "tds p' td = Some t"
      "new_thread n start_routine arg stack (stack0 = 0) td t D"
      "alloc_ready k (mem p') (set (td_blocks (of_int n * 8) STACKSIZE td t) \<union> D)" by (auto simp: record_made_def)
    let ?D = "set (td_blocks (of_int n * 8) STACKSIZE td t) \<union> D"
    obtain ret thread where orig: "orig_pthread_create lib ra td = (ret, thread)" "ret \<noteq> 0"
      using assms(7) by (metis prod.collapse)
    have nt: "td \<noteq> 0" "user_stack_low t = stack" "distinct (map fst (td_blocks (of_int n * 8) STACKSIZE td t))"
      using r(3) by (simp_all add: new_thread_def)
    have rest: "(ptr_list_e t, of_int n * 8) \<in> ?D - {(stack, STACKSIZE)} \<or> \<not> stack_is_ours t"
      "(td, MEMBLOCK_SIZE) \<in> ?D - {(stack, STACKSIZE)} \<or> \<not> stack_is_ours t" "ptr_list_e t \<noteq> td"
      "(ptr_list_e t, of_int n * 8) \<in> ?D" "(td, MEMBLOCK_SIZE) \<in> ?D" "stack_is_ours t \<Longrightarrow> (stack, STACKSIZE) \<in> ?D"
      using nt(2,3) by (auto simp: td_blocks_def split: if_splits)
    obtain m1 D1 where m1: "(if stack_is_ours t then bindE (threadscan_alloc_munmap False k stack (mem p')) (\<lambda>m. Inr (p'\<lparr>mem := m\<rparr>))
        else Inr p') = Inr (p'\<lparr>mem := m1\<rparr>)" "alloc_ready k m1 D1" "(ptr_list_e t, of_int n * 8) \<in> D1" "(td, MEMBLOCK_SIZE) \<in> D1"
    proof (cases "stack_is_ours t")
      case True
      obtain m1 where "threadscan_alloc_munmap False k stack (mem p') = Inr m1" "alloc_ready k m1 (?D - {(stack, STACKSIZE)})"
        using r(4) rest(6) [OF True] by (rule pages.deallocE)
      then show thesis using that [of m1 "?D - {(stack, STACKSIZE)}"] True rest(1,2) by simp
    next
      case False
      then show thesis using that [of "mem p'" ?D] r(4) rest(4,5) by simp
    qed
    obtain p2 where p2: "threadscan_util_thread_data_free False k td (p'\<lparr>mem := m1\<rparr>) = Inr p2"
      "tds p2 = (tds p')(td := None)" "thread_list_head p2 = thread_list_head p'"
      using thread_data_free_correct [of "p'\<lparr>mem := m1\<rparr>" td t False k D1 "of_int n * 8"] r(2) nt(1) m1(2-4) rest(3)
      by (auto elim!: returnsE)
    have head: "thread_list_head p2 = td" using r(1) p2(3) by (simp add: lists_def)
    have "threadscan_proc_signal_all_except pthread_kill me p2 = Inl Bad_access"
      unfolding threadscan_proc_signal_all_except_def FOREACH_IN_THREAD_LIST_def
      by (subst loopE_unfold) (simp add: head nt(1) signal_body_def td_at_def p2(2))
    then show "okay (mmap_fails k) (launch False k lib s (td, stack, ra, p')) (\<lambda>((ret, thread, td), s').
        ret \<noteq> 0 \<and> g_thread_count s' = g_thread_count s + 1 \<and> thread_list_head (ps s') = td \<and> tds (ps s') td = None \<and>
        threadscan_proc_signal_all_except pthread_kill me (ps s') = Inl Bad_access)"
      using orig r(2) m1(1) p2(1,2) head by (simp add: launch_def)
  qed
qed

theorem create_failure_dangles_witness:
  "okay (mmap_fails simple_kernel)
    (pthread_create False simple_kernel (simple_lib\<lparr>orig_pthread_create := (\<lambda>a td. (11, 0))\<rparr>) (fst (env_init None)) None 0x400000 7 example_wrap)
    (\<lambda>((ret, thread, td), s'). ret \<noteq> 0 \<and> g_thread_count s' = g_thread_count example_wrap + 1 \<and>
      thread_list_head (ps s') = td \<and> tds (ps s') td = None \<and>
      threadscan_proc_signal_all_except (\<lambda>_. 0) 0x5000 (ps s') = Inl Bad_access)"
proof -
  have "attr_works (simple_lib\<lparr>orig_pthread_create := (\<lambda>a td. (11, 0))\<rparr>) None \<lparr>a_stack = 0, a_stacksize = 0\<rparr> 0 0"
    by (simp add: attr_works_def create_attr_def simple_lib_def)
  then show ?thesis
    by (rule create_failure_dangles [OF example_wrap_facts refl]) (simp_all add: example_wrap_def MAX_THREAD_COUNT_def)
qed

lemma stack_top: "sp - (sp AND (PAGESIZE - 1)) = PAGEALIGN sp"
  unfolding PAGEALIGN_def
  by (subst disjunctive_diff) (auto simp: bit_simps bit_and_iff intro!: bit_word_eqI)

text \<open>
  \<^verbatim>\<open>main_replacement\<close> puts the main thread in the list, active, under its own identifier, with an empty queue
  and with a stack that begins where the process map says and ends at the last page boundary below the
  stack pointer.
\<close>

lemma main_replacement_correct:
  assumes "lists (ps s) ls ss" and "records_owned ls ss D" and "alloc_ready k (mem (ps s)) D"
    and "n = fst (env_init val)" and "threadscan_proc_stack_from_addr dbg maps addr = Inr stack_data"
  shows "okay (mmap_fails k) (main_replacement dbg k n maps addr thunk args_at sp self_id s) (\<lambda>(td, s').
    \<exists>t. lists (ps s') (td # ls) ss \<and> tds (ps s') = (tds (ps s))(td \<mapsto> t) \<and> g_thread_count s' = g_thread_count s \<and>
      is_active t \<and> self t = self_id \<and> user_routine t = thunk \<and> user_arg t = args_at \<and> user_stack_low t = low stack_data \<and>
      user_stack_high t = PAGEALIGN sp \<and> q_ok (ptr_list t) \<and> q_list (ptr_list t) = [] \<and>
      capacity (ptr_list t) = of_int n \<and> idx_head (ptr_list t) = 0 \<and> local_timestamp t = 0 \<and> ref_count t = 1 \<and>
      \<not> stack_is_ours t \<and>
      alloc_ready k (mem (ps s')) ({(ptr_list_e t, of_int n * 8), (td, MEMBLOCK_SIZE)} \<union> D))"
proof -
  have n: "ptrs_ok n" by (simp add: assms(4) ptrs_ok_env_init)
  show ?thesis unfolding main_replacement_def
  proof (rule okay_bindE [OF thread_data_new_correct [OF assms(3) n]], clarify del: mod_0_imp_dvd)
    fix td e and p1 :: "'a proc_state"
    assume 1: "tds p1 = (tds (ps s))(td \<mapsto> fresh_td n e)" "thread_list_head p1 = thread_list_head (ps s)"
      "td_staged_to_free p1 = td_staged_to_free (ps s)" "td \<noteq> 0"
      "\<forall>r \<in> D. apart r (td, MEMBLOCK_SIZE) \<and> apart r (e, of_int n * 8)"
      "alloc_ready k (mem p1) ({(e, of_int n * 8), (td, MEMBLOCK_SIZE)} \<union> D)"
    have new: "td \<notin> set ls" "td \<notin> set ss"
      using assms(2) 1(5) apart_neq [of td MEMBLOCK_SIZE td MEMBLOCK_SIZE]
      by (auto simp: records_owned_def MEMBLOCK_SIZE_def PAGESIZE_def)
    define t1 where "t1 = (fresh_td n e)\<lparr>user_routine := thunk, user_arg := args_at, user_stack_low := low stack_data\<rparr>"
    define p2 where "p2 = p1\<lparr>tds := (tds (ps s))(td \<mapsto> t1)\<rparr>"
    have "lists p2 ls ss" by (rule lists_cong [OF assms(1)]) (use new 1(2,3) in \<open>auto simp: p2_def\<close>)
    then obtain p3 where p3: "threadscan_util_thread_list_add dbg td p2 = Inr p3" "lists p3 (td # ls) ss"
      "tds p3 = (tds p2)(td \<mapsto> t1\<lparr>td_next := thread_list_head p2\<rparr>)" "mem p3 = mem p2"
      by (rule list_add_correct [OF _ new 1(4)]) (auto simp: p2_def)
    define t4 where "t4 = t1\<lparr>td_next := thread_list_head p2, user_stack_high := PAGEALIGN sp, local_timestamp := 0,
        self := self_id, is_active := True\<rparr>"
    define p4 where "p4 = p3\<lparr>tds := (tds (ps s))(td \<mapsto> t4)\<rparr>"
    have base: "threadscan_thread_base sp self_id td p3 = Inr p4"
      by (simp add: threadscan_thread_base_def Let_def stack_top p3(3) p4_def t4_def p2_def)
    have lists4: "lists p4 (td # ls) ss" by (rule lists_cong [OF p3(2)]) (auto simp: p4_def p3(3) p2_def t4_def)
    have queue4: "q_ok (ptr_list t4)" "q_list (ptr_list t4) = []" "capacity (ptr_list t4) = of_int n" "idx_head (ptr_list t4) = 0"
      using fresh_td_queue [OF n, of e] by (simp_all add: t4_def t1_def)
    have p4: "tds p4 = (tds (ps s))(td \<mapsto> t4)" "mem p4 = mem p1" by (simp_all add: p4_def p3(4) p2_def)
    have t4: "is_active t4" "self t4 = self_id" "user_routine t4 = thunk" "user_arg t4 = args_at" "user_stack_low t4 = low stack_data"
      "user_stack_high t4 = PAGEALIGN sp" "ptr_list_e t4 = e" "local_timestamp t4 = 0" "ref_count t4 = 1" "\<not> stack_is_ours t4"
      by (simp_all add: t4_def t1_def fresh_td_def zero_td_def)
    have set_up: "bindE (upd_td td (\<lambda>t. t\<lparr>user_routine := thunk, user_arg := args_at\<rparr>) p1) (\<lambda>p.
        bindE (threadscan_proc_stack_from_addr dbg maps addr) (\<lambda>stack_data.
        bindE (upd_td td (\<lambda>t. t\<lparr>user_stack_low := low stack_data\<rparr>) p) f)) = f p2" for f :: "'a proc_state \<Rightarrow> (size_t \<times> 'a wrap_state) res"
      by (simp add: 1(1) p2_def t1_def assms(5))
    show "okay (mmap_fails k)
      (if td = 0 then Inl (Fatal ''threadscan: Out of memory.'')
       else bindE (upd_td td (\<lambda>t. t\<lparr>user_routine := thunk, user_arg := args_at\<rparr>) p1) (\<lambda>p.
         bindE (threadscan_proc_stack_from_addr dbg maps addr) (\<lambda>stack_data.
         bindE (upd_td td (\<lambda>t. t\<lparr>user_stack_low := low stack_data\<rparr>) p) (\<lambda>p.
         bindE (threadscan_proc_add_thread_data dbg td p) (\<lambda>p.
         bindE (threadscan_thread_base sp self_id td p) (\<lambda>p. Inr (td, s\<lparr>ps := p\<rparr>)))))))
      (\<lambda>(td, s'). \<exists>t. lists (ps s') (td # ls) ss \<and> tds (ps s') = (tds (ps s))(td \<mapsto> t) \<and> g_thread_count s' = g_thread_count s \<and>
        is_active t \<and> self t = self_id \<and> user_routine t = thunk \<and> user_arg t = args_at \<and> user_stack_low t = low stack_data \<and>
        user_stack_high t = PAGEALIGN sp \<and> q_ok (ptr_list t) \<and> q_list (ptr_list t) = [] \<and>
        capacity (ptr_list t) = of_int n \<and> idx_head (ptr_list t) = 0 \<and> local_timestamp t = 0 \<and> ref_count t = 1 \<and>
        \<not> stack_is_ours t \<and>
        alloc_ready k (mem (ps s')) ({(ptr_list_e t, of_int n * 8), (td, MEMBLOCK_SIZE)} \<union> D))"
      unfolding set_up threadscan_proc_add_thread_data_def
      using 1(4,6) lists4 queue4 p4 t4
      by (simp add: p3(1) base) (rule exI [of _ t4], simp)
  qed
qed

text \<open>
  (C36) The start of a program. The constructor has looked up the original functions; the C library
  calls the entry point that its start function is given. Then the program's own \<^verbatim>\<open>main\<close> runs, with its own
  arguments, and its result is the exit status; when it begins, the main thread is in the list, active, under its own
  identifier, with an empty queue, and with a stack that begins where the process map says and ends at
  the last page boundary below the stack pointer.
\<close>

theorem program_starts:
  fixes s :: "'o wrap_state"
  assumes "lists (ps s) ls ss" and "records_owned ls ss D" and "alloc_ready k (mem (ps s)) D"
    and "n = fst (env_init val)" and "threadscan_proc_stack_from_addr dbg maps addr = Inr stack_data"
    and "start (dlsym ''__libc_start_main'') = (\<lambda>f. f)"
  shows "okay (mmap_fails k)
    (libc_start_main start (main_entry dbg k n maps addr thunk args_at sp self_id run s) main args
       (do_wrapper_replacement dlsym l)) (\<lambda>(status, td, s').
    status = run main args \<and> (\<exists>t. lists (ps s') (td # ls) ss \<and> tds (ps s') = (tds (ps s))(td \<mapsto> t) \<and>
      g_thread_count s' = g_thread_count s \<and>
      is_active t \<and> self t = self_id \<and> user_routine t = thunk \<and> user_stack_low t = low stack_data \<and>
      user_stack_high t = PAGEALIGN sp \<and> q_ok (ptr_list t) \<and> q_list (ptr_list t) = [] \<and>
      alloc_ready k (mem (ps s')) ({(ptr_list_e t, of_int n * 8), (td, MEMBLOCK_SIZE)} \<union> D)))"
proof -
  let ?call = "\<lambda>(td, s :: 'o wrap_state). bindE (td_at (tds (ps s)) td) (\<lambda>t.
     bindE (call_routine [thunk \<mapsto> run main] [args_at \<mapsto> args] t) (\<lambda>status. Inr (status, td, s)))"
  have "libc_start_main start (main_entry dbg k n maps addr thunk args_at sp self_id run s) main args (do_wrapper_replacement dlsym l) =
      bindE (main_replacement dbg k n maps addr thunk args_at sp self_id s) ?call"
    by (simp add: libc_start_main_def do_wrapper_replacement_def assms(6) main_entry_def main_thunk_def [abs_def])
  then show ?thesis
    by (simp only:, intro okay_bindE [OF main_replacement_correct [OF assms(1-5), of thunk args_at sp self_id]])
       (clarsimp simp: call_routine_def del: mod_0_imp_dvd; blast)
qed

theorem program_starts_witness:
  "okay (mmap_fails simple_kernel)
    (libc_start_main (\<lambda>p f. if p = 0x7000 then f else (\<lambda>args. Inl Hang))
       (main_entry True simple_kernel (fst (env_init None)) (Some (printed example_map)) 0x7ffc10020ff8 0x400000 7 0x7ffc10020fe0 42
         (\<lambda>p args. argc args) example_wrap) 0x401000 \<lparr>argc = 3, argv = 0, envp = 0\<rparr>
       (do_wrapper_replacement (\<lambda>name. if name = ''__libc_start_main'' then 0x7000 else 0x8000)
         \<lparr>ptr_pthread_create = 0, ptr_pthread_exit = 0, ptr_pthread_join = 0, ptr_libc_start_main = 0, orig_main = 0\<rparr>))
    (\<lambda>(status, td, s'). status = argc \<lparr>argc = 3, argv = 0, envp = 0\<rparr> \<and>
      (\<exists>t. lists (ps s') (td # [0x5000]) [] \<and> tds (ps s') = (tds (ps example_wrap))(td \<mapsto> t) \<and>
      g_thread_count s' = g_thread_count example_wrap \<and>
      is_active t \<and> self t = 42 \<and> user_routine t = 0x400000 \<and> user_stack_low t = low \<lparr>low = 0x7ffc10000000, high = 0x7ffc10021000\<rparr> \<and>
      user_stack_high t = PAGEALIGN 0x7ffc10020fe0 \<and> q_ok (ptr_list t) \<and> q_list (ptr_list t) = [] \<and>
      alloc_ready simple_kernel (mem (ps s'))
        ({(ptr_list_e t, of_int (fst (env_init None)) * 8), (td, MEMBLOCK_SIZE)} \<union> {(0x5000, 4096), (0x6000, 8192)})))"
  by (rule program_starts [OF example_wrap_facts refl example_map_stack]) simp

end
