(* ===== verification/TS_Steps.thy ===== *)
theory TS_Steps
  imports TS_Prelude
begin

text \<open>
  Programs whose threads interleave, as step relations: the states that can be reached, invariants and
  progress. The laws are locales; the components with several threads interpret them.
\<close>

inductive reachable :: "('s \<Rightarrow> bool) \<Rightarrow> ('s \<Rightarrow> 's \<Rightarrow> bool) \<Rightarrow> 's \<Rightarrow> bool" for init step where
  reachable_init: "init s \<Longrightarrow> reachable init step s"
| reachable_step: "reachable init step s \<Longrightarrow> step s s' \<Longrightarrow> reachable init step s'"

lemma reachable_steps: "step\<^sup>*\<^sup>* s s' \<Longrightarrow> reachable init step s \<Longrightarrow> reachable init step s'"
  by (induction rule: rtranclp_induct) (auto intro: reachable_step)

text \<open>A property of the initial states that every step keeps.\<close>

locale step_invariant =
  fixes init :: "'s \<Rightarrow> bool" and step :: "'s \<Rightarrow> 's \<Rightarrow> bool" and I :: "'s \<Rightarrow> bool"
  assumes inv_init: "init s \<Longrightarrow> I s"
    and inv_step: "I s \<Longrightarrow> step s s' \<Longrightarrow> I s'"
begin

lemma inv_reachable: "reachable init step s \<Longrightarrow> I s"
  by (induction rule: reachable.induct) (auto intro: inv_init inv_step)

lemma inv_steps: "step\<^sup>*\<^sup>* s s' \<Longrightarrow> I s \<Longrightarrow> I s'"
  by (induction rule: rtranclp_induct) (auto intro: inv_step)

end

text \<open>
  While \<open>pending\<close> holds and the goal is not met, some step brings the goal nearer and keeps \<open>pending\<close> or
  meets the goal. Then the goal can be met from every reachable state.
\<close>

locale step_progress = step_invariant +
  fixes pending goal :: "'a \<Rightarrow> bool" and rank :: "'a \<Rightarrow> nat"
  assumes advance: "I s \<Longrightarrow> pending s \<Longrightarrow> \<exists>s'. step s s' \<and> (goal s' \<or> pending s' \<and> rank s' < rank s)"
begin

lemma goal_met:
  assumes "I s" and "pending s"
  shows "\<exists>s'. step\<^sup>*\<^sup>* s s' \<and> goal s'"
  using assms
proof (induction "rank s" arbitrary: s rule: less_induct)
  case less
  obtain s' where s': "step s s'" "goal s' \<or> pending s' \<and> rank s' < rank s"
    using advance [OF less.prems] by blast
  show ?case
  proof (cases "goal s'")
    case False
    then obtain s'' where "step\<^sup>*\<^sup>* s' s''" "goal s''"
      using less.hyps [of s'] s' inv_step [OF less.prems(1) s'(1)] by blast
    then show ?thesis using s'(1) by (meson converse_rtranclp_into_rtranclp)
  qed (use s' in blast)
qed

end

text \<open>
  Every step lowers a rank, and only a state that meets the goal has no step. Then no run goes on for
  ever, and every run that cannot go on has met the goal.
\<close>

locale step_termination = step_invariant +
  fixes goal :: "'a \<Rightarrow> bool" and rank :: "'a \<Rightarrow> nat"
  assumes lowers: "I s \<Longrightarrow> step s s' \<Longrightarrow> rank s' < rank s"
    and enabled: "I s \<Longrightarrow> \<not> goal s \<Longrightarrow> \<exists>s'. step s s'"
begin

lemma runs_bounded: "I s \<Longrightarrow> (step ^^ n) s s' \<Longrightarrow> n + rank s' \<le> rank s"
proof (induction n arbitrary: s')
  case (Suc n)
  then obtain u where u: "(step ^^ n) s u" "step u s'" by auto
  then have "I u" using inv_steps Suc.prems(1) relpowp_imp_rtranclp by metis
  with lowers [OF _ u(2)] Suc.IH [OF Suc.prems(1) u(1)] show ?case by simp
qed simp

lemma goal_reached: "I s \<Longrightarrow> \<exists>s'. step\<^sup>*\<^sup>* s s' \<and> goal s'"
proof (induction "rank s" arbitrary: s rule: less_induct)
  case less
  show ?case
  proof (cases "goal s")
    case False
    then obtain s' where s': "step s s'" using enabled [OF less.prems] by blast
    then obtain s'' where "step\<^sup>*\<^sup>* s' s''" "goal s''"
      using less.hyps [OF lowers [OF less.prems s']] inv_step [OF less.prems s'] by blast
    then show ?thesis using s' by (meson converse_rtranclp_into_rtranclp)
  qed blast
qed

end

end
