(* ===== verification/TS_Lock.thy ===== *)
theory TS_Lock
  imports TS_Steps TS_Thread
begin

text \<open>
  The reclaimer lock with all threads running at once. The functions of \<^verbatim>\<open>thread.c\<close> that are one step each
  in \<open>TS_Thread\<close> are cut here at every access to \<^verbatim>\<open>global_timestamp\<close> or to the \<^verbatim>\<open>local_timestamp\<close> of a thread,
  and the threads' steps interleave freely.

  A thread has two places where it can be: in the signal handler (\<open>hpc\<close>) and in the code that the handler
  interrupts (\<open>mpc\<close>); the latter moves only while the handler does not run.
\<close>

subsection \<open>State\<close>

text \<open>
  The handler: not running; after the first store of \<^verbatim>\<open>cleanup_raise_flag\<close>, with the old timestamp; after
  reading the global one; scanning, until \<^verbatim>\<open>cleanup_lower_flag\<close>.
\<close>

datatype handler_pc = Idle | Raised size_t | Seen size_t size_t | Helping

text \<open>
  The interrupted code: outside; in \<^verbatim>\<open>cleanup_try_acquire\<close> after reading the global timestamp; before
  the mutex of the thread list is taken; in \<^verbatim>\<open>wait_for_timestamp\<close> with the threads still to be looked at; reclaiming; in \<^verbatim>\<open>cleanup_release\<close> after
  reading the global timestamp.
\<close>

datatype main_pc = Outside | Trying size_t | Locking size_t | Waiting size_t "size_t list" | Critical | Releasing size_t

text \<open>\<open>live\<close> is the thread list. \<open>rounds\<close>, which the code does not have, counts the acquisitions.\<close>

record lock_state =
  gts :: size_t
  lts :: "size_t \<Rightarrow> size_t"
  twu :: "size_t \<Rightarrow> int"
  hpc :: "size_t \<Rightarrow> handler_pc"
  mpc :: "size_t \<Rightarrow> main_pc"
  live :: "size_t list"
  rounds :: nat

text \<open>\<^verbatim>\<open>wait_for_timestamp\<close> holds the mutex of the thread list.\<close>

definition list_locked :: "lock_state \<Rightarrow> bool" where
  "list_locked s \<longleftrightarrow> (\<exists>t cur us. mpc s t = Waiting cur us)"

text \<open>The counter \<^verbatim>\<open>times_without_update\<close> at the end of \<^verbatim>\<open>cleanup_raise_flag\<close>.\<close>

definition next_twu :: "size_t \<Rightarrow> size_t \<Rightarrow> int \<Rightarrow> int" where
  "next_twu old cur n =
     (if TIMESTAMP cur \<noteq> old then 0
      else if \<not> TIMESTAMP_IS_ACTIVE cur then (if n < 2 then n + 1 else n)
      else n)"

subsection \<open>Steps\<close>

inductive handler_step :: "size_t \<Rightarrow> lock_state \<Rightarrow> lock_state \<Rightarrow> bool" for t s where
  raise_first: "hpc s t = Idle \<Longrightarrow>
     handler_step t s (s\<lparr>lts := (lts s)(t := TIMESTAMP_RAISE_FLAG (lts s t)), hpc := (hpc s)(t := Raised (lts s t))\<rparr>)"
| raise_read: "hpc s t = Raised old \<Longrightarrow>
     handler_step t s (s\<lparr>hpc := (hpc s)(t := Seen old (gts s))\<rparr>)"
| raise_second: "hpc s t = Seen old cur \<Longrightarrow>
     handler_step t s (s\<lparr>lts := (lts s)(t := TIMESTAMP_RAISE_FLAG cur), twu := (twu s)(t := next_twu old cur (twu s t)),
       hpc := (hpc s)(t := Helping)\<rparr>)"
| lower: "hpc s t = Helping \<Longrightarrow>
     handler_step t s (s\<lparr>lts := (lts s)(t := TIMESTAMP (lts s t)), hpc := (hpc s)(t := Idle)\<rparr>)"

inductive main_step :: "size_t \<Rightarrow> lock_state \<Rightarrow> lock_state \<Rightarrow> bool" for t s where
  try_busy: "mpc s t = Outside \<Longrightarrow> TIMESTAMP_IS_ACTIVE (gts s) \<Longrightarrow> main_step t s s"
| try_free: "mpc s t = Outside \<Longrightarrow> \<not> TIMESTAMP_IS_ACTIVE (gts s) \<Longrightarrow>
     main_step t s (s\<lparr>mpc := (mpc s)(t := Trying (gts s))\<rparr>)"
| cas_ok: "mpc s t = Trying old \<Longrightarrow> gts s = old \<Longrightarrow> attempt = TIMESTAMP_SET_ACTIVE (old + 1) \<Longrightarrow>
     main_step t s (s\<lparr>gts := attempt, mpc := (mpc s)(t := Locking (TIMESTAMP attempt)), rounds := rounds s + 1\<rparr>)"
| cas_failed: "mpc s t = Trying old \<Longrightarrow> gts s \<noteq> old \<Longrightarrow>
     main_step t s (s\<lparr>mpc := (mpc s)(t := Outside)\<rparr>)"
| wait_start: "mpc s t = Locking cur \<Longrightarrow> \<not> list_locked s \<Longrightarrow>
     main_step t s (s\<lparr>mpc := (mpc s)(t := Waiting cur (live s))\<rparr>)"
| wait_spin: "mpc s t = Waiting cur (u # us) \<Longrightarrow> TIMESTAMP_IS_ACTIVE (lts s u) \<Longrightarrow> TIMESTAMP (lts s u) \<noteq> cur \<Longrightarrow>
     main_step t s s"
| wait_next: "mpc s t = Waiting cur (u # us) \<Longrightarrow> \<not> TIMESTAMP_IS_ACTIVE (lts s u) \<or> TIMESTAMP (lts s u) = cur \<Longrightarrow>
     main_step t s (s\<lparr>mpc := (mpc s)(t := Waiting cur us)\<rparr>)"
| acquired: "mpc s t = Waiting cur [] \<Longrightarrow>
     main_step t s (s\<lparr>mpc := (mpc s)(t := Critical)\<rparr>)"
| release_read: "mpc s t = Critical \<Longrightarrow>
     main_step t s (s\<lparr>mpc := (mpc s)(t := Releasing (gts s))\<rparr>)"
| release: "mpc s t = Releasing v \<Longrightarrow>
     main_step t s (s\<lparr>gts := TIMESTAMP v, mpc := (mpc s)(t := Outside)\<rparr>)"

text \<open>Threads come, with a zero timestamp, and go, while nobody holds the mutex of the list.\<close>

inductive list_step :: "size_t \<Rightarrow> lock_state \<Rightarrow> lock_state \<Rightarrow> bool" for t s where
  enter: "\<not> list_locked s \<Longrightarrow> t \<notin> set (live s) \<Longrightarrow> hpc s t = Idle \<Longrightarrow> mpc s t = Outside \<Longrightarrow>
     list_step t s (s\<lparr>live := t # live s, lts := (lts s)(t := 0)\<rparr>)"
| leave: "\<not> list_locked s \<Longrightarrow> hpc s t = Idle \<Longrightarrow> mpc s t = Outside \<Longrightarrow>
     list_step t s (s\<lparr>live := remove1 t (live s)\<rparr>)"

inductive lock_step :: "lock_state \<Rightarrow> lock_state \<Rightarrow> bool" where
  handler: "handler_step t s s' \<Longrightarrow> lock_step s s'"
| main: "hpc s t = Idle \<Longrightarrow> main_step t s s' \<Longrightarrow> lock_step s s'"
| threads: "list_step t s s' \<Longrightarrow> lock_step s s'"

definition lock_init :: "lock_state \<Rightarrow> bool" where
  "lock_init s \<longleftrightarrow> gts s = 1 \<and> (\<forall>t. lts s t = 0 \<and> hpc s t = Idle \<and> mpc s t = Outside) \<and> distinct (live s) \<and> rounds s = 0"

subsection \<open>Mutual exclusion\<close>

inductive_cases handler_stepE: "handler_step t s s'"
inductive_cases main_stepE: "main_step t s s'"
inductive_cases list_stepE: "list_step t s s'"
inductive_cases lock_stepE [consumes 1, case_names handler main threads]: "lock_step s s'"

text \<open>Thread \<open>t\<close> holds the reclaimer lock: from the successful compare-and-swap to the final store.\<close>

fun is_holding :: "main_pc \<Rightarrow> bool" where
  "is_holding Outside = False"
| "is_holding (Trying old) = False"
| "is_holding _ = True"

definition holds_lock :: "lock_state \<Rightarrow> size_t \<Rightarrow> bool" where
  "holds_lock s t \<longleftrightarrow> is_holding (mpc s t)"

definition lock_inv :: "lock_state \<Rightarrow> bool" where
  "lock_inv s \<longleftrightarrow>
     (\<forall>t u. holds_lock s t \<longrightarrow> holds_lock s u \<longrightarrow> t = u) \<and>
     (\<forall>t. holds_lock s t \<longrightarrow> TIMESTAMP_IS_ACTIVE (gts s)) \<and>
     (\<forall>t old. mpc s t = Trying old \<longrightarrow> \<not> TIMESTAMP_IS_ACTIVE old) \<and>
     (\<forall>t v. mpc s t = Releasing v \<longrightarrow> v = gts s)"

lemma lock_invD:
  assumes "lock_inv s"
  shows "holds_lock s t \<Longrightarrow> holds_lock s u \<Longrightarrow> t = u" and "holds_lock s t \<Longrightarrow> TIMESTAMP_IS_ACTIVE (gts s)"
    and "mpc s t = Trying old \<Longrightarrow> \<not> TIMESTAMP_IS_ACTIVE old" and "mpc s t = Releasing v \<Longrightarrow> v = gts s"
  using assms unfolding lock_inv_def by blast+

lemma lock_inv_init: "lock_init s \<Longrightarrow> lock_inv s"
  by (simp add: lock_init_def lock_inv_def holds_lock_def)

text \<open>The same thread holds the lock before and after the step.\<close>

lemma lock_inv_move:
  assumes "lock_inv s" and "is_holding (mpc s t) = is_holding pc" and "\<And>v. pc = Releasing v \<Longrightarrow> v = gts s"
    and "\<And>old. pc = Trying old \<Longrightarrow> \<not> TIMESTAMP_IS_ACTIVE old"
  shows "lock_inv (s\<lparr>mpc := (mpc s)(t := pc)\<rparr>)"
proof -
  have "holds_lock (s\<lparr>mpc := (mpc s)(t := pc)\<rparr>) u = holds_lock s u" for u using assms(2) by (simp add: holds_lock_def)
  then show ?thesis using assms(1,3,4) by (simp add: lock_inv_def)
qed

lemma lock_inv_main:
  assumes "lock_inv s" and "main_step t s s'"
  shows "lock_inv s'"
  using assms(2)
proof cases
  case (cas_ok old attempt)
  have "\<not> holds_lock s u" for u using lock_invD(2,3) [OF assms(1)] cas_ok(2,3) by blast
  then have free: "\<not> is_holding (mpc s u)" for u by (simp add: holds_lock_def)
  then have "mpc s u \<noteq> Releasing v" for u v by (metis is_holding.simps(6))
  then show ?thesis using assms(1) free
    by (simp add: cas_ok lock_inv_def holds_lock_def TIMESTAMP_SET_ACTIVE_def split: if_splits)
next
  case (release v)
  have "holds_lock s t" by (simp add: release(2) holds_lock_def)
  then have "u \<noteq> t \<Longrightarrow> \<not> holds_lock s u" for u using lock_invD(1) [OF assms(1)] by blast
  then have free: "u \<noteq> t \<Longrightarrow> \<not> is_holding (mpc s u)" for u by (simp add: holds_lock_def)
  then have "u \<noteq> t \<Longrightarrow> mpc s u \<noteq> Releasing v" for u v by (metis is_holding.simps(6))
  then show ?thesis using assms(1) free
    by (simp add: release lock_inv_def holds_lock_def split: if_splits)
next
  case try_busy
  then show ?thesis using assms(1) by simp
next
  case wait_spin
  then show ?thesis using assms(1) by simp
next
  case try_free
  then show ?thesis using lock_inv_move [OF assms(1), of t "Trying (gts s)"] by simp
next
  case (cas_failed old)
  then show ?thesis using lock_inv_move [OF assms(1), of t Outside] by simp
next
  case (wait_start cur)
  then show ?thesis using lock_inv_move [OF assms(1), of t "Waiting cur (live s)"] by simp
next
  case (wait_next cur u us)
  then show ?thesis using lock_inv_move [OF assms(1), of t "Waiting cur us"] by simp
next
  case (acquired cur)
  then show ?thesis using lock_inv_move [OF assms(1), of t Critical] by simp
next
  case release_read
  then show ?thesis using lock_inv_move [OF assms(1), of t "Releasing (gts s)"] by simp
qed

lemma lock_inv_other:
  assumes "lock_inv s" and "mpc s' = mpc s" and "gts s' = gts s"
  shows "lock_inv s'"
  using assms by (simp add: lock_inv_def holds_lock_def)

lemma lock_inv_step:
  assumes "lock_inv s" and "lock_step s s'"
  shows "lock_inv s'"
  using assms(2)
proof (cases rule: lock_stepE)
  case (handler t)
  then show ?thesis by (auto elim!: handler_stepE intro!: lock_inv_other [OF assms(1)])
next
  case (main t)
  then show ?thesis using lock_inv_main [OF assms(1)] by blast
next
  case (threads t)
  then show ?thesis by (auto elim!: list_stepE intro!: lock_inv_other [OF assms(1)])
qed

interpretation excl: step_invariant lock_init lock_step lock_inv
  by unfold_locales (fact lock_inv_init, fact lock_inv_step)

text \<open>
  (C11) Mutual exclusion. Whatever the order of the steps of the threads and their handlers, at most one thread
  at a time holds the reclaimer lock.
\<close>

theorem reclaimer_exclusive:
  assumes "reachable lock_init lock_step s" and "holds_lock s t" and "holds_lock s u"
  shows "t = u"
  by (rule lock_invD(1) [OF excl.inv_reachable [OF assms(1)] assms(2,3)])

subsection \<open>Helpers work for the current round\<close>

definition stamp :: "size_t \<Rightarrow> nat" where
  "stamp x = unat (TIMESTAMP x)"

lemma stamp_simps [simp]:
  "stamp (TIMESTAMP x) = stamp x" "stamp (TIMESTAMP_RAISE_FLAG x) = stamp x" "stamp 0 = 0" "stamp 1 = 1"
  by (simp_all add: stamp_def) (simp_all add: TIMESTAMP_def)

text \<open>
  The handler of a thread with timestamp \<open>l\<close>, when the global one is \<open>g\<close>: the flag is up exactly while the
  handler runs, and no timestamp is later than the global one.
\<close>

fun handler_ok :: "handler_pc \<Rightarrow> size_t \<Rightarrow> nat \<Rightarrow> bool" where
  "handler_ok Idle l g \<longleftrightarrow> \<not> TIMESTAMP_IS_ACTIVE l \<and> stamp l \<le> g"
| "handler_ok (Raised old) l g \<longleftrightarrow> TIMESTAMP_IS_ACTIVE l \<and> stamp l = stamp old \<and> stamp old \<le> g"
| "handler_ok (Seen old cur) l g \<longleftrightarrow> TIMESTAMP_IS_ACTIVE l \<and> stamp l = stamp old \<and> stamp old \<le> stamp cur \<and> stamp cur \<le> g"
| "handler_ok Helping l g \<longleftrightarrow> TIMESTAMP_IS_ACTIVE l \<and> stamp l \<le> g"

text \<open>The handler works, or will work, for an earlier round.\<close>

fun behind :: "handler_pc \<Rightarrow> size_t \<Rightarrow> nat \<Rightarrow> bool" where
  "behind (Seen old cur) l g \<longleftrightarrow> stamp cur \<noteq> g"
| "behind Helping l g \<longleftrightarrow> stamp l \<noteq> g"
| "behind _ l g \<longleftrightarrow> False"

definition handler_inv :: "lock_state \<Rightarrow> size_t \<Rightarrow> bool" where
  "handler_inv s t \<longleftrightarrow> handler_ok (hpc s t) (lts s t) (stamp (gts s))"

definition stale :: "lock_state \<Rightarrow> size_t set" where
  "stale s = {u \<in> set (live s). behind (hpc s u) (lts s u) (stamp (gts s))}"

text \<open>The holder of the lock, with \<open>A\<close> the threads that are behind.\<close>

fun main_ok :: "main_pc \<Rightarrow> size_t \<Rightarrow> size_t set \<Rightarrow> bool" where
  "main_ok (Locking cur) g A \<longleftrightarrow> cur = g"
| "main_ok (Waiting cur us) g A \<longleftrightarrow> cur = g \<and> A \<subseteq> set us"
| "main_ok Critical g A \<longleftrightarrow> A = {}"
| "main_ok (Releasing v) g A \<longleftrightarrow> A = {}"
| "main_ok _ g A \<longleftrightarrow> True"

definition main_inv :: "lock_state \<Rightarrow> size_t \<Rightarrow> bool" where
  "main_inv s t \<longleftrightarrow> main_ok (mpc s t) (TIMESTAMP (gts s)) (stale s)"

text \<open>The timestamp has 63 bits; the order of the timestamps is that of the rounds until they are used up.\<close>

definition stamps_left :: "lock_state \<Rightarrow> bool" where
  "stamps_left s \<longleftrightarrow> rounds s + 1 < 2 ^ 63"

definition fresh_inv :: "lock_state \<Rightarrow> bool" where
  "fresh_inv s \<longleftrightarrow> lock_inv s \<and>
     (stamps_left s \<longrightarrow> stamp (gts s) = rounds s + 1 \<and> (\<forall>t. handler_inv s t) \<and> (\<forall>t. main_inv s t))"

lemma fresh_inv_init: "lock_init s \<Longrightarrow> fresh_inv s"
  unfolding fresh_inv_def using lock_inv_init [of s]
  by (auto simp: lock_init_def handler_inv_def main_inv_def TIMESTAMP_IS_ACTIVE_def)

lemma main_ok_mono: "main_ok pc g A \<Longrightarrow> B \<subseteq> A \<Longrightarrow> main_ok pc g B"
  by (induction pc g A rule: main_ok.induct) auto

lemma handler_ok_mono: "handler_ok pc l g \<Longrightarrow> g \<le> g' \<Longrightarrow> handler_ok pc l g'"
  by (induction pc l g rule: handler_ok.induct) auto

text \<open>A thread that the wait goes past is not behind: its flag is down, or it has the new timestamp.\<close>

lemma past_not_behind:
  "handler_ok pc l g \<Longrightarrow> \<not> TIMESTAMP_IS_ACTIVE l \<or> stamp l = g \<Longrightarrow> \<not> behind pc l g"
  by (induction pc l g rule: handler_ok.induct) auto

text \<open>No step of a handler puts it behind.\<close>

lemma handler_step_keeps:
  assumes "handler_step t s s'" and "handler_inv s t"
  shows "handler_inv s' t" and "stale s' \<subseteq> stale s" and "\<And>u. u \<noteq> t \<Longrightarrow> handler_inv s' u = handler_inv s u"
    and "gts s' = gts s \<and> mpc s' = mpc s \<and> live s' = live s \<and> rounds s' = rounds s"
  using assms by (cases; auto simp: handler_inv_def stale_def)+

lemma fresh_inv_handler:
  assumes "fresh_inv s" and "handler_step t s s'"
  shows "fresh_inv s'"
proof -
  have "handler_inv s' u" "main_inv s' u" if "stamps_left s" for u
  proof -
    have inv: "handler_inv s u" "main_inv s u" for u using assms(1) that by (simp_all add: fresh_inv_def)
    note keep = handler_step_keeps [OF assms(2) inv(1)]
    show "handler_inv s' u" using keep(1) keep(3) [of u] inv(1) [of u] by (cases "u = t") auto
    show "main_inv s' u" using keep(2,4) inv(2) [of u] main_ok_mono by (auto simp: main_inv_def)
  qed
  moreover have "gts s' = gts s \<and> mpc s' = mpc s \<and> rounds s' = rounds s" using assms(2) by cases auto
  ultimately show ?thesis using assms(1) lock_inv_other [of s s'] by (simp add: fresh_inv_def stamps_left_def)
qed


lemma fresh_invD:
  assumes "fresh_inv s" and "stamps_left s"
  shows "stamp (gts s) = rounds s + 1" and "handler_inv s t" and "main_inv s t"
  using assms by (simp_all add: fresh_inv_def)

text \<open>A step of the interrupted code that leaves the timestamp and the list as they are.\<close>

lemma fresh_inv_move:
  assumes "fresh_inv s" and "s' = s\<lparr>mpc := (mpc s)(t := pc)\<rparr>" and "lock_inv s'"
    and "stamps_left s \<Longrightarrow> main_ok pc (TIMESTAMP (gts s)) (stale s)"
  shows "fresh_inv s'"
proof -
  have "stale s' = stale s" "\<And>u. handler_inv s' u = handler_inv s u" "gts s' = gts s" "rounds s' = rounds s"
    by (simp_all add: assms(2) stale_def handler_inv_def)
  then show ?thesis
    using assms(1,3,4) by (auto simp: fresh_inv_def stamps_left_def main_inv_def assms(2))
qed

lemma fresh_inv_main:
  assumes "fresh_inv s" and "main_step t s s'"
  shows "fresh_inv s'"
proof -
  have l: "lock_inv s" using assms(1) by (simp add: fresh_inv_def)
  have l': "lock_inv s'" by (rule lock_inv_main [OF l assms(2)])
  have ok: "main_ok (mpc s t) (TIMESTAMP (gts s)) (stale s)" if "stamps_left s"
    using fresh_invD(3) [OF assms(1) that, of t] by (simp add: main_inv_def)
  show ?thesis using assms(2)
  proof cases
    case (cas_ok old attempt)
    have inactive: "\<not> TIMESTAMP_IS_ACTIVE (gts s)" using lock_invD(3) [OF l] cas_ok(2,3) by simp
    then have free: "\<not> is_holding (mpc s u)" for u using lock_invD(2) [OF l, of u] by (auto simp: holds_lock_def)
    have "stamp (gts s') = rounds s' + 1" "handler_inv s' u" "main_inv s' u" if b: "stamps_left s'" for u
    proof -
      have b0: "stamps_left s" using b by (simp add: cas_ok(1) stamps_left_def)
      have g: "stamp (gts s) = rounds s + 1" by (rule fresh_invD(1) [OF assms(1) b0])
      have "stamp (gts s) + 1 < 2 ^ 63" using g b by (simp add: cas_ok(1) stamps_left_def)
      then have g': "stamp (gts s') = stamp (gts s) + 1"
        using timestamp_succ [OF inactive] by (simp add: stamp_def cas_ok(1,3,4))
      then show "stamp (gts s') = rounds s' + 1" by (simp add: g cas_ok(1))
      have "handler_inv s u" by (rule fresh_invD(2) [OF assms(1) b0])
      then show "handler_inv s' u" using g' handler_ok_mono [of _ _ "stamp (gts s)" "stamp (gts s')"]
        by (simp add: handler_inv_def) (simp add: cas_ok(1))
      show "main_inv s' u"
        using free [of u] by (cases "mpc s u") (simp_all add: main_inv_def cas_ok(1))
    qed
    then show ?thesis using l' by (simp add: fresh_inv_def)
  next
    case (wait_start cur)
    have "stale s \<subseteq> set (live s)" by (auto simp: stale_def)
    then show ?thesis by (intro fresh_inv_move [OF assms(1) wait_start(1) l']) (use ok wait_start(2) in simp)
  next
    case (wait_next cur u us)
    show ?thesis
    proof (rule fresh_inv_move [OF assms(1) wait_next(1) l'])
      assume b: "stamps_left s"
      have o: "cur = TIMESTAMP (gts s)" "stale s \<subseteq> set (u # us)" using ok [OF b] wait_next(2) by simp_all
      have "\<not> TIMESTAMP_IS_ACTIVE (lts s u) \<or> stamp (lts s u) = stamp (gts s)"
        using wait_next(3) o(1) by (auto simp: stamp_def)
      then have "u \<notin> stale s"
        using past_not_behind fresh_invD(2) [OF assms(1) b, of u] by (auto simp: stale_def handler_inv_def)
      then show "main_ok (Waiting cur us) (TIMESTAMP (gts s)) (stale s)" using o by auto
    qed
  next
    case (release v)
    have v: "v = gts s" by (rule lock_invD(4) [OF l release(2)])
    have "stale s' = stale s" "\<And>u. handler_inv s' u = handler_inv s u" "stamp (gts s') = stamp (gts s)"
      "TIMESTAMP (gts s') = TIMESTAMP (gts s)"
      by (simp_all add: release(1) v stale_def handler_inv_def)
    then show ?thesis
      using assms(1) l' by (auto simp: fresh_inv_def main_inv_def stamps_left_def release(1))
  next
    case try_free
    then show ?thesis by (intro fresh_inv_move [OF assms(1) _ l']) auto
  next
    case (cas_failed old)
    then show ?thesis by (intro fresh_inv_move [OF assms(1) _ l']) auto
  next
    case (acquired cur)
    then show ?thesis by (intro fresh_inv_move [OF assms(1) _ l']) (use ok in auto)
  next
    case release_read
    then show ?thesis by (intro fresh_inv_move [OF assms(1) _ l']) (use ok in auto)
  qed (use assms(1) in simp_all)
qed

lemma fresh_inv_list:
  assumes "fresh_inv s" and "list_step t s s'"
  shows "fresh_inv s'"
proof -
  have g: "gts s' = gts s" "mpc s' = mpc s" "rounds s' = rounds s" "hpc s' = hpc s" using assms(2) by (cases; simp)+
  have l: "lock_inv s'" using assms(1) g by (auto simp: fresh_inv_def intro: lock_inv_other [of s])
  have "handler_inv s' u" if "handler_inv s u" for u
    using assms(2) that by cases (auto simp: handler_inv_def flag_bit)
  moreover have "stale s' \<subseteq> stale s"
    using assms(2) by cases (auto simp: stale_def dest: notin_set_remove1 split: if_splits intro: set_remove1_subset [THEN subsetD])
  moreover have "main_inv s' u" if "main_inv s u" for u
    using main_ok_mono [OF that [unfolded main_inv_def] calculation(2)] g by (simp add: main_inv_def)
  ultimately show ?thesis using assms(1) l g(1,3) by (simp add: fresh_inv_def stamps_left_def)
qed

lemma fresh_inv_step: "fresh_inv s \<Longrightarrow> lock_step s s' \<Longrightarrow> fresh_inv s'"
  by (erule lock_stepE) (blast intro: fresh_inv_handler fresh_inv_main fresh_inv_list)+

interpretation fresh: step_invariant lock_init lock_step fresh_inv
  by unfold_locales (fact fresh_inv_init, fact fresh_inv_step)

text \<open>
  (C10) Helpers and the reclaimer. When a thread has acquired the reclaimer lock, every thread of the list
  whose handler is between \<^verbatim>\<open>cleanup_raise_flag\<close> and \<^verbatim>\<open>cleanup_lower_flag\<close> has the timestamp of this
  reclamation: no helper is still at work for an earlier one. This holds for the first
  \<open>2 ^ 63 - 2\<close> reclamations, after which the timestamps repeat.
\<close>

theorem helpers_are_current:
  assumes "reachable lock_init lock_step s" and "rounds s + 1 < 2 ^ 63" and "mpc s t = Critical"
    and "u \<in> set (live s)" and "hpc s u = Helping"
  shows "TIMESTAMP_IS_ACTIVE (lts s u) \<and> TIMESTAMP (lts s u) = TIMESTAMP (gts s)"
proof -
  have inv: "handler_inv s u" "main_inv s t"
    using fresh_invD(2,3) [OF fresh.inv_reachable [OF assms(1)]] assms(2) by (simp_all add: stamps_left_def)
  have "u \<notin> stale s" using inv(2) assms(3) by (simp add: main_inv_def)
  then have "stamp (lts s u) = stamp (gts s)" using assms(4,5) by (simp add: stale_def)
  then have "TIMESTAMP (lts s u) = TIMESTAMP (gts s)" by (simp add: stamp_def word_unat_eq_iff)
  then show ?thesis using inv(1) assms(5) by (simp add: handler_inv_def)
qed

subsection \<open>The wait ends\<close>

text \<open>The steps that a handler still has to make, and those of the thread that acquires the lock.\<close>

fun handler_rank :: "handler_pc \<Rightarrow> nat" where
  "handler_rank Idle = 0"
| "handler_rank (Raised old) = 3"
| "handler_rank (Seen old cur) = 2"
| "handler_rank Helping = 1"

fun to_visit :: "main_pc \<Rightarrow> size_t list \<Rightarrow> size_t list" where
  "to_visit (Waiting cur us) ls = us"
| "to_visit pc ls = ls"

fun main_rank :: "main_pc \<Rightarrow> size_t list \<Rightarrow> nat" where
  "main_rank (Locking cur) ls = length ls + 2"
| "main_rank (Waiting cur us) ls = length us + 1"
| "main_rank pc ls = 0"

definition wait_rank :: "size_t \<Rightarrow> lock_state \<Rightarrow> nat" where
  "wait_rank t s = handler_rank (hpc s t) + sum_list (map (\<lambda>u. handler_rank (hpc s u)) (to_visit (mpc s t) (live s))) +
     main_rank (mpc s t) (live s)"

definition acquiring :: "size_t \<Rightarrow> lock_state \<Rightarrow> bool" where
  "acquiring t s \<longleftrightarrow> stamps_left s \<and> ((\<exists>cur. mpc s t = Locking cur) \<or> (\<exists>cur us. mpc s t = Waiting cur us))"

definition acquired_lock :: "size_t \<Rightarrow> lock_state \<Rightarrow> bool" where
  "acquired_lock t s \<longleftrightarrow> mpc s t = Critical"

lemma handler_advances:
  assumes "hpc s u \<noteq> Idle"
  obtains s' where "handler_step u s s'" and "handler_rank (hpc s' u) < handler_rank (hpc s u)"
    and "\<And>x. x \<noteq> u \<Longrightarrow> hpc s' x = hpc s x" and "mpc s' = mpc s" and "live s' = live s" and "rounds s' = rounds s"
proof (cases "hpc s u")
  case (Raised old)
  show ?thesis by (rule that [OF raise_read [OF Raised]]) (simp_all add: Raised)
next
  case (Seen old cur)
  show ?thesis by (rule that [OF raise_second [OF Seen]]) (simp_all add: Seen)
next
  case Helping
  show ?thesis by (rule that [OF lower [OF Helping]]) (simp_all add: Helping)
qed (use assms in simp)

lemma sum_list_map_less:
  fixes f g :: "'a \<Rightarrow> nat"
  assumes "\<And>x. x \<in> set xs \<Longrightarrow> f x \<le> g x" and "u \<in> set xs" and "f u < g u"
  shows "sum_list (map f xs) < sum_list (map g xs)"
  using assms
proof (induction xs)
  case (Cons x xs)
  have "sum_list (map f xs) \<le> sum_list (map g xs)" using Cons.prems(1) by (intro sum_list_mono) simp
  moreover have "f x \<le> g x" using Cons.prems(1) by simp
  ultimately show ?case using Cons by (cases "u \<in> set xs") fastforce+
qed simp

text \<open>A running handler among the threads that matter brings the wait nearer to its end.\<close>

lemma handler_helps:
  assumes "acquiring t s" and "hpc s u \<noteq> Idle" and "u = t \<or> u \<in> set (to_visit (mpc s t) (live s))"
  shows "\<exists>s'. lock_step s s' \<and> acquiring t s' \<and> wait_rank t s' < wait_rank t s"
proof -
  obtain s' where s': "handler_step u s s'" "handler_rank (hpc s' u) < handler_rank (hpc s u)"
    "\<And>x. x \<noteq> u \<Longrightarrow> hpc s' x = hpc s x" "mpc s' = mpc s" "live s' = live s" "rounds s' = rounds s"
    using handler_advances [OF assms(2)] by blast
  let ?us = "to_visit (mpc s t) (live s)"
  have le: "handler_rank (hpc s' x) \<le> handler_rank (hpc s x)" for x using s'(2,3) by (cases "x = u") auto
  then have "sum_list (map (\<lambda>u. handler_rank (hpc s' u)) ?us) \<le> sum_list (map (\<lambda>u. handler_rank (hpc s u)) ?us)"
    by (intro sum_list_mono) simp
  moreover have "u \<in> set ?us \<Longrightarrow>
      sum_list (map (\<lambda>u. handler_rank (hpc s' u)) ?us) < sum_list (map (\<lambda>u. handler_rank (hpc s u)) ?us)"
    using le s'(2) by (intro sum_list_map_less [of _ _ _ u])
  ultimately have "wait_rank t s' < wait_rank t s"
    using assms(3) s'(2) le [of t] unfolding wait_rank_def s'(4,5) by fastforce
  moreover have "acquiring t s'" using assms(1) s'(4,6) by (simp add: acquiring_def stamps_left_def)
  ultimately show ?thesis using handler [OF s'(1)] by blast
qed

text \<open>With its own handler not running, the thread moves on or waits for a handler that runs.\<close>

lemma main_helps:
  assumes inv: "fresh_inv s" and a: "acquiring t s" and i: "hpc s t = Idle"
  shows "\<exists>s'. lock_step s s' \<and> (acquired_lock t s' \<or> acquiring t s' \<and> wait_rank t s' < wait_rank t s)"
proof -
  have b: "stamps_left s" using a by (simp add: acquiring_def)
  consider cur where "mpc s t = Locking cur" | cur where "mpc s t = Waiting cur []"
    | cur u us where "mpc s t = Waiting cur (u # us)"
    using a unfolding acquiring_def by (auto dest: list.exhaust) (metis neq_Nil_conv)
  then show ?thesis
  proof cases
    case 1
    have "u = t" if "mpc s u = Waiting c us" for u c us
      using lock_invD(1) [of s u t] inv that 1 by (simp add: fresh_inv_def holds_lock_def)
    then have "\<not> list_locked s" using 1 by (auto simp: list_locked_def)
    from main [OF i wait_start [OF 1 this]] show ?thesis
      by (rule_tac exI, rule conjI) (use b 1 in \<open>simp_all add: acquiring_def wait_rank_def stamps_left_def\<close>)
  next
    case 2
    from main [OF i acquired [OF 2]] show ?thesis by (rule_tac exI, rule conjI) (simp_all add: acquired_lock_def)
  next
    case (3 cur u us)
    show ?thesis
    proof (cases "TIMESTAMP_IS_ACTIVE (lts s u) \<and> TIMESTAMP (lts s u) \<noteq> cur")
      case True
      then have "hpc s u \<noteq> Idle" using fresh_invD(2) [OF inv b, of u] by (auto simp: handler_inv_def)
      then show ?thesis using handler_helps [OF a, of u] 3 by auto
    next
      case False
      then have "\<not> TIMESTAMP_IS_ACTIVE (lts s u) \<or> TIMESTAMP (lts s u) = cur" by blast
      from main [OF i wait_next [OF 3 this]] show ?thesis
        by (rule_tac exI, rule conjI) (use b 3 in \<open>simp_all add: acquiring_def wait_rank_def stamps_left_def\<close>)
    qed
  qed
qed

interpretation wait: step_progress lock_init lock_step fresh_inv "acquiring t" "acquired_lock t" "wait_rank t" for t
proof unfold_locales
  fix s assume s: "fresh_inv s" "acquiring t s"
  show "\<exists>s'. lock_step s s' \<and> (acquired_lock t s' \<or> acquiring t s' \<and> wait_rank t s' < wait_rank t s)"
  proof (cases "hpc s t = Idle")
    case False
    then show ?thesis using handler_helps [OF s(2)] by blast
  qed (rule main_helps [OF s])
qed

text \<open>
  (C31) Progress of the wait. From every reachable state in which a thread has won the compare-and-swap
  and waits for the helpers of earlier rounds, it can acquire the lock: there is no deadlock between the
  waiting thread, which cannot move while its own handler runs, and the handlers.
\<close>

theorem waiting_can_acquire:
  assumes "reachable lock_init lock_step s" and "rounds s + 1 < 2 ^ 63"
    and "mpc s t = Locking cur \<or> mpc s t = Waiting cur us"
  shows "\<exists>s'. lock_step\<^sup>*\<^sup>* s s' \<and> mpc s' t = Critical"
proof -
  have "acquiring t s" using assms(2,3) by (auto simp: acquiring_def stamps_left_def)
  from wait.goal_met [OF fresh.inv_reachable [OF assms(1)] this] show ?thesis by (simp add: acquired_lock_def)
qed


subsection \<open>The functions of the code as runs\<close>

text \<open>The timestamps in the state of the sequential model, with the places of the threads added.\<close>

definition view :: "(size_t \<Rightarrow> handler_pc) \<Rightarrow> (size_t \<Rightarrow> main_pc) \<Rightarrow> size_t list \<Rightarrow> nat \<Rightarrow> 'o proc_state \<Rightarrow> lock_state" where
  "view h m ls n p =
     \<lparr>gts = global_timestamp p,
      lts = (\<lambda>t. case tds p t of Some r \<Rightarrow> local_timestamp r | None \<Rightarrow> 0),
      twu = (\<lambda>t. case tds p t of Some r \<Rightarrow> times_without_update r | None \<Rightarrow> 0),
      hpc = h, mpc = m, live = ls, rounds = n\<rparr>"

lemma raise_flag_run:
  assumes t: "tds p me = Some t" "me \<noteq> 0" and h: "h me = Idle"
    and p': "threadscan_thread_cleanup_raise_flag dbg me p = Inr p'"
  shows "lock_step\<^sup>*\<^sup>* (view h m ls n p) (view (h(me := Helping)) m ls n p')"
proof -
  let ?s0 = "view h m ls n p"
  let ?old = "local_timestamp t"
  let ?s1 = "?s0\<lparr>lts := (lts ?s0)(me := TIMESTAMP_RAISE_FLAG ?old), hpc := h(me := Raised ?old)\<rparr>"
  let ?s2 = "?s1\<lparr>hpc := h(me := Seen ?old (global_timestamp p))\<rparr>"
  have "lock_step ?s0 ?s1" using handler [OF raise_first [of ?s0 me]] h t by (simp add: view_def)
  moreover have "lock_step ?s1 ?s2" using handler [OF raise_read [of ?s1 me ?old]] by (simp add: view_def)
  moreover have "lock_step ?s2 (view (h(me := Helping)) m ls n p')"
  proof -
    have "p' = p\<lparr>tds := (tds p)(me \<mapsto> raised_td (global_timestamp p) t)\<rparr>"
      using raise_flag_eq [OF t, of dbg] p' by simp
    then have "view (h(me := Helping)) m ls n p' =
        ?s2\<lparr>lts := (lts ?s2)(me := TIMESTAMP_RAISE_FLAG (global_timestamp p)),
          twu := (twu ?s2)(me := next_twu ?old (global_timestamp p) (twu ?s2 me)), hpc := (hpc ?s2)(me := Helping)\<rparr>"
      by (auto simp: view_def raised_td_def next_twu_def t fun_eq_iff)
    then show ?thesis using handler [OF raise_second [of ?s2 me ?old "global_timestamp p"]] by simp
  qed
  ultimately show ?thesis by (meson rtranclp.intros)
qed

lemma lower_flag_run:
  assumes t: "tds p me = Some t" and h: "h me = Helping" and p': "threadscan_thread_cleanup_lower_flag me p = Inr p'"
  shows "lock_step\<^sup>*\<^sup>* (view h m ls n p) (view (h(me := Idle)) m ls n p')"
proof -
  let ?s = "view h m ls n p"
  have "view (h(me := Idle)) m ls n p' = ?s\<lparr>lts := (lts ?s)(me := TIMESTAMP (lts ?s me)), hpc := (hpc ?s)(me := Idle)\<rparr>"
    using p' t by (auto simp: threadscan_thread_cleanup_lower_flag_def view_def fun_eq_iff)
  then show ?thesis using handler [OF lower [of ?s me]] h by (auto simp: view_def)
qed

text \<open>The walk over the list, when no thread of it helps an earlier round.\<close>

lemma wait_run:
  assumes "mpc s t = Waiting cur us" and "hpc s t = Idle"
    and "\<And>u. u \<in> set us \<Longrightarrow> \<not> TIMESTAMP_IS_ACTIVE (lts s u) \<or> TIMESTAMP (lts s u) = cur"
  shows "lock_step\<^sup>*\<^sup>* s (s\<lparr>mpc := (mpc s)(t := Critical)\<rparr>)"
  using assms
proof (induction us arbitrary: s)
  case Nil
  then show ?case using main [OF _ acquired [of s t cur]] by blast
next
  case (Cons u us)
  let ?s = "s\<lparr>mpc := (mpc s)(t := Waiting cur us)\<rparr>"
  have "lock_step s ?s" using main [OF _ wait_next [of s t cur u us]] Cons.prems by simp
  moreover have "lock_step\<^sup>*\<^sup>* ?s (?s\<lparr>mpc := (mpc ?s)(t := Critical)\<rparr>)"
    by (rule Cons.IH) (use Cons.prems in auto)
  moreover have "?s\<lparr>mpc := (mpc ?s)(t := Critical)\<rparr> = s\<lparr>mpc := (mpc s)(t := Critical)\<rparr>" by simp
  ultimately show ?case by (metis converse_rtranclp_into_rtranclp)
qed

lemma try_acquire_run:
  assumes l: "lists p ls ss" and h: "h me = Idle" and m: "m me = Outside" "\<And>u cur us. m u \<noteq> Waiting cur us"
    and p': "threadscan_thread_cleanup_try_acquire p = Inr (got, p')"
  shows "lock_step\<^sup>*\<^sup>* (view h m ls n p) (if got then view h (m(me := Critical)) ls (n + 1) p' else view h m ls n p')"
proof (cases "TIMESTAMP_IS_ACTIVE (global_timestamp p)")
  case True
  then show ?thesis using p' by (auto simp: threadscan_thread_cleanup_try_acquire_def)
next
  case False
  let ?a = "TIMESTAMP_SET_ACTIVE (global_timestamp p + 1)"
  let ?p = "p\<lparr>global_timestamp := ?a\<rparr>"
  have l': "lists ?p ls ss" by (rule lists_cong [OF l]) simp_all
  have w: "\<not> (\<exists>td \<in> set ls. TIMESTAMP_IS_ACTIVE (local_timestamp (the (tds p td))) \<and>
      TIMESTAMP (local_timestamp (the (tds p td))) \<noteq> TIMESTAMP ?a)" "got" "p' = ?p"
    using p' False wait_for_timestamp_exact [OF l', of "TIMESTAMP ?a"]
    by (auto simp: threadscan_thread_cleanup_try_acquire_def Let_def split: if_splits)
  let ?s0 = "view h m ls n p"
  let ?s1 = "?s0\<lparr>mpc := m(me := Trying (global_timestamp p))\<rparr>"
  let ?s2 = "view h (m(me := Locking (TIMESTAMP ?a))) ls (n + 1) ?p"
  let ?s3 = "view h (m(me := Waiting (TIMESTAMP ?a) ls)) ls (n + 1) ?p"
  have "lock_step ?s0 ?s1" using main [OF _ try_free [of ?s0 me]] h m(1) False by (simp add: view_def)
  moreover have "lock_step ?s1 ?s2" using main [OF _ cas_ok [of ?s1 me "global_timestamp p" ?a]] h by (simp add: view_def)
  moreover have "lock_step ?s2 ?s3"
    using main [OF _ wait_start [of ?s2 me "TIMESTAMP ?a"]] h m(2) by (simp add: view_def list_locked_def)
  moreover have "lock_step\<^sup>*\<^sup>* ?s3 (?s3\<lparr>mpc := (mpc ?s3)(me := Critical)\<rparr>)"
  proof (rule wait_run [of _ _ "TIMESTAMP ?a" ls])
    fix u assume u: "u \<in> set ls"
    then obtain r where "tds p u = Some r" using lists_SomeD [OF l] by blast
    then show "\<not> TIMESTAMP_IS_ACTIVE (lts ?s3 u) \<or> TIMESTAMP (lts ?s3 u) = TIMESTAMP ?a"
      using w(1) u by (force simp: view_def)
  qed (simp_all add: view_def h)
  moreover have "?s3\<lparr>mpc := (mpc ?s3)(me := Critical)\<rparr> = view h (m(me := Critical)) ls (n + 1) p'"
    by (simp add: view_def w(3))
  ultimately show ?thesis using w(2) by (simp del: fun_upd_apply)
qed

lemma release_run:
  assumes "h me = Idle" and "m me = Critical"
  shows "lock_step\<^sup>*\<^sup>* (view h m ls n p) (view h (m(me := Outside)) ls n (threadscan_thread_cleanup_release p))"
proof -
  let ?s0 = "view h m ls n p"
  let ?s1 = "?s0\<lparr>mpc := m(me := Releasing (global_timestamp p))\<rparr>"
  have "lock_step ?s0 ?s1" using main [OF _ release_read [of ?s0 me]] assms by (simp add: view_def)
  moreover have "lock_step ?s1 (view h (m(me := Outside)) ls n (threadscan_thread_cleanup_release p))"
    using main [OF _ release [of ?s1 me "global_timestamp p"]] assms(1)
    by (simp add: view_def threadscan_thread_cleanup_release_def)
  ultimately show ?thesis by (meson rtranclp.intros)
qed

text \<open>
  (C32) Refinement. What the functions of \<^verbatim>\<open>thread.c\<close> do when nothing else runs, which is how the rest of this
  development uses them, are runs of the step relation: raising and lowering the flag, trying for the
  lock, with either result, and releasing it.
\<close>

theorem lock_functions_are_runs:
  assumes "lists p ls ss" and "me \<in> set ls" and "h me = Idle" and "m me = Outside" and "\<forall>u cur us. m u \<noteq> Waiting cur us"
    and "threadscan_thread_cleanup_raise_flag dbg me p = Inr p1" and "threadscan_thread_cleanup_lower_flag me p1 = Inr p2"
    and "threadscan_thread_cleanup_try_acquire p = Inr (got, p3)"
  shows "lock_step\<^sup>*\<^sup>* (view h m ls n p) (view (h(me := Helping)) m ls n p1) \<and>
    lock_step\<^sup>*\<^sup>* (view (h(me := Helping)) m ls n p1) (view h m ls n p2) \<and>
    lock_step\<^sup>*\<^sup>* (view h m ls n p) (if got then view h (m(me := Critical)) ls (n + 1) p3 else view h m ls n p3) \<and>
    lock_step\<^sup>*\<^sup>* (view h (m(me := Critical)) ls n p) (view h m ls n (threadscan_thread_cleanup_release p))"
proof -
  obtain t where t: "tds p me = Some t" using lists_SomeD [OF assms(1)] assms(2) by blast
  have me: "me \<noteq> 0" using assms(1,2) by (auto simp: lists_def dest: path_nonzero)
  have t1: "tds p1 me = Some (raised_td (global_timestamp p) t)"
    using assms(6) raise_flag_eq [where s = p, OF t me, of dbg] by auto
  have idle: "h(me := Helping, me := Idle) = h" "m(me := Critical, me := Outside) = m" using assms(3,4) by auto
  show ?thesis
    using raise_flag_run [OF t me, of h dbg p1] lower_flag_run [OF t1, of "h(me := Helping)" p2] assms(3,4,6-8)
      try_acquire_run [OF assms(1), of h me m got p3] release_run [of h me "m(me := Critical)" ls n p] assms(5)
    unfolding idle by simp
qed

theorem lock_functions_are_runs_witness:
  "\<exists>(p1 :: simple_os proc_state) (p2 :: simple_os proc_state) (p3 :: simple_os proc_state).
    lock_step\<^sup>*\<^sup>* (view (\<lambda>_. Idle) (\<lambda>_. Outside) [0x5000] 0 example_proc)
      (view ((\<lambda>_. Idle)(0x5000 := Helping)) (\<lambda>_. Outside) [0x5000] 0 p1) \<and>
    lock_step\<^sup>*\<^sup>* (view ((\<lambda>_. Idle)(0x5000 := Helping)) (\<lambda>_. Outside) [0x5000] 0 p1)
      (view (\<lambda>_. Idle) (\<lambda>_. Outside) [0x5000] 0 p2) \<and>
    lock_step\<^sup>*\<^sup>* (view (\<lambda>_. Idle) (\<lambda>_. Outside) [0x5000] 0 example_proc)
      (view (\<lambda>_. Idle) ((\<lambda>_. Outside)(0x5000 := Critical)) [0x5000] 1 p3) \<and>
    lock_step\<^sup>*\<^sup>* (view (\<lambda>_. Idle) ((\<lambda>_. Outside)(0x5000 := Critical)) [0x5000] 0 example_proc)
      (view (\<lambda>_. Idle) (\<lambda>_. Outside) [0x5000] 0 (threadscan_thread_cleanup_release example_proc))"
proof -
  have t: "tds example_proc 0x5000 = Some example_td" by (simp add: example_proc_def)
  obtain p1 where p1: "threadscan_thread_cleanup_raise_flag True 0x5000 example_proc = Inr p1"
    "tds p1 0x5000 = Some (raised_td (global_timestamp example_proc) example_td)"
    using raise_flag_eq [OF t, of True] by simp
  obtain p2 where p2: "threadscan_thread_cleanup_lower_flag 0x5000 p1 = Inr p2"
    using p1(2) by (simp add: threadscan_thread_cleanup_lower_flag_def)
  have "lists (example_proc\<lparr>global_timestamp := TIMESTAMP_SET_ACTIVE 2\<rparr>) [0x5000] []"
    by (rule lists_cong [OF example_proc_lists]) simp_all
  from wait_for_timestamp_exact [OF this, of "TIMESTAMP (TIMESTAMP_SET_ACTIVE 2)"]
  have p3: "threadscan_thread_cleanup_try_acquire example_proc =
      Inr (True, example_proc\<lparr>global_timestamp := TIMESTAMP_SET_ACTIVE 2\<rparr>)"
    by (simp add: threadscan_thread_cleanup_try_acquire_def example_proc_def example_td_def zero_td_def flag_bit)
  show ?thesis
    by (rule exI [of _ p1], rule exI [of _ p2], rule exI [of _ "example_proc\<lparr>global_timestamp := TIMESTAMP_SET_ACTIVE 2\<rparr>"])
       (use lock_functions_are_runs [OF example_proc_lists _ _ _ _ p1(1) p2 p3, of "\<lambda>_. Idle" "\<lambda>_. Outside" 0]
        in \<open>simp del: fun_upd_apply\<close>)
qed

subsection \<open>An example\<close>

text \<open>
  Two threads, 1 and 2. Thread 1 acquires the lock, then the handler of thread 2 raises its flag.
\<close>

definition lock_start :: lock_state where
  "lock_start = \<lparr>gts = 1, lts = (\<lambda>_. 0), twu = (\<lambda>_. 0), hpc = (\<lambda>_. Idle), mpc = (\<lambda>_. Outside), live = [1, 2], rounds = 0\<rparr>"

definition won :: size_t where
  "won = TIMESTAMP_SET_ACTIVE (1 + 1)"

definition lock_won :: lock_state where
  "lock_won = lock_start\<lparr>gts := won, mpc := (\<lambda>_. Outside)(1 := Locking (TIMESTAMP won)), rounds := 1\<rparr>"

definition lock_example :: lock_state where
  "lock_example = lock_won\<lparr>mpc := (\<lambda>_. Outside)(1 := Critical), lts := (\<lambda>_. 0)(2 := TIMESTAMP_RAISE_FLAG won),
     hpc := (\<lambda>_. Idle)(2 := Helping)\<rparr>"

lemma lock_won_reachable: "reachable lock_init lock_step lock_won"
proof -
  let ?s1 = "lock_start\<lparr>mpc := (\<lambda>_. Outside)(1 := Trying 1)\<rparr>"
  have "reachable lock_init lock_step lock_start"
    by (rule reachable_init) (simp add: lock_init_def lock_start_def)
  moreover have "lock_step lock_start ?s1"
    using main [OF _ try_free [of lock_start 1]] by (simp add: lock_start_def TIMESTAMP_IS_ACTIVE_def)
  moreover have "lock_step ?s1 lock_won"
    using main [OF _ cas_ok [of ?s1 1 1 won]] by (simp add: lock_won_def lock_start_def won_def)
  ultimately show ?thesis by (blast intro: reachable_step)
qed

lemma lock_example_reachable: "reachable lock_init lock_step lock_example"
proof -
  let ?s3 = "lock_won\<lparr>mpc := (\<lambda>_. Outside)(1 := Waiting (TIMESTAMP won) [1, 2])\<rparr>"
  let ?s4 = "lock_won\<lparr>mpc := (\<lambda>_. Outside)(1 := Critical)\<rparr>"
  let ?s5 = "?s4\<lparr>lts := (\<lambda>_. 0)(2 := TIMESTAMP_RAISE_FLAG 0), hpc := (\<lambda>_. Idle)(2 := Raised 0)\<rparr>"
  let ?s6 = "?s5\<lparr>hpc := (\<lambda>_. Idle)(2 := Seen 0 won)\<rparr>"
  have "lock_step lock_won ?s3"
    using main [OF _ wait_start [of lock_won 1 "TIMESTAMP won"]] by (simp add: lock_won_def lock_start_def list_locked_def)
  moreover have "lock_step\<^sup>*\<^sup>* ?s3 ?s4"
    using wait_run [of ?s3 1 "TIMESTAMP won" "[1, 2]"] by (simp add: lock_won_def lock_start_def flag_bit)
  moreover have "lock_step ?s4 ?s5"
    using handler [OF raise_first [of ?s4 2]] by (simp add: lock_won_def lock_start_def)
  moreover have "lock_step ?s5 ?s6"
    using handler [OF raise_read [of ?s5 2 0]] by (simp add: lock_won_def lock_start_def)
  moreover have "lock_step ?s6 lock_example"
  proof -
    have "next_twu 0 won 0 = 0" by (simp add: next_twu_def won_def TIMESTAMP_SET_ACTIVE_def TIMESTAMP_def)
    then show ?thesis using handler [OF raise_second [of ?s6 2 0 won]]
      by (simp add: lock_example_def lock_won_def lock_start_def fun_upd_idem)
  qed
  ultimately have "lock_step\<^sup>*\<^sup>* lock_won lock_example"
    by (meson converse_rtranclp_into_rtranclp rtranclp.rtrancl_into_rtrancl)
  then show ?thesis using lock_won_reachable by (rule reachable_steps)
qed

theorem reclaimer_exclusive_witness: "{t. holds_lock lock_example t} = {1}"
proof -
  have "holds_lock lock_example 1" by (simp add: holds_lock_def lock_example_def)
  then show ?thesis using reclaimer_exclusive [OF lock_example_reachable] by blast
qed

theorem helpers_are_current_witness:
  "TIMESTAMP_IS_ACTIVE (lts lock_example 2) \<and> TIMESTAMP (lts lock_example 2) = TIMESTAMP (gts lock_example)"
  by (rule helpers_are_current [OF lock_example_reachable, of 1])
     (simp_all add: lock_example_def lock_won_def lock_start_def)

theorem waiting_can_acquire_witness: "\<exists>s'. lock_step\<^sup>*\<^sup>* lock_won s' \<and> mpc s' 1 = Critical"
  by (rule waiting_can_acquire [OF lock_won_reachable, of 1 "TIMESTAMP won"])
     (simp_all add: lock_won_def)

end
