(* ===== verification/TS_Marking.thy ===== *)
theory TS_Marking
  imports TS_Steps TS_Search
begin

text \<open>
  The scan with all threads at work at once. The code of \<open>TS_Search\<close> is written again as programs whose
  only effects are single reads and writes of the shared working buffer, and the programs of the threads
  interleave at every access. \<^verbatim>\<open>SET_LOW_BIT\<close> is a read and a write that other threads may come between.

  Run alone, the programs do what the functions of \<open>TS_Search\<close> do (\<open>run_search_word\<close>); run together, in
  any order, they leave the same buffer as one after the other (\<open>concurrent_scan_exact\<close>), and they always
  come to an end (\<open>concurrent_scan_ends\<close>).
\<close>

subsection \<open>Programs\<close>

text \<open>The words that a thread scans are its own; only the working buffer is shared.\<close>

datatype 'r prog = Ret 'r | Fail fault | Read int "size_t \<Rightarrow> 'r prog" | Write int size_t "'r prog"

primrec bindP :: "'r prog \<Rightarrow> ('r \<Rightarrow> 's prog) \<Rightarrow> 's prog" where
  "bindP (Ret r) f = f r"
| "bindP (Fail e) f = Fail e"
| "bindP (Read i k) f = Read i (\<lambda>v. bindP (k v) f)"
| "bindP (Write i v p) f = Write i v (bindP p f)"

definition assertP :: "bool \<Rightarrow> bool \<Rightarrow> unit prog" where
  "assertP dbg P = (if dbg \<and> \<not> P then Fail Assert_failed else Ret ())"

text \<open>A program that runs alone.\<close>

primrec run :: "'r prog \<Rightarrow> size_t list \<Rightarrow> ('r \<times> size_t list) res" where
  "run (Ret r) a = Inr (r, a)"
| "run (Fail e) a = Inl e"
| "run (Read i k) a = bindE (rd a i) (\<lambda>v. run (k v) a)"
| "run (Write i v p) a = bindE (wr a i v) (run p)"

subsection \<open>The code, access by access\<close>

definition SET_LOW_BIT_P :: "int \<Rightarrow> unit prog" where
  "SET_LOW_BIT_P i = Read i (\<lambda>v. if v AND 1 = 0 then Write i (v + 1) (Ret ()) else Ret ())"

text \<open>The searches look at the part of the buffer that begins at index \<open>so\<close>.\<close>

function iterative_loop_P :: "size_t \<Rightarrow> int \<Rightarrow> int \<Rightarrow> int \<Rightarrow> int prog" where
  "iterative_loop_P val so mn mx =
     (if mn < mx then
        Read (so + mn) (\<lambda>cmp.
        if cmp = val then Ret mn
        else if cmp > val then Ret (mn - 1)
        else iterative_loop_P val so (mn + 1) mx)
      else Ret (mn - 1))"
  by pat_completeness auto
termination
  by (relation "measure (\<lambda>(_, _, mn, mx). nat (mx - mn))") auto

declare iterative_loop_P.simps [simp del]

definition iterative_search_P :: "size_t \<Rightarrow> int \<Rightarrow> int \<Rightarrow> int \<Rightarrow> int prog" where
  "iterative_search_P val so mn mx =
     Read (so + mn) (\<lambda>v. if v > val \<or> mn = mx then Ret mn else iterative_loop_P val so mn mx)"

function binary_search_P :: "size_t \<Rightarrow> int \<Rightarrow> int \<Rightarrow> int \<Rightarrow> int prog" where
  "binary_search_P val so mn mx =
     (if mx - mn \<ge> BINARY_THRESHOLD then
        let mid = (mx + mn) sdiv 2 in
        Read (so + mid) (\<lambda>cmp.
        if cmp = val then Ret mid
        else if cmp > val then binary_search_P val so mn mid
        else binary_search_P val so mid mx)
      else iterative_search_P val so mn mx)"
  by pat_completeness auto
termination
  by (relation "measure (\<lambda>(_, _, mn, mx). nat (mx - mn))") (auto dest!: middle_between)

declare binary_search_P.simps [simp del]

text \<open>The end of the treatment of a word, when the search has led to index \<open>loc\<close>.\<close>

definition mark_found_P :: "bool \<Rightarrow> threadscan_data \<Rightarrow> size_t \<Rightarrow> int \<Rightarrow> unit prog" where
  "mark_found_P dbg ts cmp loc =
     Read loc (\<lambda>x.
     if x = cmp then SET_LOW_BIT_P loc
     else if dbg then
       bindP (binary_search_P cmp 0 0 (n_addrs ts)) (\<lambda>loc2.
       Read loc2 (\<lambda>y. assertP dbg (y \<noteq> cmp)))
     else Ret ())"

definition search_word_P :: "bool \<Rightarrow> threadscan_data \<Rightarrow> size_t \<Rightarrow> size_t \<Rightarrow> size_t \<Rightarrow> unit prog" where
  "search_word_P dbg ts min_ptr max_ptr w =
     (let cmp = PTR_MASK w in
      if cmp < min_ptr \<or> cmp > max_ptr then Ret ()
      else if min_ptr = cmp then SET_LOW_BIT_P 0
      else if max_ptr = cmp then SET_LOW_BIT_P (n_addrs ts - 1)
      else
        bindP (binary_search_P cmp (scan_map_index ts) 0 (n_scan_map ts)) (\<lambda>v.
        bindP (binary_search_P cmp 0 (v * page_elems)
                 (if v = n_scan_map ts - 1 then n_addrs ts else (v + 1) * page_elems))
          (mark_found_P dbg ts cmp)))"

fun search_words_P :: "bool \<Rightarrow> threadscan_data \<Rightarrow> size_t \<Rightarrow> size_t \<Rightarrow> size_t list \<Rightarrow> unit prog" where
  "search_words_P dbg ts min_ptr max_ptr [] = Ret ()"
| "search_words_P dbg ts min_ptr max_ptr (w # ws) =
     bindP (search_word_P dbg ts min_ptr max_ptr w) (\<lambda>_. search_words_P dbg ts min_ptr max_ptr ws)"

definition do_search_P :: "bool \<Rightarrow> threadscan_data \<Rightarrow> size_t list \<Rightarrow> unit prog" where
  "do_search_P dbg ts ws =
     Read 0 (\<lambda>min_ptr.
     Read (n_addrs ts - 1) (\<lambda>max_ptr.
     bindP (assertP dbg (min_ptr \<le> max_ptr)) (\<lambda>_.
     search_words_P dbg ts min_ptr max_ptr ws)))"

text \<open>The check of a debug build at the beginning of \<^verbatim>\<open>search_range\<close>.\<close>

function monotonicity_loop_P :: "int \<Rightarrow> size_t \<Rightarrow> int \<Rightarrow> unit prog" where
  "monotonicity_loop_P n prev i =
     (if i < n then
        Read i (\<lambda>v.
        if v \<le> prev then Fail (Fatal ''The list is not monotonic'')
        else monotonicity_loop_P n v (i + 1))
      else Ret ())"
  by pat_completeness auto
termination
  by (relation "measure (\<lambda>(n, _, i). nat (n - i))") auto

declare monotonicity_loop_P.simps [simp del]

definition search_range_P :: "bool \<Rightarrow> threadscan_data \<Rightarrow> size_t list \<Rightarrow> unit prog" where
  "search_range_P dbg ts ws =
     bindP (if dbg then monotonicity_loop_P (n_addrs ts) 0 0 else Ret ()) (\<lambda>_. do_search_P dbg ts ws)"

text \<open>A thread scans its stack and, if it has registered one, its local block: a list of ranges.\<close>

fun scan_P :: "bool \<Rightarrow> threadscan_data \<Rightarrow> size_t list list \<Rightarrow> unit prog" where
  "scan_P dbg ts [] = Ret ()"
| "scan_P dbg ts (ws # rs) = bindP (search_range_P dbg ts ws) (\<lambda>_. scan_P dbg ts rs)"

subsection \<open>Running alone\<close>

lemma run_Ret: "run (Ret r) = (\<lambda>a. Inr (r, a))"
  by (rule ext) simp

lemma run_bindP: "run (bindP p f) a = bindE (run p a) (\<lambda>(r, a). run (f r) a)"
  by (induction p arbitrary: a) (auto simp: bindE_assoc bindE_def split: sum.splits)

lemma run_assertP: "run (assertP dbg P) a = bindE (c_assert dbg P) (\<lambda>_. Inr ((), a))"
  by (simp add: assertP_def c_assert_def)

lemma rd_drop: "0 \<le> so \<Longrightarrow> 0 \<le> i \<Longrightarrow> nat so \<le> length a \<Longrightarrow> rd (drop (nat so) a) i = rd a (so + i)"
  by (auto simp: rd_def nat_add_distrib)

lemma run_iterative_loop:
  assumes "0 \<le> so" and "nat so \<le> length a" and "0 \<le> mn"
  shows "run (iterative_loop_P val so mn mx) a = bindE (iterative_loop val (drop (nat so) a) mn mx) (\<lambda>r. Inr (r, a))"
  using assms(3,1,2)
proof (induction val so mn mx rule: iterative_loop_P.induct)
  case (1 val so mn mx)
  have r: "rd (drop (nat so) a) mn = rd a (so + mn)" by (rule rd_drop) (use 1 in auto)
  show ?case
  proof (cases "mn < mx")
    case True
    show ?thesis
      by (subst iterative_loop_P.simps, subst iterative_loop.simps, cases "rd a (so + mn)")
         (use True 1 in \<open>simp_all add: r\<close>)
  qed (subst iterative_loop_P.simps, subst iterative_loop.simps, simp)
qed

lemma run_iterative_search:
  assumes "0 \<le> so" and "nat so \<le> length a" and "0 \<le> mn"
  shows "run (iterative_search_P val so mn mx) a = bindE (iterative_search val (drop (nat so) a) mn mx) (\<lambda>r. Inr (r, a))"
  using rd_drop [OF assms(1,3,2)] run_iterative_loop [OF assms, of val mx]
  by (cases "rd a (so + mn)") (simp_all add: iterative_search_P_def iterative_search_def)

lemma run_binary_search:
  assumes "0 \<le> so" and "nat so \<le> length a" and "0 \<le> mn"
  shows "run (binary_search_P val so mn mx) a = bindE (binary_search val (drop (nat so) a) mn mx) (\<lambda>r. Inr (r, a))"
  using assms(3,1,2)
proof (induction val so mn mx rule: binary_search_P.induct)
  case (1 val so mn mx)
  show ?case
  proof (cases "BINARY_THRESHOLD \<le> mx - mn")
    case True
    let ?mid = "(mx + mn) sdiv 2"
    have mid: "0 \<le> ?mid" using middle_between [OF True] 1(3) by simp
    have r: "rd (drop (nat so) a) ?mid = rd a (so + ?mid)" by (rule rd_drop [OF 1(4) mid 1(5)])
    show ?thesis
      by (subst binary_search_P.simps, subst binary_search.simps, cases "rd a (so + ?mid)")
         (use True 1 mid in \<open>simp_all add: r Let_def\<close>)
  next
    case False
    then show ?thesis using run_iterative_search [OF 1(4,5,3)]
      by (subst binary_search_P.simps, subst binary_search.simps) simp
  qed
qed

lemma run_SET_LOW_BIT: "run (SET_LOW_BIT_P i) a = bindE (SET_LOW_BIT a i) (\<lambda>a. Inr ((), a))"
  by (cases "rd a i") (simp_all add: run_Ret SET_LOW_BIT_P_def SET_LOW_BIT_def)

text \<open>One word, when the scan map lies inside the buffer and the search of it returns a page.\<close>

lemma run_search_word:
  assumes so: "0 \<le> scan_map_index ts" "nat (scan_map_index ts) \<le> length a"
    and v: "\<And>c v. binary_search c (drop (nat (scan_map_index ts)) a) 0 (n_scan_map ts) = Inr v \<Longrightarrow> 0 \<le> v"
  shows "run (search_word_P dbg ts mn mx w) a = bindE (search_word dbg ts mn mx a w) (\<lambda>a. Inr ((), a))"
proof -
  define c where "c = PTR_MASK w"
  note search = run_binary_search [OF so, of 0] run_binary_search [of 0 a]
  have tail: "run (mark_found_P dbg ts c loc) a =
      bindE (rd a loc) (\<lambda>x.
        bindE (if x = c then SET_LOW_BIT a loc
        else if dbg then
          bindE (binary_search c a 0 (n_addrs ts)) (\<lambda>loc2.
          bindE (rd a loc2) (\<lambda>y.
          bindE (c_assert dbg (y \<noteq> c)) (\<lambda>_. Inr a)))
        else Inr a) (\<lambda>a. Inr ((), a)))" for loc
    by (cases "rd a loc") (simp_all add: mark_found_P_def run_SET_LOW_BIT run_bindP search bindE_assoc run_assertP)
  show ?thesis
  proof (cases "c < mn \<or> mx < c \<or> mn = c \<or> mx = c")
    case True
    then show ?thesis
      unfolding search_word_P_def search_word_def Let_def c_def [symmetric] by (auto simp: run_SET_LOW_BIT)
  next
    case False
    then show ?thesis
      unfolding search_word_P_def search_word_def Let_def c_def [symmetric]
      using v [of c]
      by (cases "binary_search c (drop (nat (scan_map_index ts)) a) 0 (n_scan_map ts)")
         (simp_all add: run_bindP search bindE_assoc tail)
  qed
qed

text \<open>The searches return no index before the range.\<close>

lemma iterative_loop_ge: "iterative_loop val a mn mx = Inr r \<Longrightarrow> mn - 1 \<le> r"
proof (induction val a mn mx rule: iterative_loop.induct)
  case (1 val a mn mx)
  then show ?case
    by (subst (asm) (2) iterative_loop.simps) (fastforce simp: bindE_Inr_iff split: if_splits)
qed

lemma binary_search_ge:
  assumes "binary_search val a mn mx = Inr r" and "mn \<le> mx"
  shows "mn \<le> r"
  using assms
proof (induction val a mn mx rule: binary_search.induct)
  case (1 val a mn mx)
  show ?case
  proof (cases "BINARY_THRESHOLD \<le> mx - mn")
    case True
    let ?mid = "(mx + mn) sdiv 2"
    have mid: "mn < ?mid" "?mid < mx" using middle_between [OF True] by simp_all
    obtain v where v: "rd a ?mid = Inr v" using 1(3) True
      by (subst (asm) binary_search.simps) (auto simp: Let_def bindE_Inr_iff)
    show ?thesis
      using 1(1) [OF True refl v] 1(2) [OF True refl v] 1(3) True mid v
      by (subst (asm) (3) binary_search.simps) (auto simp: Let_def split: if_splits)
  next
    case False
    obtain v where v: "rd a mn = Inr v" using 1(3) False
      by (subst (asm) binary_search.simps) (auto simp: iterative_search_def bindE_Inr_iff)
    show ?thesis
    proof (cases "v > val \<or> mn = mx")
      case True
      then show ?thesis using 1(3) False v by (subst (asm) binary_search.simps) (auto simp: iterative_search_def)
    next
      case more: False
      then have "iterative_loop val a mn mx = Inr r" "mn < mx" using 1(3,4) False v
        by (subst (asm) binary_search.simps; simp add: iterative_search_def)+
      then have "r = mn \<or> iterative_loop val a (mn + 1) mx = Inr r"
        using more v by (subst (asm) iterative_loop.simps) (auto split: if_splits)
      then show ?thesis using iterative_loop_ge by fastforce
    qed
  qed
qed

text \<open>The scan of a range, under the conditions in which it is used.\<close>

lemma run_search_words:
  assumes xs: "addr_list xs" "xs \<noteq> []"
    and mn: "mn = mark (0 \<in> S0) (xs ! 0)" and mx: "mx = mark (length xs - 1 \<in> S0) (xs ! (length xs - 1))"
  shows "map_ready ts xs a \<Longrightarrow> marking xs S a \<Longrightarrow> S0 \<subseteq> S \<Longrightarrow> words_at um p n = Inr ws \<Longrightarrow>
    run (search_words_P dbg ts mn mx ws) a = bindE (do_search_loop dbg ts mn mx um n p a) (\<lambda>a. Inr ((), a))"
proof (induction n arbitrary: p a S ws)
  case (Suc n)
  from Suc.prems(4) obtain w ws' where w: "load um p = Inr w" and ws': "words_at um (p + 8) n = Inr ws'" "ws = w # ws'"
    by (auto simp: bindE_Inr_iff)
  from search_word_correct [OF xs Suc.prems(1,2) mn mx Suc.prems(3)] obtain b where
    b: "search_word dbg ts mn mx a w = Inr b" "scanned xs a (S \<union> hits xs (PTR_MASK w)) b"
    by (rule returnsE)
  have "0 \<le> scan_map_index ts" "nat (scan_map_index ts) \<le> length a" "0 \<le> n_scan_map ts"
    using Suc.prems(1) by (simp_all add: map_ready_def)
  then have "run (search_word_P dbg ts mn mx w) a = Inr ((), b)"
    using run_search_word [of ts a dbg mn mx w] binary_search_ge b(1) by fastforce
  moreover have "run (search_words_P dbg ts mn mx ws') b =
      bindE (do_search_loop dbg ts mn mx um n (p + 8) b) (\<lambda>a. Inr ((), a))"
    using b(2) Suc.prems(1,3) ws'(1)
    by (intro Suc.IH [of b "S \<union> hits xs (PTR_MASK w)"]) (auto simp: scanned_def intro: scanned_ready [OF b(2)])
  ultimately show ?case by (simp add: w ws'(2) b(1) run_bindP)
qed simp

lemma run_monotonicity_loop:
  "run (monotonicity_loop_P n prev i) a = bindE (assert_monotonicity_loop a n prev i) (\<lambda>_. Inr ((), a))"
proof (induction n prev i rule: monotonicity_loop_P.induct)
  case (1 n prev i)
  show ?case
    by (subst monotonicity_loop_P.simps, subst assert_monotonicity_loop.simps, cases "rd a i") (simp_all add: 1)
qed

lemma run_search_range:
  assumes xs: "addr_list xs" "xs \<noteq> []" and rdy: "map_ready ts xs a" and m: "marking xs S a"
    and ws: "words_at um (low r) (unat ((high r - low r) div 8)) = Inr ws"
  shows "run (search_range_P dbg ts ws) a = bindE (search_range dbg ts um r a) (\<lambda>a. Inr ((), a))"
proof -
  have mono: "run (if dbg then monotonicity_loop_P (n_addrs ts) 0 0 else Ret ()) a =
      bindE (assert_monotonicity dbg a (n_addrs ts)) (\<lambda>_. Inr ((), a))"
    by (simp add: assert_monotonicity_def run_monotonicity_loop)
  have first: "0 < length xs" using xs(2) by simp
  have n: "n_addrs ts - 1 = int (length xs - 1)" using rdy xs(2) by (cases xs; simp add: map_ready_def)
  have rds: "rd a 0 = Inr (mark (0 \<in> S) (xs ! 0))"
    "rd a (n_addrs ts - 1) = Inr (mark (length xs - 1 \<in> S) (xs ! (length xs - 1)))"
    using marking_rd [OF m, of 0] first by (simp, unfold n, intro marking_rd [OF m]) simp
  show ?thesis
    using run_search_words [OF xs refl refl rdy m order_refl ws, of dbg]
    by (simp add: search_range_P_def search_range_def run_bindP mono bindE_assoc do_search_P_def do_search_def rds run_assertP)
qed

subsection \<open>Running among others\<close>

text \<open>
  \<open>safe xs a0 S Q p K\<close>: the program \<open>p\<close>, run in a buffer that holds the addresses \<open>xs\<close> and beyond them what
  \<open>a0\<close> holds, never faults, writes nothing but the marks of addresses with an index in \<open>S\<close>, and ends with
  a result that satisfies \<open>Q\<close>, whatever the others mark meanwhile. \<open>K\<close> are the addresses that the
  program knows to be marked, since it has seen or set the mark; a mark is never taken back.
\<close>

primrec safe :: "size_t list \<Rightarrow> size_t list \<Rightarrow> nat set \<Rightarrow> (nat set \<Rightarrow> 'r \<Rightarrow> bool) \<Rightarrow> 'r prog \<Rightarrow> nat set \<Rightarrow> bool" where
  "safe xs a0 S Q (Ret r) = (\<lambda>K. Q K r)"
| "safe xs a0 S Q (Fail e) = (\<lambda>K. False)"
| "safe xs a0 S Q (Read i k) = (\<lambda>K. in_array a0 i \<and>
     (if nat i < length xs
      then (nat i \<notin> K \<longrightarrow> safe xs a0 S Q (k (mark False (xs ! nat i))) K) \<and>
        safe xs a0 S Q (k (mark True (xs ! nat i))) (insert (nat i) K)
      else safe xs a0 S Q (k (a0 ! nat i)) K))"
| "safe xs a0 S Q (Write i v p) = (\<lambda>K. 0 \<le> i \<and> nat i < length xs \<and> nat i \<in> S \<and> v = xs ! nat i + 1 \<and>
     safe xs a0 S Q p (insert (nat i) K))"

lemma safe_mono: "safe xs a0 S Q p K \<Longrightarrow> (\<And>K r. Q K r \<Longrightarrow> Q' K r) \<Longrightarrow> safe xs a0 S Q' p K"
  by (induction p arbitrary: K) (auto split: if_splits)

lemma safe_grow: "safe xs a0 S Q p K \<Longrightarrow> safe xs a0 S (\<lambda>K' r. K \<subseteq> K' \<and> Q K' r) p K"
proof (induction p arbitrary: K)
  case (Read i k)
  have "safe xs a0 S (\<lambda>K' r. K \<subseteq> K' \<and> Q K' r) (k v) K'" if "safe xs a0 S Q (k v) K'" "K \<subseteq> K'" for v K'
    by (rule safe_mono [OF Read.IH [OF _ that(1)]]) (use that(2) in auto)
  then show ?case using Read.prems by (simp split: if_splits) (simp add: subset_insertI)
next
  case (Write i v p)
  have "safe xs a0 S Q p (insert (nat i) K)" using Write.prems by simp
  then have "safe xs a0 S (\<lambda>K' r. K \<subseteq> K' \<and> Q K' r) p (insert (nat i) K)"
    by (rule safe_mono [OF Write.IH]) auto
  then show ?case using Write.prems by simp
qed auto

lemma safe_bindP: "safe xs a0 S (\<lambda>K r. safe xs a0 S Q (f r) K) p K \<Longrightarrow> safe xs a0 S Q (bindP p f) K"
  by (induction p arbitrary: K) (auto split: if_splits)

text \<open>The read of an address.\<close>

lemma safe_Read:
  assumes "0 \<le> i" and "nat i < length xs" and "length xs \<le> length a0"
    and "\<And>b K'. K' = (if b then insert (nat i) K else K) \<Longrightarrow> nat i \<in> K \<longrightarrow> b \<Longrightarrow> safe xs a0 S Q (k (mark b (xs ! nat i))) K'"
  shows "safe xs a0 S Q (Read i k) K"
  using assms(1-3) assms(4) [of K False] assms(4) [of "insert (nat i) K" True] by (simp add: in_array_def)

text \<open>The scan map is not written: the search of it is the search of \<open>a0\<close>.\<close>

lemma rd_map:
  assumes "rd (drop (nat so) a0) i = Inr v" and "0 \<le> so"
  shows "in_array a0 (so + i)" and "nat so \<le> nat (so + i)" and "v = a0 ! nat (so + i)"
  using assms by (auto simp: rd_def in_array_def nat_add_distrib split: if_splits)

lemma iterative_loop_map:
  assumes "iterative_loop val (drop (nat so) a0) mn mx = Inr r" and "0 \<le> so" and "length xs \<le> nat so" and "Q K r"
  shows "safe xs a0 S Q (iterative_loop_P val so mn mx) K"
  using assms
proof (induction val so mn mx rule: iterative_loop_P.induct)
  case (1 val so mn mx)
  show ?case
  proof (cases "mn < mx")
    case True
    then obtain v where v: "rd (drop (nat so) a0) mn = Inr v"
      using 1(2) by (subst (asm) iterative_loop.simps) (auto simp: bindE_Inr_iff)
    note r = rd_map [OF v 1(3)]
    have le: "\<not> nat (so + mn) < length xs" using r(2) 1(4) by simp
    have cont: "safe xs a0 S Q (if v = val then Ret mn else if val < v then Ret (mn - 1)
        else iterative_loop_P val so (mn + 1) mx) K"
      using 1 True v by (subst (asm) (2) iterative_loop.simps) (auto split: if_splits)
    show ?thesis
      by (subst iterative_loop_P.simps) (use True r(1) le cont [unfolded r(3)] in simp)
  next
    case False
    then show ?thesis using 1(2,5)
      by (subst iterative_loop_P.simps, subst (asm) iterative_loop.simps) simp
  qed
qed

lemma iterative_search_map:
  assumes "iterative_search val (drop (nat so) a0) mn mx = Inr r" and "0 \<le> so" and "length xs \<le> nat so" and "Q K r"
  shows "safe xs a0 S Q (iterative_search_P val so mn mx) K"
proof -
  obtain v where v: "rd (drop (nat so) a0) mn = Inr v"
    using assms(1) by (auto simp: iterative_search_def bindE_Inr_iff)
  note r = rd_map [OF v assms(2)]
  have le: "\<not> nat (so + mn) < length xs" using r(2) assms(3) by simp
  have "safe xs a0 S Q (if val < v \<or> mn = mx then Ret mn else iterative_loop_P val so mn mx) K"
    using assms v iterative_loop_map [of val so a0 mn mx r xs Q K S] by (auto simp: iterative_search_def)
  then show ?thesis unfolding iterative_search_P_def r(3) using r(1) le by simp
qed

lemma binary_search_map:
  assumes "binary_search val (drop (nat so) a0) mn mx = Inr r" and "0 \<le> so" and "length xs \<le> nat so" and "Q K r"
  shows "safe xs a0 S Q (binary_search_P val so mn mx) K"
  using assms
proof (induction val so mn mx rule: binary_search_P.induct)
  case (1 val so mn mx)
  show ?case
  proof (cases "BINARY_THRESHOLD \<le> mx - mn")
    case True
    let ?mid = "(mx + mn) sdiv 2"
    obtain v where v: "rd (drop (nat so) a0) ?mid = Inr v"
      using 1(3) True by (subst (asm) binary_search.simps) (auto simp: Let_def bindE_Inr_iff)
    note r = rd_map [OF v 1(4)]
    have le: "\<not> nat (so + ?mid) < length xs" using r(2) 1(5) by simp
    have cont: "safe xs a0 S Q (if v = val then Ret ?mid else if val < v then binary_search_P val so mn ?mid
        else binary_search_P val so ?mid mx) K"
      using 1 True v by (subst (asm) (3) binary_search.simps) (auto simp: Let_def split: if_splits)
    show ?thesis
      by (subst binary_search_P.simps) (use True r(1) le cont [unfolded r(3)] in \<open>simp add: Let_def\<close>)
  next
    case False
    then show ?thesis using 1(3-6) iterative_search_map [of val so a0 mn mx r xs Q K S]
      by (subst binary_search_P.simps, subst (asm) binary_search.simps) simp
  qed
qed

subsection \<open>The search for an address among others\<close>

text \<open>
  Where a search of the addresses from \<open>mn\<close> up to \<open>mx\<close> for \<open>c\<close> ends: at the address if that is there and not
  known to be marked. When another thread marks the first address of the range between the two reads that
  \<^verbatim>\<open>iterative_search\<close> makes of it, the result is the index before the range.
\<close>

definition found_ok :: "size_t list \<Rightarrow> size_t \<Rightarrow> int \<Rightarrow> int \<Rightarrow> nat set \<Rightarrow> int \<Rightarrow> bool" where
  "found_ok xs c mn mx K loc \<longleftrightarrow> loc < mx \<and>
     (mn \<le> loc \<or> loc = mn - 1 \<and> nat mn \<in> K \<and> xs ! nat mn = c) \<and>
     (\<forall>k. mn \<le> int k \<and> int k < mx \<and> xs ! k = c \<and> k \<notin> K \<longrightarrow> loc = int k)"

text \<open>One element decides about all that follow it, and about all that precede it.\<close>

lemma later_greater:
  assumes "addr_list xs" and "0 \<le> i" and "i \<le> int k" and "k < length xs" and "c < xs ! nat i"
  shows "c < xs ! k"
  using addr_list_mono [OF assms(1), of "nat i" k] assms(2-5) by (simp add: nat_le_iff)

lemma earlier_less:
  assumes "addr_list xs" and "int k \<le> i" and "nat i < length xs" and "xs ! nat i < c"
  shows "xs ! k < c"
  using addr_list_mono [OF assms(1), of k "nat i"] assms(2-4) by (simp add: le_nat_iff)

lemma same_index:
  assumes "addr_list xs" and "c \<noteq> 0" and "k < length xs" and "xs ! k = c" and "nat i < length xs" and "xs ! nat i = c"
  shows "k = nat i"
  using addr_list_inj [OF assms(1,3,5)] assms(2,4,6) by simp

text \<open>What a read of an element says about \<open>c\<close>.\<close>

lemma read_compare:
  assumes "addr_list xs" and "aligned4 c" and "nat i < length xs" and "v = mark b (xs ! nat i)"
  shows "v = c \<longleftrightarrow> xs ! nat i = c \<and> \<not> b" and "c < v \<longleftrightarrow> c < xs ! nat i \<or> (xs ! nat i = c \<and> b)"
  using assms(2,4) addr_list_aligned [OF assms(1,3)] by auto

lemma found_here:
  assumes "addr_list xs" and "c \<noteq> 0" and "mn \<le> i" and "i < mx" and "0 \<le> i" and "mx \<le> int (length xs)" and "xs ! nat i = c"
  shows "found_ok xs c mn mx K i"
proof -
  have "i = int k" if "int k < mx" "xs ! k = c" for k
    using same_index [OF assms(1,2), of k i] that assms(4-7) by simp
  then show ?thesis using assms(3,4) by (auto simp: found_ok_def)
qed

lemma safe_iterative_loop:
  assumes xs: "addr_list xs" "length xs \<le> length a0" and c: "aligned4 c" "c \<noteq> 0"
    and b: "0 \<le> mn0" "mn0 < mx" "mx \<le> int (length xs)"
  shows "mn0 \<le> mn \<Longrightarrow> mn \<le> mx \<Longrightarrow> (\<And>k. mn0 \<le> int k \<Longrightarrow> int k < mn \<Longrightarrow> xs ! k < c) \<Longrightarrow> (mn = mn0 \<Longrightarrow> xs ! nat mn0 \<le> c) \<Longrightarrow>
    safe xs a0 S (found_ok xs c mn0 mx) (iterative_loop_P c 0 mn mx) K"
proof (induction "nat (mx - mn)" arbitrary: mn K)
  case 0
  then have "mn = mx" by simp
  then show ?case using 0 b by (subst iterative_loop_P.simps) (fastforce simp: found_ok_def)
next
  case (Suc d mn K)
  then have lt: "mn < mx" by simp
  have i: "0 \<le> 0 + mn" "nat (0 + mn) < length xs" using lt b Suc.prems(1) by auto
  have step: "iterative_loop_P c 0 mn mx = Read (0 + mn) (\<lambda>cmp.
      if cmp = c then Ret mn else if c < cmp then Ret (mn - 1) else iterative_loop_P c 0 (mn + 1) mx)"
    using lt by (subst iterative_loop_P.simps) simp
  show ?case unfolding step
  proof (rule safe_Read [OF i xs(2)])
    fix b' K' assume K': "K' = (if b' then insert (nat (0 + mn)) K else K)"
    let ?v = "mark b' (xs ! nat (0 + mn))"
    note cmp = read_compare [OF xs(1) c(1) i(2) refl, of b']
    consider "?v = c" | "c < ?v" | "?v \<noteq> c" "\<not> c < ?v" by blast
    then show "safe xs a0 S (found_ok xs c mn0 mx)
        (if ?v = c then Ret mn else if c < ?v then Ret (mn - 1) else iterative_loop_P c 0 (mn + 1) mx) K'"
    proof cases
      case 1
      then show ?thesis using found_here [OF xs(1) c(2), of mn0 mn mx] Suc.prems(1) lt b cmp(1) by simp
    next
      case 2
      have "k \<in> K'" if "mn0 \<le> int k" "int k < mx" "xs ! k = c" for k
      proof -
        have "mn \<le> int k" using Suc.prems(3) [of k] that by force
        moreover have "k < length xs" using that(2) b(3) by simp
        ultimately have "xs ! nat mn = c \<and> b'"
          using 2 cmp(2) later_greater [OF xs(1), of mn k c] that(3) i(1) by auto
        then show ?thesis using same_index [OF xs(1) c(2) \<open>k < length xs\<close> that(3), of mn] i(2) K' by simp
      qed
      moreover have "mn = mn0 \<Longrightarrow> xs ! nat mn = c \<and> nat mn \<in> K'"
        using 2 cmp(2) Suc.prems(4) K' by auto
      ultimately show ?thesis using 2 Suc.prems(1) lt by (auto simp: found_ok_def)
    next
      case 3
      then have "xs ! nat mn < c" using cmp by auto
      then have less: "xs ! k < c" if "mn0 \<le> int k" "int k < mn + 1" for k
        using earlier_less [OF xs(1), of k mn c] that i(2) by simp
      have "safe xs a0 S (found_ok xs c mn0 mx) (iterative_loop_P c 0 (mn + 1) mx) K'"
        by (rule Suc.hyps(1)) (use Suc.hyps(2) Suc.prems lt less in auto)
      then show ?thesis using 3 by simp
    qed
  qed
qed

lemma safe_iterative_search:
  assumes xs: "addr_list xs" "length xs \<le> length a0" and c: "aligned4 c" "c \<noteq> 0"
    and b: "0 \<le> mn" "mn < mx" "mx \<le> int (length xs)"
  shows "safe xs a0 S (found_ok xs c mn mx) (iterative_search_P c 0 mn mx) K"
proof -
  have i: "0 \<le> 0 + mn" "nat (0 + mn) < length xs" using b by auto
  show ?thesis unfolding iterative_search_P_def
  proof (rule safe_Read [OF i xs(2)])
    fix b' K' assume K': "K' = (if b' then insert (nat (0 + mn)) K else K)"
    let ?v = "mark b' (xs ! nat (0 + mn))"
    note cmp = read_compare [OF xs(1) c(1) i(2) refl, of b']
    show "safe xs a0 S (found_ok xs c mn mx)
        (if c < ?v \<or> mn = mx then Ret mn else iterative_loop_P c 0 mn mx) K'"
    proof (cases "c < ?v")
      case True
      have "k \<in> K'" if "mn \<le> int k" "int k < mx" "xs ! k = c" for k
      proof -
        have "k < length xs" using that(2) b(3) by simp
        then have "xs ! nat mn = c \<and> b'"
          using True cmp(2) later_greater [OF xs(1), of mn k c] that b(1) by auto
        then show ?thesis using same_index [OF xs(1) c(2) \<open>k < length xs\<close> that(3), of mn] i(2) K' by simp
      qed
      then show ?thesis using True b by (auto simp: found_ok_def)
    next
      case False
      then have "xs ! nat mn \<le> c" using cmp(2) by auto
      then show ?thesis using False b safe_iterative_loop [OF xs c b, of mn] by simp
    qed
  qed
qed

lemma safe_binary_search:
  assumes xs: "addr_list xs" "length xs \<le> length a0" and c: "aligned4 c" "c \<noteq> 0"
  shows "0 \<le> mn \<Longrightarrow> mn < mx \<Longrightarrow> mx \<le> int (length xs) \<Longrightarrow>
    safe xs a0 S (found_ok xs c mn mx) (binary_search_P c 0 mn mx) K"
proof (induction "nat (mx - mn)" arbitrary: mn mx K rule: less_induct)
  case (less mn mx K)
  show ?case
  proof (cases "BINARY_THRESHOLD \<le> mx - mn")
    case True
    let ?mid = "(mx + mn) sdiv 2"
    have mid: "mn < ?mid" "?mid < mx" using middle_between [OF True] by simp_all
    have i: "0 \<le> 0 + ?mid" "nat (0 + ?mid) < length xs" using mid less.prems by auto
    have step: "binary_search_P c 0 mn mx = Read (0 + ?mid) (\<lambda>cmp.
        if cmp = c then Ret ?mid else if c < cmp then binary_search_P c 0 mn ?mid else binary_search_P c 0 ?mid mx)"
      using True by (subst binary_search_P.simps) (simp add: Let_def)
    show ?thesis unfolding step
    proof (rule safe_Read [OF i xs(2)])
      fix b' K' assume K': "K' = (if b' then insert (nat (0 + ?mid)) K else K)"
      let ?v = "mark b' (xs ! nat (0 + ?mid))"
      note cmp = read_compare [OF xs(1) c(1) i(2) refl, of b']
      consider "?v = c" | "c < ?v" | "?v \<noteq> c" "\<not> c < ?v" by blast
      then show "safe xs a0 S (found_ok xs c mn mx)
          (if ?v = c then Ret ?mid else if c < ?v then binary_search_P c 0 mn ?mid else binary_search_P c 0 ?mid mx) K'"
      proof cases
        case 1
        then show ?thesis using found_here [OF xs(1) c(2), of mn ?mid mx] mid less.prems cmp(1) by simp
      next
        case 2
        have "safe xs a0 S (found_ok xs c mn ?mid) (binary_search_P c 0 mn ?mid) K'"
          by (rule less.hyps) (use mid less.prems in auto)
        then have "safe xs a0 S (found_ok xs c mn mx) (binary_search_P c 0 mn ?mid) K'"
        proof (rule safe_mono [OF safe_grow])
          fix K'' r assume r: "K' \<subseteq> K'' \<and> found_ok xs c mn ?mid K'' r"
          have "k \<in> K''" if "?mid \<le> int k" "int k < mx" "xs ! k = c" for k
          proof -
            have "k < length xs" using that(2) less.prems(3) by simp
            then have "xs ! nat ?mid = c \<and> b'"
              using 2 cmp(2) later_greater [OF xs(1), of ?mid k c] that mid less.prems(1) by auto
            then show ?thesis
              using same_index [OF xs(1) c(2) \<open>k < length xs\<close> that(3), of ?mid] i(2) K' r by auto
          qed
          then show "found_ok xs c mn mx K'' r" using r mid unfolding found_ok_def by (metis less_trans not_le)
        qed
        then show ?thesis using 2 cmp by auto
      next
        case 3
        then have x: "xs ! nat ?mid < c" using cmp by auto
        have "safe xs a0 S (found_ok xs c ?mid mx) (binary_search_P c 0 ?mid mx) K'"
          by (rule less.hyps) (use mid less.prems in auto)
        then have "safe xs a0 S (found_ok xs c mn mx) (binary_search_P c 0 ?mid mx) K'"
        proof (rule safe_mono)
          fix K'' r assume r: "found_ok xs c ?mid mx K'' r"
          have "\<not> int k < ?mid" if "xs ! k = c" for k
            using earlier_less [OF xs(1), of k ?mid c] x i(2) that by fastforce
          then show "found_ok xs c mn mx K'' r" using r x mid unfolding found_ok_def
            by (metis less_irrefl less_le_trans less_imp_le not_le)
        qed
        then show ?thesis using 3 by simp
      qed
    qed
  next
    case False
    then show ?thesis using safe_iterative_search [OF xs c less.prems] by (subst binary_search_P.simps) simp
  qed
qed

subsection \<open>The scan among others\<close>

lemma safe_SET_LOW_BIT:
  assumes xs: "addr_list xs" "length xs \<le> length a0" and i: "0 \<le> i" "nat i < length xs" "nat i \<in> S"
  shows "safe xs a0 S (\<lambda>K _. nat i \<in> K) (SET_LOW_BIT_P i) K"
  unfolding SET_LOW_BIT_P_def
proof (rule safe_Read [OF i(1,2) xs(2)])
  fix b K' assume K': "K' = (if b then insert (nat i) K else K)"
  have al: "aligned4 (xs ! nat i)" by (rule addr_list_aligned [OF xs(1) i(2)])
  show "safe xs a0 S (\<lambda>K _. nat i \<in> K)
      (if mark b (xs ! nat i) AND 1 = 0 then Write i (mark b (xs ! nat i) + 1) (Ret ()) else Ret ()) K'"
    using K' i aligned4_even [OF al] aligned4_mark_odd [OF al] by (cases b) (simp_all add: mark_def)
qed

lemma safe_mark_found:
  assumes xs: "addr_list xs" "length xs \<le> length a0" and n: "n_addrs ts = int (length xs)"
    and c: "aligned4 c" "xs ! 0 < c" and S: "hits xs c \<subseteq> S"
    and loc: "found_ok xs c mn mx K loc" and r: "0 \<le> mn" "mx \<le> int (length xs)"
    and all: "\<And>k. k < length xs \<Longrightarrow> xs ! k = c \<Longrightarrow> mn \<le> int k \<and> int k < mx"
  shows "safe xs a0 S (\<lambda>K _. hits xs c \<subseteq> K) (mark_found_P dbg ts c loc) K"
proof -
  have c0: "c \<noteq> 0" using c(2) by auto
  have here: "0 \<le> loc" "nat loc < length xs" if "found_ok xs c mn mx K loc" "0 \<le> mn" "mx \<le> int (length xs)" for mn mx loc K
    using that c(2) by (cases "mn = 0"; fastforce simp: found_ok_def)+
  note l = here [OF loc r]
  show ?thesis unfolding mark_found_P_def
  proof (rule safe_Read [OF l xs(2)])
    fix b K' assume K': "K' = (if b then insert (nat loc) K else K)"
    let ?x = "mark b (xs ! nat loc)"
    note cmp = read_compare [OF xs(1) c(1) l(2) refl, of b]
    show "safe xs a0 S (\<lambda>K _. hits xs c \<subseteq> K)
        (if ?x = c then SET_LOW_BIT_P loc
         else if dbg then bindP (binary_search_P c 0 0 (n_addrs ts)) (\<lambda>loc2. Read loc2 (\<lambda>y. assertP dbg (y \<noteq> c)))
         else Ret ()) K'"
    proof (cases "?x = c")
      case True
      then have h: "hits xs c = {nat loc}" using hits_at [OF xs(1) l(2)] cmp(1) c0 by simp
      then show ?thesis
        using True safe_mono [OF safe_SET_LOW_BIT [OF xs l, of S K'], of "\<lambda>K _. hits xs c \<subseteq> K"] S by simp
    next
      case False
      have known: "hits xs c \<subseteq> K'"
      proof (intro subsetI, rule ccontr)
        fix k assume "k \<in> hits xs c" and k: "k \<notin> K'"
        then have "k < length xs" "xs ! k = c" by (simp_all add: hits_def)
        moreover have "k \<notin> K" using k K' by (auto split: if_splits)
        ultimately have "loc = int k" using loc all by (auto simp: found_ok_def)
        then show False using False cmp(1) k K' \<open>xs ! k = c\<close> by (auto split: if_splits)
      qed
      have "safe xs a0 S (\<lambda>K _. hits xs c \<subseteq> K) (bindP (binary_search_P c 0 0 (n_addrs ts)) (\<lambda>loc2. Read loc2 (\<lambda>y. assertP dbg (y \<noteq> c)))) K'"
      proof (rule safe_bindP, rule safe_mono [OF safe_grow [OF safe_binary_search [OF xs c(1) c0, of 0 "n_addrs ts"]]])
        fix K2 loc2 assume 2: "K' \<subseteq> K2 \<and> found_ok xs c 0 (n_addrs ts) K2 loc2"
        have l2: "0 \<le> loc2" "nat loc2 < length xs" using here [of 0 "n_addrs ts" K2 loc2] 2 n by simp_all
        show "safe xs a0 S (\<lambda>K _. hits xs c \<subseteq> K) (Read loc2 (\<lambda>y. assertP dbg (y \<noteq> c))) K2"
        proof (rule safe_Read [OF l2 xs(2)])
          fix b2 K3 assume 3: "K3 = (if b2 then insert (nat loc2) K2 else K2)" "nat loc2 \<in> K2 \<longrightarrow> b2"
          have "hits xs c \<subseteq> K3" using known 2 3 by auto
          moreover have "mark b2 (xs ! nat loc2) \<noteq> c"
          proof
            assume "mark b2 (xs ! nat loc2) = c"
            then have "xs ! nat loc2 = c" "\<not> b2" using read_compare(1) [OF xs(1) c(1) l2(2) refl, of b2] by simp_all
            then have "nat loc2 \<in> hits xs c" using l2(2) c0 by (simp add: hits_def)
            then show False using known 2 3 \<open>\<not> b2\<close> by auto
          qed
          ultimately show "safe xs a0 S (\<lambda>K _. hits xs c \<subseteq> K) (assertP dbg (mark b2 (xs ! nat loc2) \<noteq> c)) K3"
            by (simp add: assertP_def)
        qed
      qed (use n l(2) in auto)
      then show ?thesis using False known by (cases dbg) simp_all
    qed
  qed
qed

lemma safe_search_word:
  assumes xs: "addr_list xs" "xs \<noteq> []" "length xs \<le> length a0" and rdy: "map_ready ts xs a0"
    and mn: "mn = mark b0 (xs ! 0)" "b0 \<longrightarrow> 0 \<in> K" and mx: "mx = mark b1 (xs ! (length xs - 1))" "b1 \<longrightarrow> length xs - 1 \<in> K"
    and S: "hits xs (PTR_MASK w) \<subseteq> S"
  shows "safe xs a0 S (\<lambda>K _. hits xs (PTR_MASK w) \<subseteq> K) (search_word_P dbg ts mn mx w) K"
proof -
  define c where "c = PTR_MASK w"
  let ?n = "length xs"
  have c: "aligned4 c" "hits xs c \<subseteq> S" using S by (simp_all add: c_def)
  have first: "0 < ?n" using xs(2) by simp
  have al: "aligned4 (xs ! 0)" "aligned4 (xs ! (?n - 1))" using first addr_list_aligned [OF xs(1)] by auto
  have n: "n_addrs ts - 1 = int (?n - 1)" "n_addrs ts = int ?n"
    using rdy xs(2) by (cases xs; simp add: map_ready_def)+
  have le: "xs ! 0 \<le> xs ! (?n - 1)" using first by (intro addr_list_mono [OF xs(1)]) auto
  consider (below) "c < mn" | (above) "mx < c" | (min) "mn = c" | (max) "mn \<noteq> c" "\<not> c < mn" "mx = c"
    | (mid) "\<not> c < mn" "\<not> mx < c" "mn \<noteq> c" "mx \<noteq> c" by blast
  then have "safe xs a0 S (\<lambda>K _. hits xs c \<subseteq> K) (search_word_P dbg ts mn mx w) K"
  proof cases
    case below
    then have "hits xs c \<subseteq> K"
      using al(1) c(1) first hits_below [OF xs(1)] hits_at [OF xs(1) first] mn by auto
    with below show ?thesis by (simp add: search_word_P_def c_def [symmetric])
  next
    case above
    then have "hits xs c \<subseteq> K" using al(2) c(1) hits_above [OF xs(1)] by (simp add: mx(1))
    with above show ?thesis by (simp add: search_word_P_def c_def [symmetric])
  next
    case min
    then have x0: "xs ! 0 = c" using al(1) c(1) by (simp add: mn(1))
    then have h: "hits xs c = {0}" using hits_at [OF xs(1) first] by simp
    moreover have "\<not> mx < c" using le x0 al c(1) by (simp add: mx(1) not_less)
    ultimately show ?thesis
      using min c(2) safe_SET_LOW_BIT [OF xs(1,3), of 0 S K] first by (simp add: search_word_P_def c_def [symmetric])
  next
    case max
    then have xl: "xs ! (?n - 1) = c" using al(2) c(1) by (simp add: mx(1))
    moreover have "c \<noteq> 0" using max(1,2) le xl al c(1) by (auto simp: mn(1))
    ultimately have h: "hits xs c = {?n - 1}" using hits_at [OF xs(1), of "?n - 1" c] first by simp
    define j where "j = ?n - 1"
    have "safe xs a0 S (\<lambda>K _. hits xs c \<subseteq> K) (SET_LOW_BIT_P (int j)) K"
      using safe_SET_LOW_BIT [OF xs(1,3), of "int j" S K] h c(2) first by (simp add: j_def [symmetric]) (simp add: j_def)
    then show ?thesis using max unfolding search_word_P_def c_def [symmetric] Let_def n(1) j_def by simp
  next
    case mid
    then have c0: "xs ! 0 < c" using al(1) c(1) by (auto simp: mn(1) not_less)
    then have nz: "c \<noteq> 0" by auto
    obtain v where l1: "binary_search c (drop (nat (scan_map_index ts)) a0) 0 (n_scan_map ts) = Inr (int v)"
      and v: "v < pages ?n" "xs ! (512 * v) \<le> c" "v + 1 < pages ?n \<Longrightarrow> c < xs ! (512 * (v + 1))"
      using level1_correct [OF xs(1) rdy c(1) nz less_imp_le [OF c0] xs(2)] by blast
    define hi where "hi = (if v + 1 = pages ?n then ?n else 512 * (v + 1))"
    have hi: "512 * v < hi" "hi \<le> ?n"
      using v(1) pages_less [of v ?n] pages_less [of "v + 1" ?n] by (auto simp: hi_def)
    have hi_eq: "(if int v = n_scan_map ts - 1 then n_addrs ts else (int v + 1) * page_elems) = int hi"
      using rdy by (auto simp: hi_def map_ready_def)
    have all: "int (512 * v) \<le> int k \<and> int k < int hi" if "k < ?n" "xs ! k = c" for k
      using level2_range [OF xs(1) nz v that] that(1) v(1) by (auto simp: hi_def)
    have so: "0 \<le> scan_map_index ts" "?n \<le> nat (scan_map_index ts)" using rdy by (auto simp: map_ready_def le_nat_iff)
    have level2: "safe xs a0 S (\<lambda>K _. hits xs c \<subseteq> K) (bindP (binary_search_P c 0 (int (512 * v)) (int hi)) (mark_found_P dbg ts c)) K"
      by (rule safe_bindP, rule safe_mono [OF safe_binary_search [OF xs(1,3) c(1) nz]])
         (use hi all in \<open>auto intro!: safe_mark_found [OF xs(1,3) n(2) c(1) c0 c(2)]\<close>)
    have "safe xs a0 S (\<lambda>K _. hits xs c \<subseteq> K)
        (bindP (binary_search_P c (scan_map_index ts) 0 (n_scan_map ts)) (\<lambda>v.
         bindP (binary_search_P c 0 (v * page_elems) (if v = n_scan_map ts - 1 then n_addrs ts else (v + 1) * page_elems))
           (mark_found_P dbg ts c))) K"
      by (rule safe_bindP, rule binary_search_map [OF l1 so]) (use level2 in \<open>simp only: hi_eq, simp add: mult.commute\<close>)
    then show ?thesis using mid by (simp add: search_word_P_def c_def [symmetric] Let_def)
  qed
  then show ?thesis by (simp add: c_def)
qed

lemma safe_search_words:
  assumes xs: "addr_list xs" "xs \<noteq> []" "length xs \<le> length a0" and rdy: "map_ready ts xs a0"
    and mn: "mn = mark b0 (xs ! 0)" and mx: "mx = mark b1 (xs ! (length xs - 1))"
  shows "b0 \<longrightarrow> 0 \<in> K \<Longrightarrow> b1 \<longrightarrow> length xs - 1 \<in> K \<Longrightarrow> all_hits xs ws \<subseteq> S \<Longrightarrow>
    safe xs a0 S (\<lambda>K _. all_hits xs ws \<subseteq> K) (search_words_P dbg ts mn mx ws) K"
proof (induction ws arbitrary: K)
  case (Cons w ws K)
  have w: "hits xs (PTR_MASK w) \<subseteq> S" using Cons.prems(3) by simp
  show ?case unfolding search_words_P.simps
  proof (rule safe_bindP, rule safe_mono [OF safe_grow [OF safe_search_word [OF xs rdy mn Cons.prems(1) mx Cons.prems(2) w]]])
    fix K' assume K': "K \<subseteq> K' \<and> hits xs (PTR_MASK w) \<subseteq> K'"
    then have "safe xs a0 S (\<lambda>K _. all_hits xs ws \<subseteq> K) (search_words_P dbg ts mn mx ws) K'"
      using Cons.prems by (intro Cons.IH) auto
    from safe_mono [OF safe_grow [OF this], of "\<lambda>K _. all_hits xs (w # ws) \<subseteq> K"]
    show "safe xs a0 S (\<lambda>K _. all_hits xs (w # ws) \<subseteq> K) (search_words_P dbg ts mn mx ws) K'"
      using K' by auto
  qed
qed simp

lemma safe_do_search:
  assumes xs: "addr_list xs" "xs \<noteq> []" "length xs \<le> length a0" and rdy: "map_ready ts xs a0"
    and S: "all_hits xs ws \<subseteq> S" and dbg: "dbg \<longrightarrow> 0 \<notin> set xs"
  shows "safe xs a0 S (\<lambda>K _. all_hits xs ws \<subseteq> K) (do_search_P dbg ts ws) K"
  unfolding do_search_P_def
proof (rule safe_Read [OF _ _ xs(3)])
  have n: "n_addrs ts - 1 = int (length xs - 1)" using rdy xs(2) by (cases xs; simp add: map_ready_def)
  show "nat 0 < length xs" using xs(2) by simp
  fix b0 K0 assume K0: "K0 = (if b0 then insert (nat 0) K else K)"
  show "safe xs a0 S (\<lambda>K _. all_hits xs ws \<subseteq> K) (Read (n_addrs ts - 1) (\<lambda>max_ptr.
      bindP (assertP dbg (mark b0 (xs ! nat 0) \<le> max_ptr)) (\<lambda>_. search_words_P dbg ts (mark b0 (xs ! nat 0)) max_ptr ws))) K0"
    unfolding n
  proof (rule safe_Read [OF _ _ xs(3)])
    show "nat (int (length xs - 1)) < length xs" using xs(2) by simp
    fix b1 K1 assume K1: "K1 = (if b1 then insert (nat (int (length xs - 1))) K0 else K0)"
      "nat (int (length xs - 1)) \<in> K0 \<longrightarrow> b1"
    let ?mn = "mark b0 (xs ! 0)" and ?mx = "mark b1 (xs ! (length xs - 1))"
    have al: "aligned4 (xs ! 0)" "aligned4 (xs ! (length xs - 1))"
      using xs(2) by (auto intro: addr_list_aligned [OF xs(1)])
    have "?mn \<le> ?mx" if dbg
    proof (cases "length xs = 1")
      case True
      then show ?thesis using K0 K1(2) unat_mark_bounds [OF al(1)] by (cases b0) (auto simp: mark_def word_le_nat_alt)
    next
      case False
      then have "xs ! 0 < xs ! (length xs - 1)"
        using that dbg xs(2) addr_list_strict [OF xs(1), of 0 "length xs - 1"] by (cases xs; cases "tl xs") auto
      then have "?mn < xs ! (length xs - 1)" using al by simp
      also have "\<dots> \<le> ?mx" using unat_mark_bounds [OF al(2)] by (simp add: word_le_nat_alt)
      finally show ?thesis by simp
    qed
    then have "assertP dbg (?mn \<le> ?mx) = Ret ()" by (simp add: assertP_def)
    moreover have "safe xs a0 S (\<lambda>K _. all_hits xs ws \<subseteq> K) (search_words_P dbg ts ?mn ?mx ws) K1"
      by (rule safe_search_words [OF xs rdy refl refl _ _ S]) (use K0 K1 in auto)
    ultimately show "safe xs a0 S (\<lambda>K _. all_hits xs ws \<subseteq> K)
        (bindP (assertP dbg (mark b0 (xs ! nat 0) \<le> mark b1 (xs ! nat (int (length xs - 1)))))
          (\<lambda>_. search_words_P dbg ts (mark b0 (xs ! nat 0)) (mark b1 (xs ! nat (int (length xs - 1)))) ws)) K1"
      by simp
  qed simp
qed simp

text \<open>The monotonicity check passes, whatever is marked between its reads.\<close>

lemma safe_monotonicity_loop:
  assumes xs: "addr_list xs" "length xs \<le> length a0" "0 \<notin> set xs"
  shows "0 \<le> i \<Longrightarrow> (\<And>k. i \<le> int k \<Longrightarrow> k < length xs \<Longrightarrow> prev < xs ! k) \<Longrightarrow>
    safe xs a0 S (\<lambda>_ _. True) (monotonicity_loop_P (int (length xs)) prev i) K"
proof (induction "nat (int (length xs) - i)" arbitrary: i prev K)
  case 0
  then show ?case by (subst monotonicity_loop_P.simps) simp
next
  case (Suc d i prev K)
  then have lt: "i < int (length xs)" by simp
  have i: "0 \<le> i" "nat i < length xs" using lt Suc.prems(1) by auto
  have step: "monotonicity_loop_P (int (length xs)) prev i = Read i (\<lambda>v.
      if v \<le> prev then Fail (Fatal ''The list is not monotonic'') else monotonicity_loop_P (int (length xs)) v (i + 1))"
    using lt by (subst monotonicity_loop_P.simps) simp
  show ?case unfolding step
  proof (rule safe_Read [OF i xs(2)])
    fix b K'
    let ?v = "mark b (xs ! nat i)"
    have al: "aligned4 (xs ! k)" if "k < length xs" for k by (rule addr_list_aligned [OF xs(1) that])
    have "prev < xs ! nat i" using Suc.prems(2) [of "nat i"] i by simp
    also have "\<dots> \<le> ?v" using unat_mark_bounds [OF al [OF i(2)]] by (simp add: word_le_nat_alt)
    finally have "\<not> ?v \<le> prev" by simp
    moreover have "safe xs a0 S (\<lambda>_ _. True) (monotonicity_loop_P (int (length xs)) ?v (i + 1)) K'"
    proof (rule Suc.hyps(1))
      show "?v < xs ! k" if "i + 1 \<le> int k" "k < length xs" for k
        using addr_list_strict [OF xs(1,3), of "nat i" k] that i al by simp
    qed (use Suc.hyps(2) i in auto)
    ultimately show "safe xs a0 S (\<lambda>_ _. True)
        (if ?v \<le> prev then Fail (Fatal ''The list is not monotonic'') else monotonicity_loop_P (int (length xs)) ?v (i + 1)) K'"
      by simp
  qed
qed

lemma safe_scan:
  assumes xs: "addr_list xs" "xs \<noteq> []" "length xs \<le> length a0" and rdy: "map_ready ts xs a0"
    and dbg: "dbg \<longrightarrow> 0 \<notin> set xs"
  shows "all_hits xs (concat rs) \<subseteq> S \<Longrightarrow> safe xs a0 S (\<lambda>K _. all_hits xs (concat rs) \<subseteq> K) (scan_P dbg ts rs) K"
proof (induction rs arbitrary: K)
  case (Cons ws rs K)
  have n: "n_addrs ts = int (length xs)" using rdy by (simp add: map_ready_def)
  have "0 < x" if "0 \<notin> set xs" "x \<in> set xs" for x using that by (metis word_gt_0)
  then have "safe xs a0 S (\<lambda>_ _. True) (if dbg then monotonicity_loop_P (n_addrs ts) 0 0 else Ret ()) K"
    using safe_monotonicity_loop [OF xs(1,3), of 0 0 S K] dbg n by auto
  then have range: "safe xs a0 S (\<lambda>K _. all_hits xs ws \<subseteq> K) (search_range_P dbg ts ws) K"
    unfolding search_range_P_def
    by (intro safe_bindP, elim safe_mono) (use Cons.prems in \<open>auto intro!: safe_do_search [OF xs rdy _ dbg]\<close>)
  show ?case unfolding scan_P.simps
  proof (rule safe_bindP, rule safe_mono [OF range])
    fix K' assume K': "all_hits xs ws \<subseteq> K'"
    have "safe xs a0 S (\<lambda>K _. all_hits xs (concat rs) \<subseteq> K) (scan_P dbg ts rs) K'"
      using Cons.prems by (intro Cons.IH) simp
    from safe_mono [OF safe_grow [OF this], of "\<lambda>K _. all_hits xs (concat (ws # rs)) \<subseteq> K"]
    show "safe xs a0 S (\<lambda>K _. all_hits xs (concat (ws # rs)) \<subseteq> K) (scan_P dbg ts rs) K'"
      using K' by auto
  qed
qed simp

subsection \<open>All threads at once\<close>

text \<open>
  The state while \<^verbatim>\<open>do_reclaim\<close> waits: the buffer, what every thread has still to do, the counter
  \<^verbatim>\<open>self_stacks_searched\<close>, the threads that have raised it, whether the reclaimer has left its loop,
  and the fault if there was one.
\<close>

record scan_state =
  arr :: "size_t list"
  progs :: "size_t \<Rightarrow> unit prog"
  searched :: int
  answered :: "size_t set"
  proceeded :: bool
  crashed :: "fault option"

inductive access_step :: "size_t \<Rightarrow> scan_state \<Rightarrow> scan_state \<Rightarrow> bool" for t s where
  do_read: "progs s t = Read i k \<Longrightarrow> rd (arr s) i = Inr v \<Longrightarrow>
     access_step t s (s\<lparr>progs := (progs s)(t := k v)\<rparr>)"
| bad_read: "progs s t = Read i k \<Longrightarrow> rd (arr s) i = Inl e \<Longrightarrow> access_step t s (s\<lparr>crashed := Some e\<rparr>)"
| do_write: "progs s t = Write i v p \<Longrightarrow> wr (arr s) i v = Inr a \<Longrightarrow>
     access_step t s (s\<lparr>arr := a, progs := (progs s)(t := p)\<rparr>)"
| bad_write: "progs s t = Write i v p \<Longrightarrow> wr (arr s) i v = Inl e \<Longrightarrow> access_step t s (s\<lparr>crashed := Some e\<rparr>)"
| fails: "progs s t = Fail e \<Longrightarrow> access_step t s (s\<lparr>crashed := Some e\<rparr>)"

text \<open>The reclaimer is \<open>me\<close>, the signalled threads are \<open>sent\<close>.\<close>

inductive scan_step :: "size_t \<Rightarrow> size_t list \<Rightarrow> scan_state \<Rightarrow> scan_state \<Rightarrow> bool" for me sent s where
  thread: "crashed s = None \<Longrightarrow> t \<in> set (me # sent) \<Longrightarrow> access_step t s s' \<Longrightarrow> scan_step me sent s s'"
| answer: "crashed s = None \<Longrightarrow> t \<in> set sent \<Longrightarrow> progs s t = Ret () \<Longrightarrow> t \<notin> answered s \<Longrightarrow>
     scan_step me sent s (s\<lparr>searched := searched s + 1, answered := insert t (answered s)\<rparr>)"
| proceed: "crashed s = None \<Longrightarrow> progs s me = Ret () \<Longrightarrow> int (length sent) \<le> searched s \<Longrightarrow> \<not> proceeded s \<Longrightarrow>
     scan_step me sent s (s\<lparr>proceeded := True\<rparr>)"

inductive_cases access_stepE: "access_step t s s'"
inductive_cases scan_stepE [consumes 1, case_names thread answer proceed]: "scan_step me sent s s'"

text \<open>The buffer \<open>a0\<close> is sorted and mapped, with no mark; \<open>ranges t\<close> are the words that thread \<open>t\<close> scans.\<close>

definition marking_ready :: "bool \<Rightarrow> threadscan_data \<Rightarrow> size_t list \<Rightarrow> size_t list \<Rightarrow> size_t \<Rightarrow> size_t list \<Rightarrow> bool" where
  "marking_ready dbg ts xs a0 me sent \<longleftrightarrow> addr_list xs \<and> xs \<noteq> [] \<and> marking xs {} a0 \<and> map_ready ts xs a0 \<and>
     (dbg \<longrightarrow> 0 \<notin> set xs) \<and> distinct (me # sent)"

definition scan_init ::
  "bool \<Rightarrow> threadscan_data \<Rightarrow> size_t list \<Rightarrow> size_t list \<Rightarrow> size_t \<Rightarrow> size_t list \<Rightarrow> (size_t \<Rightarrow> size_t list list) \<Rightarrow>
   scan_state \<Rightarrow> bool" where
  "scan_init dbg ts xs a0 me sent ranges s \<longleftrightarrow> marking_ready dbg ts xs a0 me sent \<and>
     s = \<lparr>arr = a0, progs = (\<lambda>t. scan_P dbg ts (ranges t)), searched = 0, answered = {}, proceeded = False, crashed = None\<rparr>"

text \<open>All words that are scanned.\<close>

definition all_words :: "size_t list \<Rightarrow> (size_t \<Rightarrow> size_t list list) \<Rightarrow> size_t list" where
  "all_words ts ranges = concat (map (\<lambda>t. concat (ranges t)) ts)"

lemma all_hits_words: "all_hits xs (all_words ts ranges) = (\<Union>t \<in> set ts. all_hits xs (concat (ranges t)))"
  by (auto simp: all_hits_def all_words_def)

definition marks_known ::
  "size_t list \<Rightarrow> size_t list \<Rightarrow> size_t list \<Rightarrow> (size_t \<Rightarrow> size_t list list) \<Rightarrow> scan_state \<Rightarrow> nat set \<Rightarrow> bool" where
  "marks_known xs a0 ts ranges s M \<longleftrightarrow> scanned xs a0 M (arr s) \<and> M \<subseteq> all_hits xs (all_words ts ranges) \<and>
     (\<forall>t \<in> set ts. \<exists>K \<subseteq> M. safe xs a0 (all_hits xs (all_words ts ranges))
        (\<lambda>K _. all_hits xs (concat (ranges t)) \<subseteq> K) (progs s t) K)"

definition scan_inv ::
  "size_t list \<Rightarrow> size_t list \<Rightarrow> size_t \<Rightarrow> size_t list \<Rightarrow> (size_t \<Rightarrow> size_t list list) \<Rightarrow> scan_state \<Rightarrow> bool" where
  "scan_inv xs a0 me sent ranges s \<longleftrightarrow> distinct (me # sent) \<and> crashed s = None \<and>
     (\<exists>M. marks_known xs a0 (me # sent) ranges s M) \<and>
     answered s \<subseteq> {t \<in> set sent. progs s t = Ret ()} \<and> searched s = int (card (answered s)) \<and>
     (proceeded s \<longrightarrow> answered s = set sent \<and> progs s me = Ret ())"

lemma scan_inv_init:
  assumes "scan_init dbg ts xs a0 me sent ranges s"
  shows "scan_inv xs a0 me sent ranges s"
proof -
  have r: "addr_list xs" "xs \<noteq> []" "marking xs {} a0" "map_ready ts xs a0" "dbg \<longrightarrow> 0 \<notin> set xs" "distinct (me # sent)"
    using assms by (simp_all add: scan_init_def marking_ready_def)
  have len: "length xs \<le> length a0" using r(3) by (simp add: marking_def)
  have "all_hits xs (concat (ranges t)) \<subseteq> all_hits xs (all_words (me # sent) ranges)" if "t \<in> set (me # sent)" for t
    using that by (auto simp: all_hits_def all_words_def)
  from safe_scan [OF r(1,2) len r(4,5) this]
  have "marks_known xs a0 (me # sent) ranges s {}"
    using r(3) assms by (simp add: marks_known_def scanned_def scan_init_def)
  then show ?thesis using r(6) assms unfolding scan_inv_def by (auto simp: scan_init_def)
qed

text \<open>One access of a thread: no fault, and what all threads know stays true.\<close>

lemma scanned_nth:
  assumes "scanned xs a0 M a"
  shows "nat i < length xs \<Longrightarrow> a ! nat i = mark (nat i \<in> M) (xs ! nat i)" and "\<not> nat i < length xs \<Longrightarrow> a ! nat i = a0 ! nat i"
    and "length a = length a0"
proof -
  show len: "length a = length a0" using assms by (simp add: scanned_def)
  show "nat i < length xs \<Longrightarrow> a ! nat i = mark (nat i \<in> M) (xs ! nat i)" using assms by (simp add: scanned_def marking_def)
  assume i: "\<not> nat i < length xs"
  show "a ! nat i = a0 ! nat i"
  proof -
    have "length xs \<le> length a" "length xs \<le> length a0" using assms by (auto simp: scanned_def marking_def)
    then have "a ! nat i = drop (length xs) a ! (nat i - length xs)" "a0 ! nat i = drop (length xs) a0 ! (nat i - length xs)"
      using i by simp_all
    then show ?thesis using assms by (simp add: scanned_def)
  qed
qed

lemma access_keeps:
  assumes m: "marks_known xs a0 ts ranges s M" and t: "t \<in> set ts" and s: "access_step t s s'"
  obtains M' where "marks_known xs a0 ts ranges s' M'" and "crashed s' = crashed s"
    and "searched s' = searched s" "answered s' = answered s" "proceeded s' = proceeded s"
    and "\<And>u. progs s u = Ret () \<Longrightarrow> progs s' u = Ret ()"
proof -
  let ?S = "all_hits xs (all_words ts ranges)"
  let ?Q = "\<lambda>t K (_ :: unit). all_hits xs (concat (ranges t)) \<subseteq> K"
  have sc: "scanned xs a0 M (arr s)" and MS: "M \<subseteq> ?S"
    and known: "\<And>u. u \<in> set ts \<Longrightarrow> \<exists>K \<subseteq> M. safe xs a0 ?S (?Q u) (progs s u) K"
    using m by (auto simp: marks_known_def)
  obtain K where K: "K \<subseteq> M" "safe xs a0 ?S (?Q t) (progs s t) K" using known [OF t] by blast
  note nth = scanned_nth [OF sc]
  show thesis using s
  proof cases
    case (do_read i k v)
    have i: "in_array a0 i" using K(2) by (simp add: do_read)
    then have v: "v = arr s ! nat i" using do_read(3) nth(3) by (simp add: rd_def in_array_def)
    have "\<exists>K' \<subseteq> M. safe xs a0 ?S (?Q t) (k v) K'"
    proof (cases "nat i < length xs")
      case True
      show ?thesis
      proof (cases "nat i \<in> M")
        case seen: True
        have "safe xs a0 ?S (?Q t) (k v) (insert (nat i) K)" using K(2) nth(1) [OF True] v True seen by (simp add: do_read)
        then show ?thesis using K(1) seen by blast
      next
        case False
        then have "nat i \<notin> K" using K(1) by blast
        then have "safe xs a0 ?S (?Q t) (k v) K" using K(2) nth(1) [OF True] v True False by (simp add: do_read)
        then show ?thesis using K(1) by blast
      qed
    next
      case False
      then show ?thesis using K nth(2) [OF False] v by (auto simp: do_read)
    qed
    then have "marks_known xs a0 ts ranges s' M"
      using sc MS known by (simp add: marks_known_def do_read(1))
    then show ?thesis by (rule that) (use do_read in auto)
  next
    case (bad_read i k e)
    then show ?thesis using K(2) nth(3) by (simp add: rd_def in_array_def split: if_splits)
  next
    case (do_write i v p a)
    have w: "0 \<le> i" "nat i < length xs" "nat i \<in> ?S" "v = xs ! nat i + 1" "safe xs a0 ?S (?Q t) p (insert (nat i) K)"
      using K(2) by (simp_all add: do_write(2))
    have "nat i < length (arr s)" using w(2) sc by (simp add: scanned_def marking_def)
    then have a: "a = (arr s)[nat i := xs ! nat i + 1]" using do_write(3) w(1,4) by (simp add: wr_def split: if_splits)
    then have "scanned xs a0 (insert (nat i) M) a"
      using sc w(2) by (auto simp: scanned_def marking_def nth_list_update mark_def)
    moreover have "\<exists>K' \<subseteq> insert (nat i) M. safe xs a0 ?S (?Q u) (progs s' u) K'" if u: "u \<in> set ts" for u
    proof (cases "u = t")
      case True
      have "insert (nat i) K \<subseteq> insert (nat i) M" using K(1) by blast
      with w(5) show ?thesis by (intro exI [of _ "insert (nat i) K"]) (simp add: do_write(1) True)
    next
      case False
      obtain K' where "K' \<subseteq> M" "safe xs a0 ?S (?Q u) (progs s u) K'" using known [OF u] by blast
      then show ?thesis by (intro exI [of _ K']) (simp add: do_write(1) False subset_insertI2)
    qed
    ultimately have "marks_known xs a0 ts ranges s' (insert (nat i) M)"
      using MS w(3) by (simp add: marks_known_def do_write(1))
    then show ?thesis by (rule that) (use do_write in auto)
  next
    case (bad_write i v p e)
    have "0 \<le> i" "nat i < length xs" using K(2) by (simp_all add: bad_write(2))
    moreover have "length xs \<le> length (arr s)" using sc by (simp add: scanned_def marking_def)
    ultimately show ?thesis using bad_write(3) by (simp add: wr_def split: if_splits)
  next
    case (fails e)
    then show ?thesis using K(2) by simp
  qed
qed

lemma scan_inv_step:
  assumes inv: "scan_inv xs a0 me sent ranges s" and s: "scan_step me sent s s'"
  shows "scan_inv xs a0 me sent ranges s'"
proof -
  obtain M where M: "marks_known xs a0 (me # sent) ranges s M" using inv by (auto simp: scan_inv_def)
  have fin: "finite (answered s)" using inv finite_subset by (auto simp: scan_inv_def)
  show ?thesis using s
  proof (cases rule: scan_stepE)
    case (thread t)
    obtain M' where "marks_known xs a0 (me # sent) ranges s' M'" "crashed s' = crashed s" "searched s' = searched s"
      "answered s' = answered s" "proceeded s' = proceeded s" "\<And>u. progs s u = Ret () \<Longrightarrow> progs s' u = Ret ()"
      using access_keeps [OF M _ thread(3)] thread(2) by (metis list.set_intros set_ConsD)
    then show ?thesis using inv unfolding scan_inv_def by auto
  next
    case (answer t)
    have "\<not> proceeded s" using inv answer(3,5) by (auto simp: scan_inv_def)
    moreover have "marks_known xs a0 (me # sent) ranges s' M" using M by (simp add: marks_known_def answer(1))
    ultimately show ?thesis using inv answer fin unfolding scan_inv_def by auto
  next
    case proceed
    have "answered s \<subseteq> set sent" "int (length sent) \<le> int (card (answered s))" "card (set sent) = length sent"
      using inv proceed(4) by (auto simp: scan_inv_def distinct_card)
    then have "answered s = set sent" by (intro card_seteq) auto
    moreover have "marks_known xs a0 (me # sent) ranges s' M" using M by (simp add: marks_known_def proceed(1))
    ultimately show ?thesis using inv proceed unfolding scan_inv_def by auto
  qed
qed

interpretation scan_marks: step_invariant "scan_init dbg ts xs a0 me sent ranges" "scan_step me sent" "scan_inv xs a0 me sent ranges"
  for dbg ts xs a0 me sent ranges
  by unfold_locales (fact scan_inv_init, fact scan_inv_step)

text \<open>When the reclaimer goes on, all threads have finished.\<close>

lemma scan_inv_proceeded:
  assumes "scan_inv xs a0 me sent ranges s" and "proceeded s"
  shows "scanned xs a0 (all_hits xs (all_words (me # sent) ranges)) (arr s)"
proof -
  have fin: "progs s t = Ret ()" if "t \<in> set (me # sent)" for t using assms that by (auto simp: scan_inv_def)
  obtain M where M: "marks_known xs a0 (me # sent) ranges s M" using assms(1) by (auto simp: scan_inv_def)
  have "all_hits xs (concat (ranges t)) \<subseteq> M" if t: "t \<in> set (me # sent)" for t
  proof -
    obtain K where "K \<subseteq> M" "safe xs a0 (all_hits xs (all_words (me # sent) ranges))
        (\<lambda>K _. all_hits xs (concat (ranges t)) \<subseteq> K) (progs s t) K"
      using M t unfolding marks_known_def by blast
    then show ?thesis by (simp add: fin [OF t])
  qed
  then have "all_hits xs (all_words (me # sent) ranges) \<subseteq> M" unfolding all_hits_words by (rule UN_least)
  moreover have "M \<subseteq> all_hits xs (all_words (me # sent) ranges)" "scanned xs a0 M (arr s)"
    using M unfolding marks_known_def by blast+
  ultimately show ?thesis by (metis subset_antisym)
qed

text \<open>
  (C8) The concurrent scan is exact. The reclaimer and the signalled threads scan at the same time, their reads and
  writes of the working buffer in any order. When the reclaimer leaves the loop in which it waits for
  \<^verbatim>\<open>self_stacks_searched\<close>, no fault has happened, and the buffer is what the threads leave when they scan one after
  the other: an address is marked if and only if one of them scanned a word that refers to it.
\<close>

theorem concurrent_scan_exact:
  assumes "reachable (scan_init dbg ts xs a0 me sent ranges) (scan_step me sent) s" and "proceeded s"
  shows "crashed s = None \<and> scanned xs a0 (all_hits xs (all_words (me # sent) ranges)) (arr s)"
  using scan_marks.inv_reachable [OF assms(1)] scan_inv_proceeded [OF _ assms(2)] by (auto simp: scan_inv_def)

definition example_ranges :: "size_t \<Rightarrow> size_t list list" where
  "example_ranges t = (if t = 1 then [[34]] else [[48, 7], []])"

definition example_scan :: scan_state where
  "example_scan = \<lparr>arr = [16, 32, 48, 0, 16], progs = (\<lambda>t. scan_P True example_ts (example_ranges t)),
     searched = 0, answered = {}, proceeded = False, crashed = None\<rparr>"

lemma example_scan_init: "scan_init True example_ts [16, 32, 48] [16, 32, 48, 0, 16] 1 [2] example_ranges example_scan"
proof -
  have "addr_list [16, 32, 48]" by (simp add: addr_list_def aligned4_def PTR_MASK_def)
  moreover have "map_ready example_ts [16, 32, 48] [16, 32, 48, 0, 16]"
    by (simp add: map_ready_def example_ts_def pages_def scan_map_index_def)
  moreover have "marking [16, 32, 48] {} [16, 32, 48, 0, 16]"
    by (auto simp: marking_def mark_def less_Suc_eq numeral_3_eq_3)
  ultimately show ?thesis by (simp add: scan_init_def marking_ready_def example_scan_def)
qed

subsection \<open>The scan ends\<close>

text \<open>The accesses that a program can still make: a read has one continuation for each value.\<close>

primrec depth :: "'r prog \<Rightarrow> nat" where
  "depth (Ret r) = 0"
| "depth (Fail e) = 0"
| "depth (Read i k) = Suc (Max (range (\<lambda>v. depth (k v))))"
| "depth (Write i v p) = Suc (depth p)"

lemma depth_Read: "depth (k v) < depth (Read i k)"
proof -
  have "depth (k v) \<le> Max (range (\<lambda>v. depth (k v)))" by (rule Max_ge) auto
  then show ?thesis by (simp only: depth.simps less_Suc_eq_le)
qed

definition scan_rank :: "size_t \<Rightarrow> size_t list \<Rightarrow> scan_state \<Rightarrow> nat" where
  "scan_rank me sent s = (\<Sum>t \<in> set (me # sent). depth (progs s t)) + card (set sent - answered s) +
     (if proceeded s then 0 else 1)"

lemma access_lowers:
  assumes "scan_inv xs a0 me sent ranges s" and "t \<in> set (me # sent)" and "access_step t s s'"
  shows "scan_rank me sent s' < scan_rank me sent s"
proof -
  obtain M where M: "marks_known xs a0 (me # sent) ranges s M" using assms(1) by (auto simp: scan_inv_def)
  have keep: "crashed s' = None" "answered s' = answered s" "proceeded s' = proceeded s"
    using access_keeps [OF M assms(2,3)] assms(1) by (auto simp: scan_inv_def)
  have "depth (progs s' t) < depth (progs s t) \<and> (\<forall>u. u \<noteq> t \<longrightarrow> progs s' u = progs s u)"
    using assms(3)
  proof cases
    case (do_read i k v)
    then show ?thesis using depth_Read [of k v] by (simp del: depth.simps)
  next
    case (do_write i v p a)
    then show ?thesis by simp
  qed (use keep(1) in simp_all)
  then have "depth (progs s' t) < depth (progs s t)" "\<And>u. u \<noteq> t \<Longrightarrow> progs s' u = progs s u" by simp_all
  then have "(\<Sum>t \<in> set (me # sent). depth (progs s' t)) < (\<Sum>t \<in> set (me # sent). depth (progs s t))"
    using assms(2) by (intro sum_strict_mono_ex1) (simp, metis less_imp_le order_refl, blast)
  then show ?thesis by (simp add: scan_rank_def keep)
qed

lemma scan_lowers:
  assumes inv: "scan_inv xs a0 me sent ranges s" and s: "scan_step me sent s s'"
  shows "scan_rank me sent s' < scan_rank me sent s"
  using s
proof (cases rule: scan_stepE)
  case (thread t)
  have "t \<in> set (me # sent)" using thread(2) by simp
  then show ?thesis by (rule access_lowers [OF inv _ thread(3)])
next
  case (answer t)
  have "set sent - insert t (answered s) \<subset> set sent - answered s" using answer(3,5) by blast
  then show ?thesis by (simp add: scan_rank_def answer(1) psubset_card_mono)
next
  case proceed
  then show ?thesis by (simp add: scan_rank_def)
qed

text \<open>A thread that has not finished can make its next access.\<close>

lemma access_enabled:
  assumes m: "marks_known xs a0 ts ranges s M" and t: "t \<in> set ts" and p: "progs s t \<noteq> Ret ()"
  shows "\<exists>s'. access_step t s s'"
proof (cases "progs s t")
  case (Ret r)
  then show ?thesis using p by simp
next
  case (Read i k)
  then show ?thesis by (cases "rd (arr s) i") (blast intro: access_step.intros)+
next
  case (Write i v p)
  then show ?thesis by (cases "wr (arr s) i v") (blast intro: access_step.intros)+
qed (blast intro: access_step.intros)

lemma scan_enabled:
  assumes inv: "scan_inv xs a0 me sent ranges s" and "\<not> proceeded s"
  shows "\<exists>s'. scan_step me sent s s'"
proof -
  have c: "crashed s = None" using inv by (simp add: scan_inv_def)
  obtain M where M: "marks_known xs a0 (me # sent) ranges s M" using inv by (auto simp: scan_inv_def)
  show ?thesis
  proof (cases "\<forall>t \<in> set (me # sent). progs s t = Ret ()")
    case False
    then show ?thesis using access_enabled [OF M] thread [OF c] by blast
  next
    case fin: True
    show ?thesis
    proof (cases "set sent \<subseteq> answered s")
      case False
      then show ?thesis using answer [OF c] fin by (metis list.set_intros(2) subsetI)
    next
      case True
      then have "answered s = set sent" using inv by (auto simp: scan_inv_def)
      then have "int (length sent) \<le> searched s" using inv by (simp add: scan_inv_def distinct_card)
      then show ?thesis using proceed [OF c] fin assms(2) by auto
    qed
  qed
qed

interpretation scan_end: step_termination "scan_init dbg ts xs a0 me sent ranges" "scan_step me sent"
    "scan_inv xs a0 me sent ranges" proceeded "scan_rank me sent"
  for dbg ts xs a0 me sent ranges
  by unfold_locales (fact scan_lowers, fact scan_enabled)

text \<open>
  (C12) The concurrent scan ends. From the state in which the signals have been sent, the number of steps is
  bounded in every order of the threads' steps; no step is a fault; and a run that cannot go on has come
  to where the reclaimer leaves its loop: it never waits in vain.
\<close>

theorem concurrent_scan_ends:
  assumes "scan_init dbg ts xs a0 me sent ranges s"
  shows "(\<exists>b. {n. \<exists>s'. (scan_step me sent ^^ n) s s'} \<subseteq> {..b}) \<and>
    {s'. (scan_step me sent)\<^sup>*\<^sup>* s s'} \<subseteq> {s'. crashed s' = None} \<and>
    {s'. (scan_step me sent)\<^sup>*\<^sup>* s s' \<and> (\<nexists>s''. scan_step me sent s' s'')} \<subseteq> {s'. proceeded s'}"
proof (intro conjI)
  note inv = scan_inv_init [OF assms]
  note invs = scan_marks.inv_steps [OF _ inv]
  show "\<exists>b. {n. \<exists>s'. (scan_step me sent ^^ n) s s'} \<subseteq> {..b}"
    using scan_end.runs_bounded [OF inv] by (intro exI [of _ "scan_rank me sent s"]) fastforce
  show "{s'. (scan_step me sent)\<^sup>*\<^sup>* s s'} \<subseteq> {s'. crashed s' = None}"
    using invs by (auto simp: scan_inv_def)
  show "{s'. (scan_step me sent)\<^sup>*\<^sup>* s s' \<and> (\<nexists>s''. scan_step me sent s' s'')} \<subseteq> {s'. proceeded s'}"
    using invs scan_enabled by blast
qed

theorem concurrent_scan_ends_witness:
  "(\<exists>b. {n. \<exists>s'. (scan_step 1 [2] ^^ n) example_scan s'} \<subseteq> {..b}) \<and>
    {s'. (scan_step 1 [2])\<^sup>*\<^sup>* example_scan s'} \<subseteq> {s'. crashed s' = None} \<and>
    {s'. (scan_step 1 [2])\<^sup>*\<^sup>* example_scan s' \<and> (\<nexists>s''. scan_step 1 [2] s' s'')} \<subseteq> {s'. proceeded s'}"
  by (rule concurrent_scan_ends [OF example_scan_init])

theorem concurrent_scan_exact_witness:
  "\<exists>s. (scan_step 1 [2])\<^sup>*\<^sup>* example_scan s \<and> crashed s = None \<and> arr s = [16, 33, 49, 0, 16]"
proof -
  obtain s where s: "(scan_step 1 [2])\<^sup>*\<^sup>* example_scan s" "proceeded s"
    using scan_end.goal_reached [OF scan_inv_init [OF example_scan_init]] by blast
  have r: "reachable (scan_init True example_ts [16, 32, 48] [16, 32, 48, 0, 16] 1 [2] example_ranges) (scan_step 1 [2]) s"
    by (rule reachable_steps [OF s(1)], rule reachable_init, rule example_scan_init)
  have "all_hits [16, 32, 48] (all_words [1, 2] example_ranges) = {1, 2}"
    by (auto simp: all_words_def example_ranges_def hits_def PTR_MASK_def less_Suc_eq numeral_3_eq_3)
  then have c: "crashed s = None" "scanned [16, 32, 48] [16, 32, 48, 0, 16] {1, 2} (arr s)"
    using concurrent_scan_exact [OF r s(2)] by simp_all
  have "arr s = [16, 33, 49, 0, 16]"
    using scanned_nth(1) [OF c(2), of 0] scanned_nth(1) [OF c(2), of 1] scanned_nth(1) [OF c(2), of 2]
      scanned_nth(2) [OF c(2), of 3] scanned_nth(2) [OF c(2), of 4] scanned_nth(3) [OF c(2)]
    by (auto simp: list_eq_iff_nth_eq mark_def less_Suc_eq eval_nat_numeral)
  then show ?thesis using s(1) c(1) by blast
qed

end
