(* ===== verification/TS_Shared.thy ===== *)
theory TS_Shared
  imports TS_Steps TS_Queue
begin

text \<open>
  The queue of \<^verbatim>\<open>queue.c\<close> while its owner pushes and the reclaimer pops at the same time. \<^verbatim>\<open>queue.h\<close> promises
  a linearizable queue for one writer and one reader; here the accesses of the two to the shared
  fields and to the buffer are steps that interleave in any order.

  The code of a release build: the assertions read the indices once more.
\<close>

subsection \<open>State and steps\<close>

text \<open>
  The writer: outside; after \<^verbatim>\<open>threadscan_queue_is_full\<close> has answered no; in \<^verbatim>\<open>threadscan_queue_push\<close> between the
  store of the value and the increment of the index.
\<close>

datatype writer_pc = Away | Has_room | Stored size_t

text \<open>
  The reader: outside; in \<^verbatim>\<open>threadscan_queue_pop_bulk\<close> with the cached head index, the slots of the
  buffer still to be copied, and what has been copied.
\<close>

datatype reader_pc = Resting | Copying size_t "nat list" "size_t list"

text \<open>\<open>sent\<close> and \<open>got\<close>, which the code does not have, record what has been pushed and popped.\<close>

record shared_queue =
  sq :: queue_t
  writer :: writer_pc
  reader :: reader_pc
  sent :: "size_t list"
  got :: "size_t list"
  broken :: "fault option"

inductive writer_step :: "shared_queue \<Rightarrow> shared_queue \<Rightarrow> bool" for s where
  test_full: "writer s = Away \<Longrightarrow> threadscan_queue_is_full False (sq s) = Inr True \<Longrightarrow> writer_step s s"
| test_room: "writer s = Away \<Longrightarrow> threadscan_queue_is_full False (sq s) = Inr False \<Longrightarrow>
     writer_step s (s\<lparr>writer := Has_room\<rparr>)"
| store: "writer s = Has_room \<Longrightarrow> wr (elems (sq s)) (uint (INDEXIFY (idx_head (sq s)) (capacity (sq s)))) v = Inr es \<Longrightarrow>
     writer_step s (s\<lparr>sq := (sq s)\<lparr>elems := es\<rparr>, writer := Stored v\<rparr>)"
| store_bad: "writer s = Has_room \<Longrightarrow> wr (elems (sq s)) (uint (INDEXIFY (idx_head (sq s)) (capacity (sq s)))) v = Inl e \<Longrightarrow>
     writer_step s (s\<lparr>broken := Some e\<rparr>)"
| publish: "writer s = Stored v \<Longrightarrow>
     writer_step s (s\<lparr>sq := (sq s)\<lparr>idx_head := idx_head (sq s) + 1\<rparr>, writer := Away, sent := sent s @ [v]\<rparr>)"

text \<open>The slots from which the two calls of \<^verbatim>\<open>memcpy\<close> copy, one word at a time.\<close>

definition pop_slots :: "size_t \<Rightarrow> queue_t \<Rightarrow> nat list" where
  "pop_slots head_idx q =
     (let head = unat (INDEXIFY head_idx (capacity q));
          start = unat (INDEXIFY (idx_tail q) (capacity q)) in
      if head < start then [start ..< unat (capacity q)] @ [0 ..< head] else [start ..< head])"

inductive reader_step :: "shared_queue \<Rightarrow> shared_queue \<Rightarrow> bool" for s where
  find_empty: "reader s = Resting \<Longrightarrow> idx_head (sq s) - (idx_tail (sq s) - capacity (sq s)) = 0 \<Longrightarrow> reader_step s s"
| cache_head: "reader s = Resting \<Longrightarrow> sz = idx_head (sq s) - (idx_tail (sq s) - capacity (sq s)) \<Longrightarrow> sz \<noteq> 0 \<Longrightarrow>
     hd_idx = (if sz > len then idx_head (sq s) - (sz - len) else idx_head (sq s)) \<Longrightarrow>
     reader_step s (s\<lparr>reader := Copying hd_idx (pop_slots hd_idx (sq s)) []\<rparr>)"
| copy: "reader s = Copying hd_idx (p # ps) out \<Longrightarrow> rd (elems (sq s)) (int p) = Inr v \<Longrightarrow>
     reader_step s (s\<lparr>reader := Copying hd_idx ps (out @ [v])\<rparr>)"
| copy_bad: "reader s = Copying hd_idx (p # ps) out \<Longrightarrow> rd (elems (sq s)) (int p) = Inl e \<Longrightarrow>
     reader_step s (s\<lparr>broken := Some e\<rparr>)"
| free_slots: "reader s = Copying hd_idx [] out \<Longrightarrow>
     reader_step s (s\<lparr>sq := (sq s)\<lparr>idx_tail := hd_idx + capacity (sq s)\<rparr>, reader := Resting, got := got s @ out\<rparr>)"

definition queue_step :: "shared_queue \<Rightarrow> shared_queue \<Rightarrow> bool" where
  "queue_step s s' \<longleftrightarrow> broken s = None \<and> (writer_step s s' \<or> reader_step s s')"

definition shared_init :: "size_t list \<Rightarrow> size_t \<Rightarrow> shared_queue \<Rightarrow> bool" where
  "shared_init buf cap s \<longleftrightarrow> (\<exists>k < 63. 0 < k \<and> unat cap = 2 ^ k) \<and> length buf = unat cap \<and>
     s = \<lparr>sq = threadscan_queue_init buf cap, writer = Away, reader = Resting, sent = [], got = [], broken = None\<rparr>"

inductive_cases writer_stepE: "writer_step s s'"
inductive_cases reader_stepE: "reader_step s s'"

subsection \<open>Slots\<close>

lemma unat_of_nat_mod_pow2:
  assumes "\<exists>k < 63. N = 2 ^ k"
  shows "unat (of_nat x :: size_t) mod N = x mod N"
proof -
  from assms obtain k where "k < 63" "N = 2 ^ k" by auto
  then have "N dvd 2 ^ 64" using le_imp_power_dvd [of k 64 "2 :: nat"] by simp
  then show ?thesis by (simp add: unsigned_of_nat take_bit_eq_mod mod_mod_cancel)
qed

lemma slot_INDEXIFY:
  assumes "\<exists>k < 63. unat cap = 2 ^ k"
  shows "unat (INDEXIFY (of_nat x) cap) = x mod unat cap"
  using unat_of_nat_mod_pow2 [of "unat cap" x] assms by (simp add: INDEXIFY_unat)

lemma mod_step:
  fixes g i N :: nat
  assumes "i < N"
  shows "(g + i) mod N = (if g mod N + i < N then g mod N + i else g mod N + i - N)"
proof -
  have r: "(g + i) mod N = (g mod N + i) mod N" by (rule mod_add_left_eq [symmetric])
  show ?thesis
  proof (cases "g mod N + i < N")
    case False
    moreover have "g mod N + i - N < N" using assms mod_less_divisor [of N g] by linarith
    ultimately show ?thesis unfolding r by (simp add: le_mod_geq)
  qed (simp add: r)
qed

lemma int_less_uint: "int i < uint w \<longleftrightarrow> i < unat w"
  by (simp only: uint_nat of_nat_less_iff)

text \<open>The slots that are copied are those of the \<open>n\<close> oldest values, in order.\<close>

lemma pop_slots_eq:
  assumes q: "\<exists>k < 63. unat (capacity q) = 2 ^ k" "idx_tail q = of_nat (g + unat (capacity q))" and n: "n < unat (capacity q)"
  shows "pop_slots (of_nat (g + n)) q = map (\<lambda>i. i mod unat (capacity q)) [g ..< g + n]"
proof (rule nth_equalityI)
  let ?N = "unat (capacity q)"
  have ps: "pop_slots (of_nat (g + n)) q = (if (g + n) mod ?N < g mod ?N
      then [g mod ?N ..< ?N] @ [0 ..< (g + n) mod ?N] else [g mod ?N ..< (g + n) mod ?N])"
    unfolding pop_slots_def Let_def q(2) slot_INDEXIFY [OF q(1)] by simp
  have N: "g mod ?N < ?N" using n by simp
  note e = mod_step [OF n, of g]
  show "length (pop_slots (of_nat (g + n)) q) = length (map (\<lambda>i. i mod ?N) [g ..< g + n])"
    unfolding ps e using n N by auto
  fix i assume "i < length (pop_slots (of_nat (g + n)) q)"
  then have i: "i < n" unfolding ps e using n N by (auto split: if_splits)
  then have "(g + i) mod ?N = (if g mod ?N + i < ?N then g mod ?N + i else g mod ?N + i - ?N)"
    using n by (intro mod_step) simp
  then show "pop_slots (of_nat (g + n)) q ! i = map (\<lambda>i. i mod ?N) [g ..< g + n] ! i"
    unfolding ps e using i n N by (auto simp: nth_append)
qed

subsection \<open>Invariant\<close>

text \<open>
  The indices count what was pushed and popped, the buffer holds what is pushed and not popped, and one
  slot is free; whoever is inside an operation has done its part of the work correctly.
\<close>

definition indices_ok :: "size_t \<Rightarrow> shared_queue \<Rightarrow> bool" where
  "indices_ok cap s \<longleftrightarrow> (\<exists>k < 63. unat cap = 2 ^ k) \<and> capacity (sq s) = cap \<and> length (elems (sq s)) = unat cap \<and>
     idx_head (sq s) = of_nat (length (sent s)) \<and> idx_tail (sq s) = of_nat (length (got s) + unat cap) \<and>
     length (got s) \<le> length (sent s) \<and> length (sent s) < length (got s) + unat cap"

definition values_ok :: "size_t \<Rightarrow> shared_queue \<Rightarrow> bool" where
  "values_ok cap s \<longleftrightarrow> got s = take (length (got s)) (sent s) \<and>
     (\<forall>i. length (got s) \<le> i \<and> i < length (sent s) \<longrightarrow> elems (sq s) ! (i mod unat cap) = sent s ! i)"

fun writer_ok :: "size_t \<Rightarrow> shared_queue \<Rightarrow> writer_pc \<Rightarrow> bool" where
  "writer_ok cap s Away = True"
| "writer_ok cap s Has_room = (length (sent s) + 1 < length (got s) + unat cap)"
| "writer_ok cap s (Stored v) = (length (sent s) + 1 < length (got s) + unat cap \<and>
     elems (sq s) ! (length (sent s) mod unat cap) = v)"

fun reader_ok :: "size_t \<Rightarrow> shared_queue \<Rightarrow> reader_pc \<Rightarrow> bool" where
  "reader_ok cap s Resting = True"
| "reader_ok cap s (Copying hd_idx ps out) =
     (\<exists>n. hd_idx = of_nat (length (got s) + n) \<and> length (got s) + n \<le> length (sent s) \<and> length out \<le> n \<and>
        ps = map (\<lambda>i. i mod unat cap) [length (got s) + length out ..< length (got s) + n] \<and>
        out = take (length out) (drop (length (got s)) (sent s)))"

text \<open>The counters have not wrapped.\<close>

definition counters_left :: "size_t \<Rightarrow> shared_queue \<Rightarrow> bool" where
  "counters_left cap s \<longleftrightarrow> length (sent s) + unat cap < 2 ^ 64"

definition shared_inv :: "size_t \<Rightarrow> shared_queue \<Rightarrow> bool" where
  "shared_inv cap s \<longleftrightarrow> counters_left cap s \<longrightarrow>
     broken s = None \<and> indices_ok cap s \<and> values_ok cap s \<and> writer_ok cap s (writer s) \<and> reader_ok cap s (reader s)"

lemma shared_inv_init: "shared_init buf cap s \<Longrightarrow> shared_inv cap s"
  by (auto simp: shared_init_def shared_inv_def indices_ok_def values_ok_def threadscan_queue_init_def)

text \<open>The test of \<^verbatim>\<open>threadscan_queue_is_full\<close>.\<close>

lemma room_test:
  assumes "indices_ok cap s" and "counters_left cap s"
  shows "threadscan_queue_is_full False (sq s) = Inr (\<not> length (sent s) + 1 < length (got s) + unat cap)"
proof -
  have h: "unat (idx_head (sq s) + 1) = length (sent s) + 1"
    using assms unat_of_nat_64 [of "length (sent s) + 1"]
    by (simp add: indices_ok_def counters_left_def add.commute)
  have t: "unat (idx_tail (sq s)) = length (got s) + unat cap"
    using assms unat_of_nat_64 [of "length (got s) + unat cap"] by (simp add: indices_ok_def counters_left_def)
  show ?thesis by (simp add: threadscan_queue_is_full_def word_le_nat_alt h t not_less c_assert_def)
qed

lemma writer_keeps:
  assumes c: "counters_left cap s" and inv: "shared_inv cap s" and st: "writer_step s s'"
  shows "shared_inv cap s'"
proof -
  let ?N = "unat cap" and ?h = "length (sent s)" and ?g = "length (got s)"
  have i: "broken s = None" "indices_ok cap s" "values_ok cap s" "writer_ok cap s (writer s)" "reader_ok cap s (reader s)"
    using inv c by (simp_all add: shared_inv_def)
  have k: "\<exists>k < 63. ?N = 2 ^ k" "capacity (sq s) = cap" "length (elems (sq s)) = ?N" "idx_head (sq s) = of_nat ?h"
    using i(2) by (simp_all add: indices_ok_def)
  have N: "0 < ?N" using k(1) by auto
  have slot: "uint (INDEXIFY (idx_head (sq s)) (capacity (sq s))) = int (?h mod ?N)"
    unfolding k(2,4) using slot_INDEXIFY [OF k(1), of ?h] by (simp add: uint_nat)
  show ?thesis using st
  proof cases
    case test_full
    then show ?thesis using inv by simp
  next
    case test_room
    then show ?thesis using i room_test [OF i(2) c]
      by (cases "reader s") (auto simp: shared_inv_def indices_ok_def values_ok_def)
  next
    case (store v es)
    have es: "es = (elems (sq s))[?h mod ?N := v]" using store(3) N by (simp add: slot wr_def k(3) int_less_uint)
    have room: "?h + 1 < ?g + ?N" using i(4) store(2) by simp
    have other: "i mod ?N \<noteq> ?h mod ?N" if "?g \<le> i" "i < ?h" for i
    proof
      assume "i mod ?N = ?h mod ?N"
      then have "?N dvd ?h - i" using that by (metis less_imp_le mod_eq_dvd_iff_nat)
      then have "?N \<le> ?h - i" using that by (auto dest: dvd_imp_le)
      then show False using room that by simp
    qed
    have "(elems (sq s))[?h mod ?N := v] ! (i mod ?N) = sent s ! i" if "?g \<le> i" "i < ?h" for i
      using i(3) other [OF that] that by (simp add: values_ok_def)
    then have "values_ok cap s'" using i(3) by (simp add: values_ok_def store(1) es)
    moreover have "reader_ok cap s' (reader s')" using i(5) by (cases "reader s") (simp_all add: store(1))
    ultimately show ?thesis
      using i room N by (simp add: shared_inv_def store(1) indices_ok_def es k(3))
  next
    case (store_bad v e)
    then show ?thesis using N by (simp add: slot wr_def k(3) int_less_uint)
  next
    case (publish v)
    have w: "?h + 1 < ?g + ?N" "elems (sq s) ! (?h mod ?N) = v" using i(4) publish(2) by simp_all
    have "values_ok cap s'" using i(2,3) w(2)
      by (auto simp: values_ok_def indices_ok_def publish(1) nth_append less_Suc_eq)
    moreover have "reader_ok cap s' (reader s')"
      using i(5) by (cases "reader s") (auto simp: publish(1))
    ultimately show ?thesis
      using i w(1) by (simp add: shared_inv_def publish(1) indices_ok_def add.commute)
  qed
qed

lemma reader_keeps:
  assumes c: "counters_left cap s" and inv: "shared_inv cap s" and st: "reader_step s s'"
  shows "shared_inv cap s'"
proof -
  let ?N = "unat cap" and ?h = "length (sent s)" and ?g = "length (got s)"
  have i: "broken s = None" "indices_ok cap s" "values_ok cap s" "writer_ok cap s (writer s)" "reader_ok cap s (reader s)"
    using inv c by (simp_all add: shared_inv_def)
  have k: "\<exists>k < 63. ?N = 2 ^ k" "capacity (sq s) = cap" "length (elems (sq s)) = ?N" "idx_head (sq s) = of_nat ?h"
    "idx_tail (sq s) = of_nat (?g + ?N)" "?g \<le> ?h" "?h < ?g + ?N"
    using i(2) by (simp_all add: indices_ok_def)
  have N: "0 < ?N" using k(1) by auto
  show ?thesis using st
  proof cases
    case find_empty
    then show ?thesis using inv by simp
  next
    case (cache_head sz hd_idx len)
    have sz: "sz = of_nat (?h - ?g)"
      using cache_head(3) k(6) by (simp add: k(2,4,5) of_nat_diff)
    define n where "n = (if sz > len then unat len else ?h - ?g)"
    have n: "n \<le> ?h - ?g" "hd_idx = of_nat (?g + n)"
    proof -
      have u: "unat sz = ?h - ?g" unfolding sz using c by (intro unat_of_nat_64) (simp add: counters_left_def)
      show "n \<le> ?h - ?g" using u by (auto simp: n_def word_less_nat_alt)
      show "hd_idx = of_nat (?g + n)"
        using k(6) by (simp add: cache_head(5) n_def k(4) sz of_nat_diff)
    qed
    have "pop_slots hd_idx (sq s) = map (\<lambda>i. i mod ?N) [?g ..< ?g + n]"
      using pop_slots_eq [of "sq s" ?g n] k n by simp
    then have "reader_ok cap s' (reader s')" using n k(6) by (auto simp: cache_head(1))
    moreover have "writer_ok cap s' (writer s')" using i(4) by (cases "writer s") (simp_all add: cache_head(1))
    ultimately show ?thesis using i by (simp add: shared_inv_def indices_ok_def values_ok_def cache_head(1))
  next
    case (copy hd_idx p ps out v)
    then obtain n where n: "hd_idx = of_nat (?g + n)" "?g + n \<le> ?h" "length out \<le> n"
      "p # ps = map (\<lambda>i. i mod ?N) [?g + length out ..< ?g + n]" "out = take (length out) (drop ?g (sent s))"
      using i(5) by auto
    have less: "length out < n" using n(3,4) by (cases "length out = n") auto
    then have p: "p = (?g + length out) mod ?N" "ps = map (\<lambda>i. i mod ?N) [?g + length (out @ [v]) ..< ?g + n]"
      using n(4) by (simp_all add: upt_conv_Cons)
    have "v = elems (sq s) ! p" using copy(3) by (simp add: rd_def split: if_splits)
    then have v: "v = sent s ! (?g + length out)" using i(3) p(1) less n(2) by (simp add: values_ok_def)
    have "out @ [v] = take (length (out @ [v])) (drop ?g (sent s))"
      using n(2,5) less by (simp add: v take_Suc_conv_app_nth)
    then have "reader_ok cap s' (reader s')" using n(1,2) less p(2) by (auto simp: copy(1) intro!: exI [of _ n])
    moreover have "writer_ok cap s' (writer s')" using i(4) by (cases "writer s") (simp_all add: copy(1))
    ultimately show ?thesis using i by (simp add: shared_inv_def indices_ok_def values_ok_def copy(1))
  next
    case (copy_bad hd_idx p ps out e)
    then have "p \<in> (\<lambda>i. i mod ?N) ` UNIV" using i(5) by (auto simp: map_eq_Cons_conv)
    then have "p < ?N" using N by auto
    then show ?thesis using copy_bad(3) by (simp add: rd_def k(3) int_less_uint)
  next
    case (free_slots hd_idx out)
    then obtain n where n: "hd_idx = of_nat (?g + n)" "?g + n \<le> ?h" "length out = n" "out = take n (drop ?g (sent s))"
      using i(5) by fastforce
    have got: "got s @ out = take (?g + n) (sent s)"
      using i(3) n(4) by (simp add: values_ok_def take_add)
    have "length (got s @ out) = ?g + n" using n(3) by simp
    then have "values_ok cap s'" using i(3) got by (simp add: values_ok_def free_slots(1))
    moreover have "writer_ok cap s' (writer s')" using i(4) by (cases "writer s") (simp_all add: free_slots(1))
    ultimately show ?thesis using i n(1,2,3) k(2)
      by (simp add: shared_inv_def indices_ok_def free_slots(1) ac_simps)
  qed
qed

text \<open>The counters only grow.\<close>

lemma sent_grows: "queue_step s s' \<Longrightarrow> length (sent s) \<le> length (sent s')"
  by (auto simp: queue_step_def elim!: writer_stepE reader_stepE)

lemma shared_inv_step: "shared_inv cap s \<Longrightarrow> queue_step s s' \<Longrightarrow> shared_inv cap s'"
proof -
  assume inv: "shared_inv cap s" and st: "queue_step s s'"
  show "shared_inv cap s'"
  proof (cases "counters_left cap s'")
    case True
    then have "counters_left cap s" using sent_grows [OF st] by (simp add: counters_left_def)
    then show ?thesis using writer_keeps [OF _ inv] reader_keeps [OF _ inv] st by (auto simp: queue_step_def)
  qed (simp add: shared_inv_def)
qed

interpretation shared: step_invariant "shared_init buf cap" queue_step "shared_inv cap" for buf cap
  by unfold_locales (fact shared_inv_init, fact shared_inv_step)

subsection \<open>Linearizability\<close>

lemma shared_contents:
  assumes "indices_ok cap s" and "values_ok cap s" and "counters_left cap s"
  shows "q_inv (sq s)" and "q_size (sq s) = length (sent s) - length (got s)" and "q_list (sq s) = drop (length (got s)) (sent s)"
proof -
  let ?N = "unat cap" and ?h = "length (sent s)" and ?g = "length (got s)"
  have k: "\<exists>k < 63. ?N = 2 ^ k" "capacity (sq s) = cap" "length (elems (sq s)) = ?N" "idx_head (sq s) = of_nat ?h"
    "idx_tail (sq s) = of_nat (?g + ?N)" "?g \<le> ?h" "?h < ?g + ?N"
    using assms(1) by (simp_all add: indices_ok_def)
  have "idx_head (sq s) - (idx_tail (sq s) - capacity (sq s)) = of_nat (?h - ?g)"
    using k(6) by (simp add: k(2,4,5) of_nat_diff)
  then show sz: "q_size (sq s) = ?h - ?g"
    unfolding q_size_def using assms(3) unat_of_nat_64 [of "?h - ?g"] by (simp add: counters_left_def)
  then show inv: "q_inv (sq s)" using k by (auto simp: q_inv_def)
  show "q_list (sq s) = drop ?g (sent s)"
  proof (rule nth_equalityI)
    show "length (q_list (sq s)) = length (drop ?g (sent s))" by (simp add: length_q_list [OF inv] sz)
    fix i assume "i < length (q_list (sq s))"
    then have i: "i < ?h - ?g" by (simp add: length_q_list [OF inv] sz)
    have "unat (idx_tail (sq s)) mod ?N = ?g mod ?N"
      unfolding k(5) unat_of_nat_mod_pow2 [OF k(1)] by (rule mod_add_self2)
    then have "(unat (idx_tail (sq s)) + i) mod ?N = (?g + i) mod ?N" by (rule mod_add_cong) (rule refl)
    then show "q_list (sq s) ! i = drop ?g (sent s) ! i"
      using i assms(2) nth_q_list [OF inv, of i] by (simp add: sz k(2) values_ok_def)
  qed
qed

text \<open>
  (C20) The queue is linearizable for one writer and one reader. In every interleaving of the accesses of the
  two, as long as the 64-bit counters have not wrapped: no access is outside the buffer; what the reader has
  got from its calls, in order, followed by what the queue holds, is exactly what the writer has
  pushed, in order; nothing is lost, duplicated or read before it has been stored; and one slot
  stays unused.
\<close>

theorem queue_linearizable:
  assumes "reachable (shared_init buf cap) queue_step s" and "length (sent s) + unat cap < 2 ^ 64"
  shows "broken s = None \<and> sent s = got s @ q_list (sq s) \<and> length (q_list (sq s)) < unat cap"
proof -
  have c: "counters_left cap s" using assms(2) by (simp add: counters_left_def)
  then have i: "broken s = None" "indices_ok cap s" "values_ok cap s"
    using shared.inv_reachable [OF assms(1)] by (simp_all add: shared_inv_def)
  have "length (sent s) - length (got s) < unat cap" using i(2) by (simp add: indices_ok_def) linarith
  moreover have "got s = take (length (got s)) (sent s)" using i(3) by (simp add: values_ok_def)
  then have "sent s = got s @ drop (length (got s)) (sent s)" by (metis append_take_drop_id)
  ultimately show ?thesis
    using i(1) shared_contents(2,3) [OF i(2,3) c] length_q_list [OF shared_contents(1) [OF i(2,3) c]] by simp
qed

text \<open>
  In the example the reader begins while the writer has stored its second value and not yet
  published it: it gets the first one only.
\<close>

definition shared_start :: shared_queue where
  "shared_start = \<lparr>sq = threadscan_queue_init [0, 0, 0, 0] 4, writer = Away, reader = Resting, sent = [], got = [], broken = None\<rparr>"

lemma shared_start_init: "shared_init [0, 0, 0, 0] 4 shared_start"
proof -
  have "\<exists>k < 63. 0 < k \<and> (4 :: nat) = 2 ^ k" by (rule exI [of _ 2]) simp
  then show ?thesis by (simp add: shared_init_def shared_start_def)
qed

theorem queue_linearizable_witness:
  "\<exists>s. queue_step\<^sup>*\<^sup>* shared_start s \<and> writer s = Stored 16 \<and> got s = [8] \<and> broken s = None \<and> q_list (sq s) = []"
proof -
  let ?q = "\<lambda>es h t. \<lparr>elems = es, capacity = 4 :: size_t, idx_head = h, idx_tail = t\<rparr>"
  let ?s = "\<lambda>q w r xs ys. \<lparr>sq = q, writer = w, reader = r, sent = xs, got = ys, broken = None\<rparr> :: shared_queue"
  note defs = queue_step_def threadscan_queue_is_full_def c_assert_def INDEXIFY_def wr_def rd_def pop_slots_def
  have 1: "queue_step shared_start (?s (?q [0, 0, 0, 0] 0 4) Has_room Resting [] [])"
    using test_room [of shared_start] by (simp add: defs shared_start_def threadscan_queue_init_def word_le_nat_alt)
  have 2: "queue_step (?s (?q [0, 0, 0, 0] 0 4) Has_room Resting [] []) (?s (?q [8, 0, 0, 0] 0 4) (Stored 8) Resting [] [])"
    using store [of "?s (?q [0, 0, 0, 0] 0 4) Has_room Resting [] []" 8 "[8, 0, 0, 0]"] by (simp add: defs)
  have 3: "queue_step (?s (?q [8, 0, 0, 0] 0 4) (Stored 8) Resting [] []) (?s (?q [8, 0, 0, 0] 1 4) Away Resting [8] [])"
    using publish [of "?s (?q [8, 0, 0, 0] 0 4) (Stored 8) Resting [] []" 8] by (simp add: defs)
  have 4: "queue_step (?s (?q [8, 0, 0, 0] 1 4) Away Resting [8] []) (?s (?q [8, 0, 0, 0] 1 4) Has_room Resting [8] [])"
    using test_room [of "?s (?q [8, 0, 0, 0] 1 4) Away Resting [8] []"] by (simp add: defs)
  have 5: "queue_step (?s (?q [8, 0, 0, 0] 1 4) Has_room Resting [8] []) (?s (?q [8, 16, 0, 0] 1 4) (Stored 16) Resting [8] [])"
    using store [of "?s (?q [8, 0, 0, 0] 1 4) Has_room Resting [8] []" 16 "[8, 16, 0, 0]"] by (simp add: defs)
  have 6: "queue_step (?s (?q [8, 16, 0, 0] 1 4) (Stored 16) Resting [8] []) (?s (?q [8, 16, 0, 0] 1 4) (Stored 16) (Copying 1 [0] []) [8] [])"
    using cache_head [of "?s (?q [8, 16, 0, 0] 1 4) (Stored 16) Resting [8] []" 1 1 100] by (simp add: defs)
  have 7: "queue_step (?s (?q [8, 16, 0, 0] 1 4) (Stored 16) (Copying 1 [0] []) [8] []) (?s (?q [8, 16, 0, 0] 1 4) (Stored 16) (Copying 1 [] [8]) [8] [])"
    using copy [of "?s (?q [8, 16, 0, 0] 1 4) (Stored 16) (Copying 1 [0] []) [8] []" 1 0 "[]" "[]" 8] by (simp add: defs)
  have 8: "queue_step (?s (?q [8, 16, 0, 0] 1 4) (Stored 16) (Copying 1 [] [8]) [8] []) (?s (?q [8, 16, 0, 0] 1 5) (Stored 16) Resting [8] [8])"
    using free_slots [of "?s (?q [8, 16, 0, 0] 1 4) (Stored 16) (Copying 1 [] [8]) [8] []" 1 "[8]"] by (simp add: defs)
  let ?e = "?s (?q [8, 16, 0, 0] 1 5) (Stored 16) Resting [8] [8]"
  have steps: "queue_step\<^sup>*\<^sup>* shared_start ?e"
    using 1 2 3 4 5 6 7 8 by (meson r_into_rtranclp rtranclp_trans)
  have "reachable (shared_init [0, 0, 0, 0] 4) queue_step ?e"
    by (rule reachable_steps [OF steps], rule reachable_init, rule shared_start_init)
  from queue_linearizable [OF this] show ?thesis using steps by (intro exI [of _ ?e]) simp
qed

subsection \<open>The functions as runs\<close>

lemma queue_run: "broken s = None \<Longrightarrow> writer_step s s' \<or> reader_step s s' \<Longrightarrow> queue_step\<^sup>*\<^sup>* s s'"
  by (rule r_into_rtranclp) (simp add: queue_step_def)

lemma push_runs:
  assumes s: "broken s = None" "writer s = Away" and f: "threadscan_queue_is_full False (sq s) = Inr False"
    and p: "threadscan_queue_push False (sq s) v = Inr q'"
  shows "queue_step\<^sup>*\<^sup>* s (s\<lparr>sq := q', sent := sent s @ [v]\<rparr>)"
proof -
  obtain es where es: "wr (elems (sq s)) (uint (INDEXIFY (idx_head (sq s)) (capacity (sq s)))) v = Inr es"
    "q' = (sq s)\<lparr>elems := es, idx_head := idx_head (sq s) + 1\<rparr>"
    using p by (auto simp: threadscan_queue_push_def bindE_Inr_iff c_assert_def Let_def)
  let ?s1 = "s\<lparr>writer := Has_room\<rparr>" and ?s2 = "s\<lparr>sq := (sq s)\<lparr>elems := es\<rparr>, writer := Stored v\<rparr>"
  have r1: "queue_step\<^sup>*\<^sup>* s ?s1" using s f by (intro queue_run disjI1 test_room)
  have r2: "queue_step\<^sup>*\<^sup>* ?s1 ?s2" using store [of ?s1 v es] s es(1) by (intro queue_run disjI1) simp_all
  have "writer_step ?s2 (?s2\<lparr>sq := q', writer := Away, sent := sent s @ [v]\<rparr>)" using publish [of ?s2 v] by (simp add: es(2))
  then have r3: "queue_step\<^sup>*\<^sup>* ?s2 (?s2\<lparr>sq := q', writer := Away, sent := sent s @ [v]\<rparr>)" using s by (intro queue_run disjI1) simp_all
  have eq: "?s2\<lparr>sq := q', writer := Away, sent := sent s @ [v]\<rparr> = s\<lparr>sq := q', sent := sent s @ [v]\<rparr>" using s(2) by simp
  show ?thesis using rtranclp_trans [OF r1 rtranclp_trans [OF r2 r3]] unfolding eq .
qed

lemma copy_run:
  assumes "broken s = None" "reader s = Copying h ps out" "\<And>p. p \<in> set ps \<Longrightarrow> p < length (elems (sq s))"
  shows "queue_step\<^sup>*\<^sup>* s (s\<lparr>reader := Copying h [] (out @ map ((!) (elems (sq s))) ps)\<rparr>)"
  using assms
proof (induction ps arbitrary: s out)
  case (Cons p ps)
  let ?v = "elems (sq s) ! p"
  let ?s1 = "s\<lparr>reader := Copying h ps (out @ [?v])\<rparr>"
  have "rd (elems (sq s)) (int p) = Inr ?v" using Cons.prems(3) [of p] by simp
  then have r1: "queue_step\<^sup>*\<^sup>* s ?s1" using Cons.prems(1,2) by (intro queue_run disjI2 copy)
  have "queue_step\<^sup>*\<^sup>* ?s1 (?s1\<lparr>reader := Copying h [] ((out @ [?v]) @ map ((!) (elems (sq ?s1))) ps)\<rparr>)"
    using Cons.prems(1,3) by (intro Cons.IH) simp_all
  then show ?case using rtranclp_trans [OF r1] by simp
next
  case Nil
  then have "s\<lparr>reader := Copying h [] out\<rparr> = s" by (cases s) simp
  then show ?case by simp
qed

lemma pop_slots_values:
  assumes q: "q_inv q" and m: "m \<le> q_size q"
  defines "h \<equiv> idx_tail q - capacity q + of_nat m"
  shows "map ((!) (elems q)) (pop_slots h q) = take m (q_list q)" "p \<in> set (pop_slots h q) \<Longrightarrow> p < length (elems q)"
proof -
  define g where "g = unat (idx_tail q - capacity q)"
  let ?N = "unat (capacity q)"
  have N: "length (elems q) = ?N" "m < ?N" "0 < ?N" using q m q_inv_cap_bounds(1) by (auto simp: q_inv_def)
  have t: "idx_tail q = of_nat (g + ?N)" by (simp add: g_def)
  have ps: "pop_slots h q = map (\<lambda>i. i mod ?N) [g ..< g + m]"
    using pop_slots_eq [OF q_inv_cap [OF q] t N(2)] by (simp add: h_def g_def)
  show "p < length (elems q)" if "p \<in> set (pop_slots h q)" using that N unfolding ps by auto
  have mm: "(g + i) mod ?N = (unat (idx_tail q) + i) mod ?N" for i
    using unat_of_nat_mod_pow2 [OF q_inv_cap [OF q], of "g + ?N"] unfolding t [symmetric] by (metis mod_add_left_eq mod_add_self2)
  show "map ((!) (elems q)) (pop_slots h q) = take m (q_list q)"
  proof (rule nth_equalityI)
    show "length (map ((!) (elems q)) (pop_slots h q)) = length (take m (q_list q))" using m by (simp add: ps length_q_list [OF q])
    fix i assume "i < length (map ((!) (elems q)) (pop_slots h q))"
    then have "i < m" by (simp add: ps)
    then show "map ((!) (elems q)) (pop_slots h q) ! i = take m (q_list q) ! i"
      using m mm by (simp add: ps nth_q_list [OF q])
  qed
qed

lemma pop_runs:
  fixes len :: size_t
  assumes s: "broken s = None" "reader s = Resting" and q: "q_inv (sq s)" and m: "m = min (unat len) (q_size (sq s))"
  shows "queue_step\<^sup>*\<^sup>* s (s\<lparr>sq := popped (sq s) m, got := got s @ take m (q_list (sq s))\<rparr>)"
proof (cases "idx_head (sq s) - (idx_tail (sq s) - capacity (sq s)) = 0")
  case True
  then have "m = 0" using m by (simp add: q_size_def)
  then show ?thesis by (simp add: popped_def)
next
  case False
  let ?q = "sq s" and ?sz = "idx_head (sq s) - (idx_tail (sq s) - capacity (sq s))"
  define h where "h = idx_tail ?q - capacity ?q + of_nat m"
  have mq: "m \<le> q_size ?q" using m by simp
  have h: "h = (if ?sz > len then idx_head ?q - (?sz - len) else idx_head ?q)"
  proof (cases "?sz > len")
    case True
    then have "unat len \<le> q_size ?q" by (simp add: q_size_def word_less_nat_alt)
    then show ?thesis using True by (simp add: h_def m)
  next
    case False
    then have "q_size ?q \<le> unat len" by (simp add: q_size_def word_less_nat_alt)
    then have "of_nat m = ?sz" by (simp add: m q_size_def)
    then show ?thesis using False by (simp add: h_def)
  qed
  note slots = pop_slots_values [OF q mq, folded h_def]
  let ?s1 = "s\<lparr>reader := Copying h (pop_slots h ?q) []\<rparr>"
  let ?s2 = "s\<lparr>reader := Copying h [] (take m (q_list ?q))\<rparr>"
  have r1: "queue_step\<^sup>*\<^sup>* s ?s1" using s False h by (intro queue_run disjI2 cache_head [where len = len]) simp_all
  have r2: "queue_step\<^sup>*\<^sup>* ?s1 ?s2" using copy_run [of ?s1 h "pop_slots h ?q" "[]"] s(1) slots by simp
  have r3: "queue_step\<^sup>*\<^sup>* ?s2 (?s2\<lparr>sq := ?q\<lparr>idx_tail := h + capacity ?q\<rparr>, reader := Resting, got := got s @ take m (q_list ?q)\<rparr>)"
    using free_slots [of ?s2 h "take m (q_list ?q)"] s(1) by (intro queue_run disjI2) simp_all
  have eq: "?s2\<lparr>sq := ?q\<lparr>idx_tail := h + capacity ?q\<rparr>, reader := Resting, got := got s @ take m (q_list ?q)\<rparr> =
      s\<lparr>sq := popped ?q m, got := got s @ take m (q_list ?q)\<rparr>"
    using s(2) by (simp add: h_def popped_def)
  show ?thesis using rtranclp_trans [OF r1 rtranclp_trans [OF r2 r3]] unfolding eq .
qed

text \<open>
  (C21) The functions of \<^verbatim>\<open>queue.c\<close> are runs of these steps. A push after \<^verbatim>\<open>threadscan_queue_is_full\<close> has answered no,
  and a bulk pop, both without an interruption, take the state to the queue that the function returns, and what
  the function puts into the array of the caller is what the reader has got.
\<close>

theorem queue_functions_are_runs:
  assumes "broken s = None" and "q_inv (sq s)"
  shows "(\<forall>v q'. writer s = Away \<and> threadscan_queue_is_full False (sq s) = Inr False \<and>
        threadscan_queue_push False (sq s) v = Inr q' \<longrightarrow> queue_step\<^sup>*\<^sup>* s (s\<lparr>sq := q', sent := sent s @ [v]\<rparr>)) \<and>
    (\<forall>vals d len. reader s = Resting \<and> len < 2 ^ 31 \<and> d + min (unat len) (length (q_list (sq s))) \<le> length vals \<longrightarrow>
      (\<exists>m vals' q'. threadscan_queue_pop_bulk False vals d len (sq s) = Inr (int m, vals', q') \<and>
        queue_step\<^sup>*\<^sup>* s (s\<lparr>sq := q', got := got s @ take m (drop d vals')\<rparr>)))"
proof (intro conjI allI impI; elim conjE)
  fix v q' assume "writer s = Away" "threadscan_queue_is_full False (sq s) = Inr False" "threadscan_queue_push False (sq s) v = Inr q'"
  then show "queue_step\<^sup>*\<^sup>* s (s\<lparr>sq := q', sent := sent s @ [v]\<rparr>)" by (rule push_runs [OF assms(1)])
next
  fix vals :: "size_t list" and d and len :: size_t
  assume r: "reader s = Resting" and len: "len < 2 ^ 31" and room: "d + min (unat len) (length (q_list (sq s))) \<le> length vals"
  define m where "m = min (unat len) (q_size (sq s))"
  have l: "length (q_list (sq s)) = q_size (sq s)" by (rule length_q_list [OF assms(2)])
  have "unat len < 2 ^ 31" using len by (simp add: word_less_nat_alt)
  then have e: "threadscan_queue_pop_bulk False vals d len (sq s) =
      Inr (int m, take d vals @ take m (q_list (sq s)) @ drop (d + m) vals, popped (sq s) m)"
    using room by (intro threadscan_queue_pop_bulk_eq [OF assms(2) m_def]) (simp_all add: l m_def)
  have "take m (drop d (take d vals @ take m (q_list (sq s)) @ drop (d + m) vals)) = take m (q_list (sq s))"
    using room by (simp add: l m_def)
  then show "\<exists>m vals' q'. threadscan_queue_pop_bulk False vals d len (sq s) = Inr (int m, vals', q') \<and>
      queue_step\<^sup>*\<^sup>* s (s\<lparr>sq := q', got := got s @ take m (drop d vals')\<rparr>)"
    using e pop_runs [OF assms(1) r assms(2) m_def] 
    by (intro exI [of _ m] exI [of _ "take d vals @ take m (q_list (sq s)) @ drop (d + m) vals"] exI [of _ "popped (sq s) m"])
       (simp only: simp_thms)
qed

definition shared_filled :: shared_queue where
  "shared_filled = \<lparr>sq = \<lparr>elems = [8, 0, 0, 0], capacity = 4, idx_head = 1, idx_tail = 4\<rparr>, writer = Away, reader = Resting,
     sent = [8], got = [], broken = None\<rparr>"

theorem queue_functions_are_runs_witness:
  "(\<exists>q'. threadscan_queue_push False (sq shared_filled) 16 = Inr q' \<and>
     queue_step\<^sup>*\<^sup>* shared_filled (shared_filled\<lparr>sq := q', sent := [8, 16]\<rparr>)) \<and>
   (\<exists>vals' q'. threadscan_queue_pop_bulk False [0, 0] 1 1 (sq shared_filled) = Inr (1, vals', q') \<and> vals' = [0, 8] \<and>
     queue_step\<^sup>*\<^sup>* shared_filled (shared_filled\<lparr>sq := q', got := [8]\<rparr>))"
proof -
  have k: "\<exists>k < 63. (4 :: nat) = 2 ^ k" by (rule exI [of _ 2]) simp
  then have inv: "q_inv (sq shared_filled)" by (simp add: q_inv_def q_size_def shared_filled_def)
  have b: "broken shared_filled = None" by (simp add: shared_filled_def)
  note runs = queue_functions_are_runs [OF b inv]
  have push: "threadscan_queue_push False (sq shared_filled) 16 = Inr \<lparr>elems = [8, 16, 0, 0], capacity = 4, idx_head = 2, idx_tail = 4\<rparr>"
    "threadscan_queue_is_full False (sq shared_filled) = Inr False"
    by (simp_all add: shared_filled_def threadscan_queue_is_full_def threadscan_queue_push_def INDEXIFY_def wr_def c_assert_def word_le_nat_alt)
  have pop: "threadscan_queue_pop_bulk False [0, 0] 1 1 (sq shared_filled) =
      Inr (int 1, [0, 8], \<lparr>elems = [8, 0, 0, 0], capacity = 4, idx_head = 1, idx_tail = 5\<rparr>)"
    by code_simp
  have ql: "length (q_list (sq shared_filled)) = 1" by code_simp
  have s: "writer shared_filled = Away" "reader shared_filled = Resting" "sent shared_filled = [8]" "got shared_filled = []"
    by (simp_all add: shared_filled_def)
  show ?thesis
    using runs [THEN conjunct1, rule_format, of 16] runs [THEN conjunct2, rule_format, of 1 1 "[0, 0]"] push pop s ql by auto
qed

end
