(* ===== verification/TS_Parallel.thy ===== *)
theory TS_Parallel
  imports TS_Collect TS_Marking
begin

text \<open>
  The scan of \<open>do_reclaim\<close> in \<open>TS_Reclaim\<close>, where the handlers run one after another, against the scan of
  \<open>TS_Marking\<close>, where all threads run at once: both leave the same working buffer.
\<close>

text \<open>The words that a thread scans, range by range.\<close>

definition scan_ranges :: "'o world \<Rightarrow> tdheap \<Rightarrow> size_t \<Rightarrow> size_t list list" where
  "scan_ranges w h td = map (range_words (w_memory w)) (thread_ranges (w_rsp w td) (the (h td)))"

lemma concat_scan_ranges: "concat (scan_ranges w h td) = td_words w h td"
  by (simp add: scan_ranges_def td_words_def thread_words_def)

lemma all_words_scan_ranges:
  "all_words (me # filter (signalled (w_kill w) h me) ls) (scan_ranges w h) = scan_words w me h ls"
  by (simp add: all_words_def concat_scan_ranges scan_words_def)

text \<open>What has been scanned determines the buffer.\<close>

lemma scanned_unique:
  assumes "scanned xs a0 S a" and "scanned xs a0 S b"
  shows "a = b"
proof (rule nth_equalityI)
  show "length a = length b" using scanned_nth(3) [OF assms(1)] scanned_nth(3) [OF assms(2)] by simp
  show "a ! i = b ! i" for i
    using scanned_nth(1,2) [OF assms(1), of "int i"] scanned_nth(1,2) [OF assms(2), of "int i"]
    by (cases "i < length xs") simp_all
qed

text \<open>The parallel scan that belongs to a reclamation by \<open>me\<close> with the threads \<open>ls\<close> in the list.\<close>

definition parallel_scan ::
  "bool \<Rightarrow> 'o world \<Rightarrow> size_t \<Rightarrow> 'o ts_state \<Rightarrow> size_t list \<Rightarrow> size_t list \<Rightarrow> size_t list \<Rightarrow> scan_state \<Rightarrow> bool" where
  "parallel_scan dbg w me s ls xs a0 c \<longleftrightarrow>
     (let sent = filter (signalled (w_kill w) (tds (proc s)) me) ls in
      reachable (scan_init dbg (g_tsdata s) xs a0 me sent (scan_ranges w (tds (proc s)))) (scan_step me sent) c)"

text \<open>
  (C7) The handlers may run at the same time. Take the state in which \<^verbatim>\<open>do_reclaim\<close> is called, and any interleaving
  of the accesses of the reclaimer and of the handlers of all signalled threads, up to the point where the
  reclaimer leaves its loop: the working buffer is then exactly the one that \<open>do_reclaim\<close>, with the
  handlers one after another, returns.
\<close>

theorem do_reclaim_parallel:
  assumes "lists (proc s) ls ss" and "scan_ready dbg w me (tds (proc s)) ls"
    and "bufs s (buf_addrs (g_tsdata s)) = Some a0"
    and "parallel_scan dbg w me s ls xs a0 c" and "proceeded c"
  shows "returns (do_reclaim dbg w (w_rsp w me) me s) (\<lambda>((addrs, cnt), s').
    bufs s' addrs = Some (arr c) \<and> cnt = int (length xs))"
proof -
  let ?h = "tds (proc s)"
  define sent where "sent = filter (signalled (w_kill w) ?h me) ls"
  have r: "reachable (scan_init dbg (g_tsdata s) xs a0 me sent (scan_ranges w ?h)) (scan_step me sent) c"
    using assms(4) unfolding parallel_scan_def Let_def sent_def .
  then obtain c0 where "scan_init dbg (g_tsdata s) xs a0 me sent (scan_ranges w ?h) c0"
    by (induction rule: reachable.induct) auto
  then have xs: "addr_list xs" "xs \<noteq> []" "dbg \<longrightarrow> 0 \<notin> set xs" and "marking xs {} a0" "map_ready (g_tsdata s) xs a0"
    by (simp_all add: scan_init_def marking_ready_def)
  then have s: "scanning xs {} s" using assms(3) by (simp add: scanning_def)
  have c: "scanned xs a0 (all_hits xs (scan_words w me ?h ls)) (arr c)"
    using scan_inv_proceeded [OF scan_marks.inv_reachable [OF r] assms(5)]
    unfolding sent_def all_words_scan_ranges .
  show ?thesis
  proof (rule returns_mono [OF do_reclaim_correct [OF xs s assms(1,2)]], clarify)
    fix s' assume fr: "scan_frame xs s s'" and m: "scanning xs (all_hits xs (scan_words w me ?h ls)) s'"
    obtain a' where a': "bufs s' (buf_addrs (g_tsdata s)) = Some a'" "length a' = length a0"
      "drop (length xs) a' = drop (length xs) a0" "g_tsdata s' = g_tsdata s"
      using fr assms(3) unfolding scan_frame_def by auto
    then have "scanned xs a0 (all_hits xs (scan_words w me ?h ls)) a'"
      using m by (simp add: scanned_def scanning_def)
    then show "bufs s' (buf_addrs (g_tsdata s)) = Some (arr c) \<and> int (length xs) = int (length xs)"
      using scanned_unique [OF _ c] a'(1) by simp
  qed
qed

subsection \<open>Example\<close>

text \<open>
  Two threads with overlapping stacks: both find a reference to the last address, and race for its mark; the reclaimer
  alone finds one to the second address.
\<close>

definition duo_state :: "simple_os ts_state" where
  "duo_state = example_state
     \<lparr>g_tsdata := example_ts, bufs := [0x10000 \<mapsto> [16, 32, 48, 0, 16]],
      proc := example_proc\<lparr>tds := [0x5000 \<mapsto> example_td\<lparr>td_next := 0x9000\<rparr>, 0x9000 \<mapsto> example_td\<lparr>self := 8\<rparr>]\<rparr>\<rparr>"

definition duo_world :: "simple_os world" where
  "duo_world = example_world\<lparr>w_memory := [0x2FFF0 \<mapsto> 34, 0x2FFF8 \<mapsto> 49],
     w_rsp := (\<lambda>td. if td = 0x5000 then 0x2FFF0 else 0x2FFF8)\<rparr>"

lemma duo_lists: "lists (proc duo_state) [0x5000, 0x9000] []"
  by (simp add: lists_def duo_state_def example_proc_def nxt_def example_td_def zero_td_def)

lemma duo_ranges:
  "words_at (w_memory duo_world) 0x2FFF0 (unat ((0x30000 - 0x2FFF0 :: size_t) div 8)) = Inr [34, 49]"
  "words_at (w_memory duo_world) 0x2FFF8 (unat ((0x30000 - 0x2FFF8 :: size_t) div 8)) = Inr [49]"
proof -
  have n: "unat ((0x30000 - 0x2FFF0 :: size_t) div 8) = Suc (Suc 0)" "unat ((0x30000 - 0x2FFF8 :: size_t) div 8) = Suc 0"
    by simp_all
  show "words_at (w_memory duo_world) 0x2FFF0 (unat ((0x30000 - 0x2FFF0 :: size_t) div 8)) = Inr [34, 49]"
    unfolding n by (simp add: duo_world_def load_def)
  show "words_at (w_memory duo_world) 0x2FFF8 (unat ((0x30000 - 0x2FFF8 :: size_t) div 8)) = Inr [49]"
    unfolding n by (simp add: duo_world_def load_def)
qed

lemma duo_scan_ready: "scan_ready True duo_world 0x5000 (tds (proc duo_state)) [0x5000, 0x9000]"
proof -
  have "readable (w_memory duo_world) \<lparr>low = 0x2FFF0, high = 0x30000\<rparr>"
    "readable (w_memory duo_world) \<lparr>low = 0x2FFF8, high = 0x30000\<rparr>"
    using duo_ranges by (simp_all only: readable_def mem_range.select_convs) blast+
  then show ?thesis
    by (simp add: scan_ready_def td_scannable_def thread_ranges_def duo_state_def example_td_def zero_td_def EINVAL_def)
       (simp add: duo_world_def example_world_def)
qed

lemma duo_scan_words: "scan_words duo_world 0x5000 (tds (proc duo_state)) [0x5000, 0x9000] = [34, 49, 49]"
proof -
  have rsp: "w_rsp duo_world 0x5000 = 0x2FFF0" "w_rsp duo_world 0x9000 = 0x2FFF8" "w_kill duo_world = (\<lambda>_. 0)"
    by (simp_all add: duo_world_def example_world_def)
  have "range_words (w_memory duo_world) \<lparr>low = 0x2FFF0, high = 0x30000\<rparr> = [34, 49]"
    "range_words (w_memory duo_world) \<lparr>low = 0x2FFF8, high = 0x30000\<rparr> = [49]"
    using duo_ranges by (simp_all only: range_words_def mem_range.select_convs sum.case)
  then show ?thesis
    by (simp add: scan_words_def td_words_def thread_words_def thread_ranges_def signalled_def rsp duo_state_def
        example_td_def zero_td_def ESRCH_def)
qed

definition duo_scan :: scan_state where
  "duo_scan = \<lparr>arr = [16, 32, 48, 0, 16],
     progs = (\<lambda>t. scan_P True example_ts (scan_ranges duo_world (tds (proc duo_state)) t)),
     searched = 0, answered = {}, proceeded = False, crashed = None\<rparr>"

lemma duo_scan_init:
  "scan_init True (g_tsdata duo_state) [16, 32, 48] [16, 32, 48, 0, 16] 0x5000
     (filter (signalled (w_kill duo_world) (tds (proc duo_state)) 0x5000) [0x5000, 0x9000])
     (scan_ranges duo_world (tds (proc duo_state))) duo_scan"
  using example_scan_init by (simp add: scan_init_def marking_ready_def duo_scan_def duo_state_def signalled_def)

theorem do_reclaim_parallel_witness:
  "returns (do_reclaim True duo_world (w_rsp duo_world 0x5000) 0x5000 duo_state) (\<lambda>((addrs, cnt), s').
    bufs s' addrs = Some [16, 33, 49, 0, 16] \<and> cnt = int (length [16, 32, 48 :: size_t]))"
proof -
  let ?sent = "filter (signalled (w_kill duo_world) (tds (proc duo_state)) 0x5000) [0x5000, 0x9000]"
  obtain c where c: "(scan_step 0x5000 ?sent)\<^sup>*\<^sup>* duo_scan c" "proceeded c"
    using scan_end.goal_reached [OF scan_inv_init [OF duo_scan_init]] by blast
  have par: "parallel_scan True duo_world 0x5000 duo_state [0x5000, 0x9000] [16, 32, 48] [16, 32, 48, 0, 16] c"
    unfolding parallel_scan_def Let_def
    by (rule reachable_steps [OF c(1)], rule reachable_init, rule duo_scan_init)
  have "all_hits [16, 32, 48] (all_words (0x5000 # ?sent) (scan_ranges duo_world (tds (proc duo_state)))) = {1, 2}"
    unfolding all_words_scan_ranges duo_scan_words
    by (auto simp: hits_def PTR_MASK_def less_Suc_eq numeral_3_eq_3)
  then have sc: "scanned [16, 32, 48] [16, 32, 48, 0, 16] {1, 2} (arr c)"
    using scan_inv_proceeded [OF scan_marks.inv_reachable [OF par [unfolded parallel_scan_def Let_def]] c(2)] by simp
  have "scanned [16, 32, 48] [16, 32, 48, 0, 16] {1, 2} [16, 33, 49, 0, 16]"
    by (auto simp: scanned_def marking_def mark_def less_Suc_eq numeral_3_eq_3)
  then have a: "arr c = [16, 33, 49, 0, 16]" using scanned_unique [OF sc] by simp
  show ?thesis
    using do_reclaim_parallel [OF duo_lists duo_scan_ready _ par c(2)] unfolding a
    by (simp add: duo_state_def example_ts_def)
qed

end
