(* ===== verification/TS_Storage.thy ===== *)
theory TS_Storage
  imports TS_Steps TS_Collect "HOL-Library.Disjoint_Sets"
begin

text \<open>
  The list \<^verbatim>\<open>storage\<close> of \<^verbatim>\<open>threadscan.c\<close>, which no lock protects: a reclaimer gives up the reclaimer lock before it
  stores what it could not free, so it pushes its block with compare-and-swap while the next reclaimer takes
  the whole list, and while others push. The accesses of all threads to the head of the list, and to the
  blocks, are steps that interleave in any order.
\<close>

subsection \<open>State and steps\<close>

text \<open>
  A thread: elsewhere; in \<^verbatim>\<open>store_remaining_addrs\<close> with its block \<open>p\<close>, before the read of the head and between the
  store of \<^verbatim>\<open>next\<close> and the compare-and-swap; in \<^verbatim>\<open>generate_working_pointers_list\<close> with the rest of the list that it has
  taken and the addresses gathered so far, before and after the copy of the addresses of the block \<open>p\<close>.
\<close>

datatype store_pc = Elsewhere | Unlinked size_t | Linked size_t | Gathering size_t "size_t list" | Gathered size_t "size_t list"

text \<open>\<open>put\<close> and \<open>took\<close>, which the code does not have, record which addresses have been stored and gathered.\<close>

record store_state =
  st_head :: size_t
  st_bufs :: "size_t \<rightharpoonup> size_t list"
  st_pcs :: "store_pc list"
  put :: "size_t list"
  took :: "size_t list"
  st_fault :: "fault option"

definition goto :: "nat \<Rightarrow> store_pc \<Rightarrow> store_state \<Rightarrow> store_state" where
  "goto i pc s = s\<lparr>st_pcs := (st_pcs s)[i := pc]\<rparr>"

text \<open>An access of a block that is not there.\<close>

definition block_gone :: "store_state \<Rightarrow> size_t \<Rightarrow> bool" where
  "block_gone s p \<longleftrightarrow> st_bufs s p = None"

inductive storer_step :: "nat \<Rightarrow> store_state \<Rightarrow> store_state \<Rightarrow> bool" for i s where
  convert: "st_pcs s ! i = Elsewhere \<Longrightarrow> p \<noteq> 0 \<Longrightarrow> st_bufs s p = None \<Longrightarrow>
     0 < n \<Longrightarrow> n + 2 \<le> length a \<Longrightarrow> n < 2 ^ 31 \<Longrightarrow>
     storer_step i s (goto i (Unlinked p) (s\<lparr>st_bufs := (st_bufs s)(p \<mapsto> stored_block (a ! 0) n a)\<rparr>))"
| set_next: "st_pcs s ! i = Unlinked p \<Longrightarrow> st_bufs s p = Some l \<Longrightarrow>
     storer_step i s (goto i (Linked p) (s\<lparr>st_bufs := (st_bufs s)(p \<mapsto> l[0 := st_head s])\<rparr>))"
| cas_ok: "st_pcs s ! i = Linked p \<Longrightarrow> st_bufs s p = Some l \<Longrightarrow> l ! 0 = st_head s \<Longrightarrow>
     storer_step i s (goto i Elsewhere (s\<lparr>st_head := p, put := put s @ st_addrs l\<rparr>))"
| cas_retry: "st_pcs s ! i = Linked p \<Longrightarrow> st_bufs s p = Some l \<Longrightarrow> l ! 0 \<noteq> st_head s \<Longrightarrow>
     storer_step i s (goto i (Unlinked p) s)"
| storer_bad: "st_pcs s ! i = Unlinked p \<or> st_pcs s ! i = Linked p \<Longrightarrow> block_gone s p \<Longrightarrow>
     storer_step i s (s\<lparr>st_fault := Some Bad_access\<rparr>)"

inductive gatherer_step :: "nat \<Rightarrow> store_state \<Rightarrow> store_state \<Rightarrow> bool" for i s where
  take_all: "st_pcs s ! i = Elsewhere \<Longrightarrow> gatherer_step i s (goto i (Gathering (st_head s) []) (s\<lparr>st_head := 0\<rparr>))"
| copy_addrs: "st_pcs s ! i = Gathering p out \<Longrightarrow> p \<noteq> 0 \<Longrightarrow> st_bufs s p = Some l \<Longrightarrow>
     gatherer_step i s (goto i (Gathered p (out @ st_addrs l)) s)"
| unmap_block: "st_pcs s ! i = Gathered p out \<Longrightarrow> st_bufs s p = Some l \<Longrightarrow>
     gatherer_step i s (goto i (Gathering (l ! 0) out) (s\<lparr>st_bufs := (st_bufs s)(p := None)\<rparr>))"
| all_gathered: "st_pcs s ! i = Gathering 0 out \<Longrightarrow> gatherer_step i s (goto i Elsewhere (s\<lparr>took := took s @ out\<rparr>))"
| gatherer_bad: "st_pcs s ! i = Gathering p out \<and> p \<noteq> 0 \<or> st_pcs s ! i = Gathered p out \<Longrightarrow> block_gone s p \<Longrightarrow>
     gatherer_step i s (s\<lparr>st_fault := Some Bad_access\<rparr>)"

definition storage_step :: "store_state \<Rightarrow> store_state \<Rightarrow> bool" where
  "storage_step s s' \<longleftrightarrow> st_fault s = None \<and> (\<exists>i < length (st_pcs s). storer_step i s s' \<or> gatherer_step i s s')"

definition storage_init :: "nat \<Rightarrow> store_state \<Rightarrow> bool" where
  "storage_init N s \<longleftrightarrow> s = \<lparr>st_head = 0, st_bufs = Map.empty, st_pcs = replicate N Elsewhere, put = [], took = [], st_fault = None\<rparr>"

inductive_cases storer_stepE: "storer_step i s s'"
inductive_cases gatherer_stepE: "gatherer_step i s s'"

subsection \<open>Invariant\<close>

text \<open>Every thread owns the blocks of a chain; those of the list are owned by none.\<close>

definition all_blocks :: "(size_t \<rightharpoonup> size_t list) \<Rightarrow> size_t list \<Rightarrow> bool" where
  "all_blocks bs cs \<longleftrightarrow> distinct cs \<and> (\<forall>c \<in> set cs. \<exists>l. bs c = Some l \<and> st_ok l)"

fun chain_ok :: "(size_t \<rightharpoonup> size_t list) \<Rightarrow> store_pc \<Rightarrow> size_t list \<Rightarrow> bool" where
  "chain_ok bs Elsewhere cs = (cs = [])"
| "chain_ok bs (Unlinked p) cs = (cs = [p] \<and> p \<noteq> 0)"
| "chain_ok bs (Linked p) cs = (cs = [p] \<and> p \<noteq> 0)"
| "chain_ok bs (Gathering p out) cs = path (st_next bs) p cs"
| "chain_ok bs (Gathered p out) cs = (cs \<noteq> [] \<and> path (st_next bs) p cs)"

text \<open>The addresses that a thread has taken and not delivered yet.\<close>

fun in_flight :: "(size_t \<rightharpoonup> size_t list) \<Rightarrow> store_pc \<Rightarrow> size_t list \<Rightarrow> size_t multiset" where
  "in_flight bs (Gathering p out) cs = mset out + mset (stored bs cs)"
| "in_flight bs (Gathered p out) cs = mset out + mset (stored bs (tl cs))"
| "in_flight bs pc cs = {#}"

text \<open>\<open>ch\<close> maps each thread to its chain, and the number of threads to the list itself.\<close>

definition storage_at :: "(nat \<Rightarrow> size_t list) \<Rightarrow> store_state \<Rightarrow> bool" where
  "storage_at ch s \<longleftrightarrow> (let N = length (st_pcs s); bs = st_bufs s in
     st_fault s = None \<and> path (st_next bs) (st_head s) (ch N) \<and>
     (\<forall>j \<le> N. all_blocks bs (ch j)) \<and> (\<forall>j < N. chain_ok bs (st_pcs s ! j) (ch j)) \<and>
     disjoint_family_on (\<lambda>j. set (ch j)) {..N} \<and>
     mset (put s) = mset (took s) + mset (stored bs (ch N)) + (\<Sum>j < N. in_flight bs (st_pcs s ! j) (ch j)))"

definition storage_ok :: "store_state \<Rightarrow> bool" where
  "storage_ok s \<longleftrightarrow> (\<exists>ch. storage_at ch s)"

lemma storage_atD:
  assumes "storage_at ch s"
  shows "st_fault s = None" "path (st_next (st_bufs s)) (st_head s) (ch (length (st_pcs s)))"
    "j \<le> length (st_pcs s) \<Longrightarrow> all_blocks (st_bufs s) (ch j)" "j < length (st_pcs s) \<Longrightarrow> chain_ok (st_bufs s) (st_pcs s ! j) (ch j)"
    "j \<le> length (st_pcs s) \<Longrightarrow> m \<le> length (st_pcs s) \<Longrightarrow> j \<noteq> m \<Longrightarrow> set (ch j) \<inter> set (ch m) = {}"
    "mset (put s) = mset (took s) + mset (stored (st_bufs s) (ch (length (st_pcs s)))) +
      (\<Sum>j < length (st_pcs s). in_flight (st_bufs s) (st_pcs s ! j) (ch j))"
  using assms by (auto simp: storage_at_def Let_def disjoint_family_on_def)

lemma st_next_cong: "path (st_next bs) p cs \<Longrightarrow> (\<And>c. c \<in> set cs \<Longrightarrow> bs' c = bs c) \<Longrightarrow> path (st_next bs') p cs"
  by (erule path_cong) (simp add: st_next_def)

lemma all_blocks_cong: "all_blocks bs cs \<Longrightarrow> (\<And>c. c \<in> set cs \<Longrightarrow> bs' c = bs c) \<Longrightarrow> all_blocks bs' cs"
  by (simp add: all_blocks_def)

lemma chain_ok_cong: "chain_ok bs pc cs \<Longrightarrow> (\<And>c. c \<in> set cs \<Longrightarrow> bs' c = bs c) \<Longrightarrow> chain_ok bs' pc cs"
  by (cases pc) (auto intro: st_next_cong)

lemma in_flight_cong:
  assumes "\<And>c. c \<in> set cs \<Longrightarrow> bs' c = bs c"
  shows "in_flight bs' pc cs = in_flight bs pc cs"
proof -
  have "stored bs' cs = stored bs cs" "stored bs' (tl cs) = stored bs (tl cs)"
    using assms by (auto intro!: stored_cong dest: list.set_sel(2) [rotated] split: list.splits) (cases cs; auto)+
  then show ?thesis by (cases pc) simp_all
qed

text \<open>
  One thread \<open>i\<close> goes on: its chain becomes \<open>a\<close> and the list \<open>b\<close>, while the blocks of the other threads stay as they are.
\<close>

lemma storage_move:
  assumes at: "storage_at ch s" and N: "N = length (st_pcs s)" and i: "i < N"
    and s': "st_pcs s' = (st_pcs s)[i := pc]" "st_fault s' = None"
    and keep: "\<And>j c. j < N \<Longrightarrow> j \<noteq> i \<Longrightarrow> c \<in> set (ch j) \<Longrightarrow> st_bufs s' c = st_bufs s c"
    and a: "all_blocks (st_bufs s') a" "chain_ok (st_bufs s') pc a"
    and b: "all_blocks (st_bufs s') b" "path (st_next (st_bufs s')) (st_head s') b"
    and ab: "set a \<inter> set b = {}" "\<And>j. j < N \<Longrightarrow> j \<noteq> i \<Longrightarrow> (set a \<union> set b) \<inter> set (ch j) = {}"
    and acc: "mset (put s') + mset (took s) + mset (stored (st_bufs s) (ch N)) + in_flight (st_bufs s) (st_pcs s ! i) (ch i) =
      mset (put s) + mset (took s') + mset (stored (st_bufs s') b) + in_flight (st_bufs s') pc a"
  shows "storage_at (ch(i := a, N := b)) s'"
proof -
  note D = storage_atD [OF at, folded N]
  let ?ch = "ch(i := a, N := b)"
  have len: "length (st_pcs s') = N" by (simp add: s' N)
  have blk: "all_blocks (st_bufs s') (?ch j)" if "j \<le> N" for j
    using that a(1) b(1) all_blocks_cong [OF D(3), of j "st_bufs s'"] keep [of j] by (auto simp: le_less)
  have chn: "chain_ok (st_bufs s') (st_pcs s' ! j) (?ch j)" if j: "j < N" for j
  proof (cases "j = i")
    case False
    then show ?thesis using j chain_ok_cong [OF D(4) [OF j], of "st_bufs s'"] keep by (simp add: s')
  qed (use i a(2) in \<open>simp add: s' N\<close>)
  have "set (?ch j) \<inter> set (?ch m) = {}" if jm: "j \<le> N" "m \<le> N" "j \<noteq> m" for j m
  proof -
    have o: False if "x \<in> set (ch u)" "x \<in> set a \<or> x \<in> set b" "u \<le> N" "u \<noteq> i" "u \<noteq> N" for u x
      using ab(2) [of u] that by (auto simp: le_less)
    have mem: "u = N \<and> x \<in> set b \<or> u = i \<and> u \<noteq> N \<and> x \<in> set a \<or> u \<noteq> i \<and> u \<noteq> N \<and> x \<in> set (ch u)"
      if "x \<in> set (?ch u)" for u x
      using that by (auto split: if_splits)
    have False if x: "x \<in> set (?ch j)" "x \<in> set (?ch m)" for x
      using mem [OF x(1)] mem [OF x(2)] o [of x j] o [of x m] D(5) [OF jm] ab(1) jm by blast
    then show ?thesis by blast
  qed
  then have dis: "disjoint_family_on (\<lambda>j. set (?ch j)) {..N}" by (simp add: disjoint_family_on_def)
  let ?f = "\<lambda>j. in_flight (st_bufs s) (st_pcs s ! j) (ch j)" and ?f' = "\<lambda>j. in_flight (st_bufs s') (st_pcs s' ! j) (?ch j)"
  have "sum ?f' ({..<N} - {i}) = sum ?f ({..<N} - {i})"
  proof (rule sum.cong [OF refl])
    fix j assume "j \<in> {..<N} - {i}"
    then have j: "j < N" "j \<noteq> i" by auto
    then show "?f' j = ?f j" using in_flight_cong [OF keep [OF j]] by (simp add: s')
  qed
  moreover have "sum ?f {..<N} = ?f i + sum ?f ({..<N} - {i})" "sum ?f' {..<N} = ?f' i + sum ?f' ({..<N} - {i})"
    using i by (intro sum.remove; simp)+
  moreover have "?f' i = in_flight (st_bufs s') pc a" using i by (simp add: s' N)
  ultimately have "mset (put s') = mset (took s') + mset (stored (st_bufs s') b) + sum ?f' {..<N}"
    using acc D(6) by (simp add: ac_simps)
  then show ?thesis
    unfolding storage_at_def Let_def len using s'(2) b(2) blk chn dis by simp
qed

text \<open>The chain of a thread is apart from the list and from the other chains.\<close>

lemma chains_apart:
  assumes "storage_at ch s" and "N = length (st_pcs s)" and "i < N"
  shows "set (ch i) \<inter> set (ch N) = {}" "j < N \<Longrightarrow> j \<noteq> i \<Longrightarrow> set (ch i) \<inter> set (ch j) = {}"
    "j < N \<Longrightarrow> j \<noteq> i \<Longrightarrow> set (ch N) \<inter> set (ch j) = {}"
    "j \<le> N \<Longrightarrow> c \<in> set (ch j) \<Longrightarrow> \<exists>l. st_bufs s c = Some l \<and> st_ok l"
  using storage_atD(3,5) [OF assms(1)] assms(2,3) by (simp_all add: all_blocks_def)

lemma list_kept:
  assumes "storage_at ch s" and "N = length (st_pcs s)" and "p \<notin> set (ch N)"
  shows "all_blocks ((st_bufs s)(p := v)) (ch N)" "path (st_next ((st_bufs s)(p := v))) (st_head s) (ch N)"
    "stored ((st_bufs s)(p := v)) (ch N) = stored (st_bufs s) (ch N)"
proof -
  have k: "((st_bufs s)(p := v)) c = st_bufs s c" if "c \<in> set (ch N)" for c using that assms(3) by auto
  show "all_blocks ((st_bufs s)(p := v)) (ch N)"
    by (rule all_blocks_cong [OF storage_atD(3) [OF assms(1)] k]) (simp_all add: assms(2))
  show "path (st_next ((st_bufs s)(p := v))) (st_head s) (ch N)"
    by (rule st_next_cong [OF storage_atD(2) [OF assms(1), folded assms(2)] k])
  show "stored ((st_bufs s)(p := v)) (ch N) = stored (st_bufs s) (ch N)" by (rule stored_cong [OF k])
qed

lemma goto_simps [simp]:
  "st_pcs (goto i pc s) = (st_pcs s)[i := pc]" "st_head (goto i pc s) = st_head s" "st_bufs (goto i pc s) = st_bufs s"
  "put (goto i pc s) = put s" "took (goto i pc s) = took s" "st_fault (goto i pc s) = st_fault s"
  by (simp_all add: goto_def)

lemma storer_keeps:
  assumes at: "storage_at ch s" and i: "i < length (st_pcs s)" and st: "storer_step i s s'"
  shows "storage_ok s'"
proof -
  define N where "N = length (st_pcs s)"
  note D = storage_atD [OF at, folded N_def]
  note A = chains_apart [OF at N_def i [folded N_def]]
  note move = storage_move [OF at N_def i [folded N_def]]
  have iN: "i < N" using i by (simp add: N_def)
  show ?thesis using st
  proof cases
    case (convert p n a)
    let ?l = "stored_block (a ! 0) n a"
    have nc: "p \<notin> set (ch j)" if "j \<le> N" for j using A(4) [OF that, of p] convert(4) by auto
    have "ch i = []" using D(4) [OF iN] convert(2) by simp
    have "storage_at (ch(i := [p], N := ch N)) s'"
    proof (rule move [where pc = "Unlinked p"])
      show "all_blocks (st_bufs s') (ch N)" "path (st_next (st_bufs s')) (st_head s') (ch N)"
        using list_kept(1,2) [OF at N_def nc] by (simp_all add: convert(1))
      show "mset (put s') + mset (took s) + mset (stored (st_bufs s) (ch N)) + in_flight (st_bufs s) (st_pcs s ! i) (ch i) =
          mset (put s) + mset (took s') + mset (stored (st_bufs s') (ch N)) + in_flight (st_bufs s') (Unlinked p) [p]"
        using list_kept(3) [OF at N_def nc] by (simp add: convert(1,2))
    qed (use convert nc D(1) A(3) stored_block_correct(3) [OF convert(5-7)] in \<open>auto simp: all_blocks_def\<close>)
    then show ?thesis by (auto simp: storage_ok_def)
  next
    case (set_next p l)
    have ci: "ch i = [p]" "p \<noteq> 0" using D(4) [OF iN] set_next(2) by simp_all
    have l: "st_ok l" using A(4) [of i p] ci set_next(3) iN by auto
    then have l': "st_ok (l[0 := st_head s])" "0 < length l" by (auto simp: st_ok_def)
    have nc: "p \<notin> set (ch j)" if "j \<le> N" "j \<noteq> i" for j using that ci A(1,2) by (cases "j = N") auto
    have "storage_at (ch(i := [p], N := ch N)) s'"
    proof (rule move [where pc = "Linked p"])
      show "all_blocks (st_bufs s') (ch N)" "path (st_next (st_bufs s')) (st_head s') (ch N)"
        using list_kept(1,2) [OF at N_def nc] iN by (simp_all add: set_next(1))
      show "mset (put s') + mset (took s) + mset (stored (st_bufs s) (ch N)) + in_flight (st_bufs s) (st_pcs s ! i) (ch i) =
          mset (put s) + mset (took s') + mset (stored (st_bufs s') (ch N)) + in_flight (st_bufs s') (Linked p) [p]"
        using list_kept(3) [OF at N_def nc] iN by (simp add: set_next(1,2))
    qed (use set_next(1) nc D(1) A ci l' iN in \<open>auto simp: all_blocks_def\<close>)
    then show ?thesis by (auto simp: storage_ok_def)
  next
    case (cas_ok p l)
    have ci: "ch i = [p]" "p \<noteq> 0" using D(4) [OF iN] cas_ok(2) by simp_all
    have l: "st_ok l" using A(4) [of i p] ci cas_ok(3) iN by auto
    have "storage_at (ch(i := [], N := p # ch N)) s'"
    proof (rule move [where pc = Elsewhere])
      show "all_blocks (st_bufs s') (p # ch N)" using D(3) [of N] A(1) ci l cas_ok(3) by (auto simp: all_blocks_def cas_ok(1))
      show "path (st_next (st_bufs s')) (st_head s') (p # ch N)"
        using D(2) ci(2) cas_ok(3,4) by (simp add: cas_ok(1) st_next_def)
      show "mset (put s') + mset (took s) + mset (stored (st_bufs s) (ch N)) + in_flight (st_bufs s) (st_pcs s ! i) (ch i) =
          mset (put s) + mset (took s') + mset (stored (st_bufs s') (p # ch N)) + in_flight (st_bufs s') Elsewhere []"
        using cas_ok(3) by (simp add: cas_ok(1,2) stored_def)
    qed (use cas_ok(1) D(1) A ci in \<open>auto simp: all_blocks_def\<close>)
    then show ?thesis by (auto simp: storage_ok_def)
  next
    case (cas_retry p l)
    have ci: "ch i = [p]" "p \<noteq> 0" using D(4) [OF iN] cas_retry(2) by simp_all
    have "storage_at (ch(i := [p], N := ch N)) s'"
      by (rule move [where pc = "Unlinked p"])
         (use cas_retry(1,2) D(1,2) D(3) [of i] D(3) [of N] A(1-3) ci iN in \<open>auto simp: Int_Un_distrib2\<close>)
    then show ?thesis by (auto simp: storage_ok_def)
  next
    case (storer_bad p)
    then have "ch i = [p]" using D(4) [OF iN] by auto
    then show ?thesis using A(4) [of i p] iN storer_bad(3) by (auto simp: block_gone_def)
  qed
qed

lemma gatherer_keeps:
  assumes at: "storage_at ch s" and i: "i < length (st_pcs s)" and st: "gatherer_step i s s'"
  shows "storage_ok s'"
proof -
  define N where "N = length (st_pcs s)"
  note D = storage_atD [OF at, folded N_def]
  note A = chains_apart [OF at N_def i [folded N_def]]
  note move = storage_move [OF at N_def i [folded N_def]]
  have iN: "i < N" using i by (simp add: N_def)
  show ?thesis using st
  proof cases
    case take_all
    have "ch i = []" using D(4) [OF iN] take_all(2) by simp
    then have "storage_at (ch(i := ch N, N := [])) s'"
      by (intro move [where pc = "Gathering (st_head s) []"])
         (use take_all D(1,2) D(3) [of N] A(3) in \<open>auto simp: all_blocks_def stored_def\<close>)
    then show ?thesis by (auto simp: storage_ok_def)
  next
    case (copy_addrs p out l)
    obtain cs where ci: "ch i = p # cs" using D(4) [OF iN] copy_addrs(2,3) path_ne by fastforce
    have "storage_at (ch(i := ch i, N := ch N)) s'"
      by (rule move [where pc = "Gathered p (out @ st_addrs l)"])
         (use copy_addrs D(1,2) D(4) [OF iN] D(3) [of i] D(3) [of N] A(1-3) ci iN in \<open>auto simp: Int_Un_distrib2 stored_def\<close>)
    then show ?thesis by (auto simp: storage_ok_def)
  next
    case (unmap_block p out l)
    obtain cs where ci: "ch i = p # cs" "path (st_next (st_bufs s)) (l ! 0) cs"
      using D(4) [OF iN] unmap_block(2,3) by (cases "ch i") (auto simp: st_next_def)
    have b: "all_blocks (st_bufs s) (p # cs)" using D(3) [of i] ci(1) iN by simp
    then have np: "p \<notin> set cs" by (simp add: all_blocks_def)
    have nc: "p \<notin> set (ch j)" if "j \<le> N" "j \<noteq> i" for j using that ci(1) A(1,2) by (cases "j = N") auto
    have k: "st_bufs s' c = st_bufs s c" if "c \<in> set cs" for c using that np by (auto simp: unmap_block(1))
    have "storage_at (ch(i := cs, N := ch N)) s'"
    proof (rule move [where pc = "Gathering (l ! 0) out"])
      show "all_blocks (st_bufs s') (ch N)" "path (st_next (st_bufs s')) (st_head s') (ch N)"
        using list_kept(1,2) [OF at N_def nc] iN by (simp_all add: unmap_block(1))
      show "all_blocks (st_bufs s') cs" using b by (intro all_blocks_cong [OF _ k]) (auto simp: all_blocks_def)
      show "chain_ok (st_bufs s') (Gathering (l ! 0) out) cs" using st_next_cong [OF ci(2) k] by simp
      show "mset (put s') + mset (took s) + mset (stored (st_bufs s) (ch N)) + in_flight (st_bufs s) (st_pcs s ! i) (ch i) =
          mset (put s) + mset (took s') + mset (stored (st_bufs s') (ch N)) + in_flight (st_bufs s') (Gathering (l ! 0) out) cs"
        using list_kept(3) [OF at N_def nc] stored_cong [of cs "st_bufs s'", OF k] ci(1) iN by (simp add: unmap_block(1,2))
      show "set cs \<inter> set (ch N) = {}" using A(1) ci(1) by auto
      show "(set cs \<union> set (ch N)) \<inter> set (ch j) = {}" if "j < N" "j \<noteq> i" for j using A(2,3) [OF that] ci(1) by auto
      show "st_bufs s' c = st_bufs s c" if "j < N" "j \<noteq> i" "c \<in> set (ch j)" for j c
        using nc [of j] that by (auto simp: unmap_block(1))
    qed (use D(1) in \<open>simp_all add: unmap_block(1)\<close>)
    then show ?thesis by (auto simp: storage_ok_def)
  next
    case (all_gathered out)
    have ci: "ch i = []" using D(4) [OF iN] all_gathered(2) by (simp add: path_0)
    then have "storage_at (ch(i := [], N := ch N)) s'"
      by (intro move [where pc = Elsewhere])
         (use all_gathered D(1,2) D(3) [of N] A(3) iN in \<open>auto simp: all_blocks_def stored_def\<close>)
    then show ?thesis by (auto simp: storage_ok_def)
  next
    case (gatherer_bad p out)
    then obtain cs where "ch i = p # cs" using D(4) [OF iN] by (cases "ch i") auto
    then show ?thesis using A(4) [of i p] iN gatherer_bad(3) by (auto simp: block_gone_def)
  qed
qed

lemma storage_ok_init: "storage_init N s \<Longrightarrow> storage_ok s"
  unfolding storage_ok_def
  by (rule exI [of _ "\<lambda>_. []"])
     (simp add: storage_init_def storage_at_def Let_def all_blocks_def disjoint_family_on_def stored_def)

interpretation storage_list: step_invariant "storage_init N" storage_step storage_ok for N
proof (unfold_locales, goal_cases)
  case (1 s)
  then show ?case by (rule storage_ok_init)
next
  case (2 s s')
  then show ?case using storer_keeps gatherer_keeps by (auto simp: storage_ok_def storage_step_def)
qed

subsection \<open>The functions as runs\<close>

text \<open>
  A thread that is not interrupted goes through the steps as \<^verbatim>\<open>store_remaining_addrs\<close> and the loop over the leftovers in
  \<^verbatim>\<open>generate_working_pointers_list\<close> do. \<open>shows_storage\<close> relates the state of the reclamation to the one here, in which only
  the blocks \<open>cs\<close> of the list exist.
\<close>

definition shows_storage :: "store_state \<Rightarrow> 'o ts_state \<Rightarrow> size_t list \<Rightarrow> bool" where
  "shows_storage S s cs \<longleftrightarrow> st_head S = storage (g_tsdata s) \<and> st_bufs S = bufs s |` set cs \<and>
     path (st_next (bufs s)) (storage (g_tsdata s)) cs \<and> st_fault S = None"

lemma storer_run: "st_fault s = None \<Longrightarrow> i < length (st_pcs s) \<Longrightarrow> storer_step i s s' \<Longrightarrow> storage_step\<^sup>*\<^sup>* s s'"
  by (rule r_into_rtranclp) (auto simp: storage_step_def)

lemma gatherer_run: "st_fault s = None \<Longrightarrow> i < length (st_pcs s) \<Longrightarrow> gatherer_step i s s' \<Longrightarrow> storage_step\<^sup>*\<^sup>* s s'"
  by (rule r_into_rtranclp) (auto simp: storage_step_def)

lemma push_run:
  assumes S: "st_fault S = None" "i < length (st_pcs S)" "st_pcs S ! i = Elsewhere" and p: "p \<noteq> 0" "st_bufs S p = None"
    and n: "0 < n" "n + 2 \<le> length a" "n < 2 ^ 31"
  shows "storage_step\<^sup>*\<^sup>* S (S\<lparr>st_head := p, st_bufs := (st_bufs S)(p \<mapsto> stored_block (st_head S) n a),
    put := put S @ rotate 2 (take n a)\<rparr>)"
proof -
  let ?l = "stored_block (a ! 0) n a" and ?l' = "stored_block (st_head S) n a"
  let ?S1 = "goto i (Unlinked p) (S\<lparr>st_bufs := (st_bufs S)(p \<mapsto> ?l)\<rparr>)"
  let ?S2 = "goto i (Linked p) (S\<lparr>st_bufs := (st_bufs S)(p \<mapsto> ?l')\<rparr>)"
  have l: "?l[0 := st_head S] = ?l'" by (simp add: stored_block_def Let_def)
  have r1: "storage_step\<^sup>*\<^sup>* S ?S1" by (rule storer_run [OF S(1,2) convert]) (rule S p n)+
  have r2: "storage_step\<^sup>*\<^sup>* ?S1 ?S2"
    using storer_run [OF _ _ set_next [of ?S1 i p ?l]] S by (simp add: l goto_def)
  have r3: "storage_step\<^sup>*\<^sup>* ?S2 (goto i Elsewhere (?S2\<lparr>st_head := p, put := put S @ st_addrs ?l'\<rparr>))"
    using storer_run [OF _ _ cas_ok [of ?S2 i p ?l']] S stored_block_correct(1) [OF n] by (simp add: goto_def)
  have eq: "goto i Elsewhere (?S2\<lparr>st_head := p, put := put S @ st_addrs ?l'\<rparr>) =
      S\<lparr>st_head := p, st_bufs := (st_bufs S)(p \<mapsto> ?l'), put := put S @ rotate 2 (take n a)\<rparr>"
    using S stored_block_correct(2) [OF n] by (simp add: goto_def list_update_same_conv)
  show ?thesis using rtranclp_trans [OF r1 rtranclp_trans [OF r2 r3]] unfolding eq .
qed

lemma gather_run:
  assumes "st_fault S = None" "i < length (st_pcs S)" "st_pcs S ! i = Gathering p out"
    and "path (st_next (st_bufs S)) p cs" "distinct cs"
  shows "storage_step\<^sup>*\<^sup>* S (goto i Elsewhere (S\<lparr>st_bufs := st_bufs S |` (- set cs), took := took S @ out @ stored (st_bufs S) cs\<rparr>))"
  using assms
proof (induction cs arbitrary: S p out)
  case Nil
  then have "storage_step\<^sup>*\<^sup>* S (goto i Elsewhere (S\<lparr>took := took S @ out\<rparr>))"
    by (intro gatherer_run [OF Nil(1,2) all_gathered]) simp
  then show ?case by (simp add: stored_def)
next
  case (Cons c cs)
  obtain l where l: "st_bufs S c = Some l" "path (st_next (st_bufs S)) (l ! 0) cs" and p: "p = c" "c \<noteq> 0"
    using Cons.prems(4) by (auto simp: st_next_Some)
  let ?S1 = "goto i (Gathered c (out @ st_addrs l)) S"
  let ?S2 = "goto i (Gathering (l ! 0) (out @ st_addrs l)) (S\<lparr>st_bufs := (st_bufs S)(c := None)\<rparr>)"
  have k: "st_bufs ?S2 x = st_bufs S x" if "x \<in> set cs" for x using that Cons.prems(5) by auto
  have r1: "storage_step\<^sup>*\<^sup>* S ?S1"
    using gatherer_run [OF Cons.prems(1,2) copy_addrs [of S i c out l]] Cons.prems(3) l(1) p by simp
  have r2: "storage_step\<^sup>*\<^sup>* ?S1 ?S2"
    using gatherer_run [OF _ _ unmap_block [of ?S1 i c "out @ st_addrs l" l]] Cons.prems(1,2) l(1) by (simp add: goto_def)
  have r3: "storage_step\<^sup>*\<^sup>* ?S2 (goto i Elsewhere (?S2\<lparr>st_bufs := st_bufs ?S2 |` (- set cs),
      took := took ?S2 @ (out @ st_addrs l) @ stored (st_bufs ?S2) cs\<rparr>))"
    using Cons.prems(1,2,5) st_next_cong [OF l(2) k] by (intro Cons.IH) simp_all
  have eq: "goto i Elsewhere (?S2\<lparr>st_bufs := st_bufs ?S2 |` (- set cs), took := took ?S2 @ (out @ st_addrs l) @ stored (st_bufs ?S2) cs\<rparr>) =
      goto i Elsewhere (S\<lparr>st_bufs := st_bufs S |` (- set (c # cs)), took := took S @ out @ stored (st_bufs S) (c # cs)\<rparr>)"
    using stored_cong [of cs "st_bufs ?S2", OF k] l(1)
    by (auto simp: goto_def stored_def restrict_map_def fun_eq_iff)
  show ?case using rtranclp_trans [OF r1 rtranclp_trans [OF r2 r3]] unfolding eq .
qed

lemma take_run:
  assumes "st_fault S = None" "i < length (st_pcs S)" "st_pcs S ! i = Elsewhere"
    and "path (st_next (st_bufs S)) (st_head S) cs" "distinct cs" and "dom (st_bufs S) = set cs"
  shows "storage_step\<^sup>*\<^sup>* S (S\<lparr>st_head := 0, st_bufs := Map.empty, took := took S @ stored (st_bufs S) cs\<rparr>)"
proof -
  let ?S1 = "goto i (Gathering (st_head S) []) (S\<lparr>st_head := 0\<rparr>)"
  have e: "st_bufs S |` (- set cs) = Map.empty" using assms(6) by (auto simp: restrict_map_def fun_eq_iff)
  have r1: "storage_step\<^sup>*\<^sup>* S ?S1" by (rule gatherer_run [OF assms(1,2) take_all]) (rule assms)
  have r2: "storage_step\<^sup>*\<^sup>* ?S1 (goto i Elsewhere (?S1\<lparr>st_bufs := st_bufs ?S1 |` (- set cs), took := took ?S1 @ [] @ stored (st_bufs ?S1) cs\<rparr>))"
    using assms by (intro gather_run) simp_all
  have eq: "goto i Elsewhere (?S1\<lparr>st_bufs := st_bufs ?S1 |` (- set cs), took := took ?S1 @ [] @ stored (st_bufs ?S1) cs\<rparr>) =
      S\<lparr>st_head := 0, st_bufs := Map.empty, took := took S @ stored (st_bufs S) cs\<rparr>"
    using assms(2,3) e by (simp add: goto_def list_update_same_conv)
  show ?thesis using rtranclp_trans [OF r1 r2] unfolding eq .
qed

text \<open>The blocks of the list, and their addresses, are those of the state of the reclamation.\<close>

lemma shows_storageD:
  assumes "shows_storage S s cs"
  shows "st_fault S = None" "st_head S = storage (g_tsdata s)" "st_bufs S = bufs s |` set cs"
    "path (st_next (st_bufs S)) (st_head S) cs" "stored (st_bufs S) cs = stored (bufs s) cs"
    "path (st_next (bufs s)) (st_head S) cs"
proof -
  have k: "(bufs s |` set cs) c = bufs s c" if "c \<in> set cs" for c using that by simp
  show "st_fault S = None" "st_head S = storage (g_tsdata s)" "st_bufs S = bufs s |` set cs"
    using assms by (simp_all add: shows_storage_def)
  then show "path (st_next (st_bufs S)) (st_head S) cs" "stored (st_bufs S) cs = stored (bufs s) cs"
    "path (st_next (bufs s)) (st_head S) cs"
    using assms st_next_cong [of "bufs s" _ cs, OF _ k] stored_cong [of cs "bufs s |` set cs", OF k]
    by (simp_all add: shows_storage_def)
qed

lemma store_run:
  assumes S: "shows_storage S s cs" "i < length (st_pcs S)" "st_pcs S ! i = Elsewhere"
    and p: "p \<noteq> 0" "p \<notin> set cs" "bufs s p = Some a" and n: "0 < n" "n + 2 \<le> length a" "n < 2 ^ 31"
    and e: "store_remaining_addrs dbg k p (int n) s = Inr s'"
  shows "\<exists>S'. storage_step\<^sup>*\<^sup>* S S' \<and> shows_storage S' s' (p # cs) \<and> put S' = put S @ rotate 2 (take n a) \<and> took S' = took S"
proof -
  note D = shows_storageD [OF S(1)]
  let ?l = "stored_block (st_head S) n a"
  let ?S = "S\<lparr>st_head := p, st_bufs := (st_bufs S)(p \<mapsto> ?l), put := put S @ rotate 2 (take n a)\<rparr>"
  have "int n + 2 \<le> max_ptrs (g_tsdata s) * 2"
    using e n(1) by (cases "int n + 2 \<le> max_ptrs (g_tsdata s) * 2") (simp_all add: store_remaining_addrs_def)
  from store_remaining_addrs_eq [OF p(3) n(1,2) this, of dbg k]
  have s': "s' = set_buf p ?l (s\<lparr>g_tsdata := (g_tsdata s)\<lparr>storage := p\<rparr>\<rparr>)" using e D(2) by simp
  have run: "storage_step\<^sup>*\<^sup>* S ?S" using D(1,3) S(2,3) p(1,2) n by (intro push_run) simp_all
  have "path (st_next ((bufs s)(p \<mapsto> ?l))) (st_head S) cs"
    by (rule st_next_cong [OF D(6)]) (use p(2) in auto)
  then have "path (st_next ((bufs s)(p \<mapsto> ?l))) p (p # cs)"
    using p(1) stored_block_correct(1) [OF n, of "st_head S"] by (simp add: st_next_Some)
  moreover have "(bufs s |` set cs)(p \<mapsto> ?l) = ((bufs s)(p \<mapsto> ?l)) |` set (p # cs)"
    using p(2) by (auto simp: restrict_map_def)
  ultimately have "shows_storage ?S s' (p # cs)"
    using D(1,3) by (simp add: shows_storage_def s' set_buf_def)
  then show ?thesis using run by (intro exI [of _ ?S]) simp
qed

lemma leftovers_run:
  assumes S: "shows_storage S s cs" "i < length (st_pcs S)" "st_pcs S ! i = Elsewhere"
    and inv: "storage_inv s cs D" "alloc_ready k (mem (proc s)) D" "buf_addrs (g_tsdata s) \<notin> set cs"
    and a: "bufs s (buf_addrs (g_tsdata s)) = Some a" "length (stored (bufs s) cs) \<le> length a"
      "int (length (stored (bufs s) cs)) \<le> max_ptrs (g_tsdata s) * 2"
  shows "\<exists>n s' S'. add_leftovers dbg k (storage (g_tsdata s)) 0 (s\<lparr>g_tsdata := (g_tsdata s)\<lparr>storage := 0\<rparr>\<rparr>) = Inr (int n, s') \<and>
    storage_step\<^sup>*\<^sup>* S S' \<and> shows_storage S' s' [] \<and>
    took S' = took S @ take n (the (bufs s' (buf_addrs (g_tsdata s)))) \<and> put S' = put S"
proof -
  note D = shows_storageD [OF S(1)]
  let ?xs = "stored (bufs s) cs" and ?s0 = "s\<lparr>g_tsdata := (g_tsdata s)\<lparr>storage := 0\<rparr>\<rparr>"
  have i: "path (st_next (bufs s)) (storage (g_tsdata s)) cs" "distinct cs" "\<And>c. c \<in> set cs \<Longrightarrow> \<exists>l. bufs s c = Some l \<and> st_ok l"
    "(\<lambda>c. (c, working_buffer_sz (g_tsdata s))) ` set cs \<subseteq> D" using inv(1) by (auto simp: storage_inv_def)
  from add_leftovers_correct [of ?s0 "storage (g_tsdata s)" cs "working_buffer_sz (g_tsdata s)" D k a 0 dbg]
  obtain m where m: "add_leftovers dbg k (storage (g_tsdata s)) 0 ?s0 = Inr (int (length ?xs),
      ?s0\<lparr>bufs := ((bufs s) |` (- set cs))(buf_addrs (g_tsdata s) \<mapsto> ?xs @ drop (length ?xs) a), proc := (proc s)\<lparr>mem := m\<rparr>\<rparr>)"
    using i inv(2,3) a by auto
  let ?S = "S\<lparr>st_head := 0, st_bufs := Map.empty, took := took S @ ?xs\<rparr>"
  have "dom (st_bufs S) = set cs" using i(3) by (force simp: D(3))
  then have "storage_step\<^sup>*\<^sup>* S ?S" using take_run [OF D(1) S(2,3) D(4) i(2)] by (simp add: D(5))
  moreover have "shows_storage ?S (?s0\<lparr>bufs := b, proc := q\<rparr>) []" for b q using D(1) by (simp add: shows_storage_def)
  ultimately show ?thesis using m by (intro exI [of _ "length ?xs"] exI conjI) (rule m, assumption, assumption, simp_all)
qed

subsection \<open>Properties\<close>

text \<open>
  (C13) No leftover is lost or gathered twice. However the threads interleave, no access is to a block that has been
  given back; what the threads have gathered was stored, and not more often than it was stored; and when no
  thread is in the middle of gathering, the list holds exactly what has been stored and not gathered.
\<close>

theorem storage_exact:
  assumes "reachable (storage_init N) storage_step s"
  shows "st_fault s = None \<and> mset (took s) \<subseteq># mset (put s) \<and>
    ((\<forall>pc \<in> set (st_pcs s). \<forall>p out. pc \<noteq> Gathering p out \<and> pc \<noteq> Gathered p out) \<longrightarrow>
     (\<exists>cs. path (st_next (st_bufs s)) (st_head s) cs \<and> mset (put s) = mset (took s) + mset (stored (st_bufs s) cs)))"
proof -
  obtain ch where at: "storage_at ch s" using storage_list.inv_reachable [OF assms] by (auto simp: storage_ok_def)
  let ?N = "length (st_pcs s)"
  note D = storage_atD [OF at]
  have none: "(\<Sum>j < ?N. in_flight (st_bufs s) (st_pcs s ! j) (ch j)) = {#}"
    if "\<forall>pc \<in> set (st_pcs s). \<forall>p out. pc \<noteq> Gathering p out \<and> pc \<noteq> Gathered p out"
  proof (rule sum.neutral, rule ballI)
    fix j assume "j \<in> {..< ?N}"
    then have "st_pcs s ! j \<in> set (st_pcs s)" by simp
    then have "\<forall>p out. st_pcs s ! j \<noteq> Gathering p out \<and> st_pcs s ! j \<noteq> Gathered p out" using that by blast
    then show "in_flight (st_bufs s) (st_pcs s ! j) (ch j) = {#}" by (cases "st_pcs s ! j") simp_all
  qed
  show ?thesis using D(1,2,6) none by (auto intro: exI [of _ "ch ?N"])
qed

text \<open>
  In the example both threads have read the empty list when the second one pushes its block; the first one has to try again,
  and once more because the second one has taken the list in the meantime.
\<close>

definition storage_state :: "size_t \<Rightarrow> (size_t \<rightharpoonup> size_t list) \<Rightarrow> store_pc \<Rightarrow> store_pc \<Rightarrow> size_t list \<Rightarrow> size_t list \<Rightarrow> store_state" where
  "storage_state p bs pc pc' xs ys = \<lparr>st_head = p, st_bufs = bs, st_pcs = [pc, pc'], put = xs, took = ys, st_fault = None\<rparr>"

lemma storage_state_steps:
  fixes p :: size_t and bs pc pc' xs ys
  defines "s \<equiv> storage_state p bs pc pc' xs ys"
  shows "storer_step 0 s s' \<Longrightarrow> storage_step s s'" "storer_step 1 s s' \<Longrightarrow> storage_step s s'" "gatherer_step 1 s s' \<Longrightarrow> storage_step s s'"
  by (auto simp: s_def storage_step_def storage_state_def)

lemma storage_example:
  "storage_step\<^sup>*\<^sup>* (storage_state 0 Map.empty Elsewhere Elsewhere [] [])
     (storage_state 0x5000 [0x5000 \<mapsto> [0, 1, 8]] Elsewhere Elsewhere [16, 8] [16])"
proof -
  let ?E = Elsewhere and ?G = Gathering
  note st = storage_state_steps
  note defs = storage_state_def goto_def stored_block_def st_addrs_def
  have 1: "storage_step (storage_state 0 Map.empty ?E ?E [] []) (storage_state 0 [0x5000 \<mapsto> [8, 1, 8]] (Unlinked 0x5000) ?E [] [])"
    using storer_step.convert [of "storage_state 0 Map.empty ?E ?E [] []" 0 "0x5000" 1 "[8, 0, 0]"] by (intro st(1)) (simp add: defs)
  have 2: "storage_step (storage_state 0 [0x5000 \<mapsto> [8, 1, 8]] (Unlinked 0x5000) ?E [] [])
      (storage_state 0 [0x5000 \<mapsto> [8, 1, 8], 0x6000 \<mapsto> [16, 1, 16]] (Unlinked 0x5000) (Unlinked 0x6000) [] [])"
    using storer_step.convert [of "storage_state 0 [0x5000 \<mapsto> [8, 1, 8]] (Unlinked 0x5000) ?E [] []" 1 "0x6000" 1 "[16, 0, 0]"]
    by (intro st(2)) (simp add: defs)
  have 3: "storage_step (storage_state 0 [0x5000 \<mapsto> [8, 1, 8], 0x6000 \<mapsto> [16, 1, 16]] (Unlinked 0x5000) (Unlinked 0x6000) [] [])
      (storage_state 0 [0x5000 \<mapsto> [0, 1, 8], 0x6000 \<mapsto> [16, 1, 16]] (Linked 0x5000) (Unlinked 0x6000) [] [])"
    using set_next [of "storage_state 0 [0x5000 \<mapsto> [8, 1, 8], 0x6000 \<mapsto> [16, 1, 16]] (Unlinked 0x5000) (Unlinked 0x6000) [] []" 0 "0x5000" "[8, 1, 8]"]
    by (intro st(1)) (simp add: defs fun_upd_twist)
  have 4: "storage_step (storage_state 0 [0x5000 \<mapsto> [0, 1, 8], 0x6000 \<mapsto> [16, 1, 16]] (Linked 0x5000) (Unlinked 0x6000) [] [])
      (storage_state 0 [0x5000 \<mapsto> [0, 1, 8], 0x6000 \<mapsto> [0, 1, 16]] (Linked 0x5000) (Linked 0x6000) [] [])"
    using set_next [of "storage_state 0 [0x5000 \<mapsto> [0, 1, 8], 0x6000 \<mapsto> [16, 1, 16]] (Linked 0x5000) (Unlinked 0x6000) [] []" 1 "0x6000" "[16, 1, 16]"]
    by (intro st(2)) (simp add: defs)
  have 5: "storage_step (storage_state 0 [0x5000 \<mapsto> [0, 1, 8], 0x6000 \<mapsto> [0, 1, 16]] (Linked 0x5000) (Linked 0x6000) [] [])
      (storage_state 0x6000 [0x5000 \<mapsto> [0, 1, 8], 0x6000 \<mapsto> [0, 1, 16]] (Linked 0x5000) ?E [16] [])"
    using cas_ok [of "storage_state 0 [0x5000 \<mapsto> [0, 1, 8], 0x6000 \<mapsto> [0, 1, 16]] (Linked 0x5000) (Linked 0x6000) [] []" 1 "0x6000" "[0, 1, 16]"]
    by (intro st(2)) (simp add: defs)
  have 6: "storage_step (storage_state 0x6000 [0x5000 \<mapsto> [0, 1, 8], 0x6000 \<mapsto> [0, 1, 16]] (Linked 0x5000) ?E [16] [])
      (storage_state 0x6000 [0x5000 \<mapsto> [0, 1, 8], 0x6000 \<mapsto> [0, 1, 16]] (Unlinked 0x5000) ?E [16] [])"
    using cas_retry [of "storage_state 0x6000 [0x5000 \<mapsto> [0, 1, 8], 0x6000 \<mapsto> [0, 1, 16]] (Linked 0x5000) ?E [16] []" 0 "0x5000" "[0, 1, 8]"]
    by (intro st(1)) (simp add: defs)
  have 7: "storage_step (storage_state 0x6000 [0x5000 \<mapsto> [0, 1, 8], 0x6000 \<mapsto> [0, 1, 16]] (Unlinked 0x5000) ?E [16] [])
      (storage_state 0x6000 [0x5000 \<mapsto> [0x6000, 1, 8], 0x6000 \<mapsto> [0, 1, 16]] (Linked 0x5000) ?E [16] [])"
    using set_next [of "storage_state 0x6000 [0x5000 \<mapsto> [0, 1, 8], 0x6000 \<mapsto> [0, 1, 16]] (Unlinked 0x5000) ?E [16] []" 0 "0x5000" "[0, 1, 8]"]
    by (intro st(1)) (simp add: defs fun_upd_twist)
  have 8: "storage_step (storage_state 0x6000 [0x5000 \<mapsto> [0x6000, 1, 8], 0x6000 \<mapsto> [0, 1, 16]] (Linked 0x5000) ?E [16] [])
      (storage_state 0 [0x5000 \<mapsto> [0x6000, 1, 8], 0x6000 \<mapsto> [0, 1, 16]] (Linked 0x5000) (?G 0x6000 []) [16] [])"
    using take_all [of "storage_state 0x6000 [0x5000 \<mapsto> [0x6000, 1, 8], 0x6000 \<mapsto> [0, 1, 16]] (Linked 0x5000) ?E [16] []" 1]
    by (intro st(3)) (simp add: defs)
  have 9: "storage_step (storage_state 0 [0x5000 \<mapsto> [0x6000, 1, 8], 0x6000 \<mapsto> [0, 1, 16]] (Linked 0x5000) (?G 0x6000 []) [16] [])
      (storage_state 0 [0x5000 \<mapsto> [0x6000, 1, 8], 0x6000 \<mapsto> [0, 1, 16]] (Unlinked 0x5000) (?G 0x6000 []) [16] [])"
    using cas_retry [of "storage_state 0 [0x5000 \<mapsto> [0x6000, 1, 8], 0x6000 \<mapsto> [0, 1, 16]] (Linked 0x5000) (?G 0x6000 []) [16] []" 0 "0x5000" "[0x6000, 1, 8]"]
    by (intro st(1)) (simp add: defs)
  have 10: "storage_step (storage_state 0 [0x5000 \<mapsto> [0x6000, 1, 8], 0x6000 \<mapsto> [0, 1, 16]] (Unlinked 0x5000) (?G 0x6000 []) [16] [])
      (storage_state 0 [0x5000 \<mapsto> [0x6000, 1, 8], 0x6000 \<mapsto> [0, 1, 16]] (Unlinked 0x5000) (Gathered 0x6000 [16]) [16] [])"
    using copy_addrs [of "storage_state 0 [0x5000 \<mapsto> [0x6000, 1, 8], 0x6000 \<mapsto> [0, 1, 16]] (Unlinked 0x5000) (?G 0x6000 []) [16] []" 1 "0x6000" "[]" "[0, 1, 16]"]
    by (intro st(3)) (simp add: defs)
  have 11: "storage_step (storage_state 0 [0x5000 \<mapsto> [0x6000, 1, 8], 0x6000 \<mapsto> [0, 1, 16]] (Unlinked 0x5000) (Gathered 0x6000 [16]) [16] [])
      (storage_state 0 [0x5000 \<mapsto> [0x6000, 1, 8]] (Unlinked 0x5000) (?G 0 [16]) [16] [])"
    using unmap_block [of "storage_state 0 [0x5000 \<mapsto> [0x6000, 1, 8], 0x6000 \<mapsto> [0, 1, 16]] (Unlinked 0x5000) (Gathered 0x6000 [16]) [16] []" 1 "0x6000" "[16]" "[0, 1, 16]"]
    by (intro st(3)) (simp add: defs)
  have 12: "storage_step (storage_state 0 [0x5000 \<mapsto> [0x6000, 1, 8]] (Unlinked 0x5000) (?G 0 [16]) [16] [])
      (storage_state 0 [0x5000 \<mapsto> [0, 1, 8]] (Linked 0x5000) (?G 0 [16]) [16] [])"
    using set_next [of "storage_state 0 [0x5000 \<mapsto> [0x6000, 1, 8]] (Unlinked 0x5000) (?G 0 [16]) [16] []" 0 "0x5000" "[0x6000, 1, 8]"]
    by (intro st(1)) (simp add: defs)
  have 13: "storage_step (storage_state 0 [0x5000 \<mapsto> [0, 1, 8]] (Linked 0x5000) (?G 0 [16]) [16] [])
      (storage_state 0x5000 [0x5000 \<mapsto> [0, 1, 8]] ?E (?G 0 [16]) [16, 8] [])"
    using cas_ok [of "storage_state 0 [0x5000 \<mapsto> [0, 1, 8]] (Linked 0x5000) (?G 0 [16]) [16] []" 0 "0x5000" "[0, 1, 8]"]
    by (intro st(1)) (simp add: defs)
  have 14: "storage_step (storage_state 0x5000 [0x5000 \<mapsto> [0, 1, 8]] ?E (?G 0 [16]) [16, 8] [])
      (storage_state 0x5000 [0x5000 \<mapsto> [0, 1, 8]] ?E ?E [16, 8] [16])"
    using all_gathered [of "storage_state 0x5000 [0x5000 \<mapsto> [0, 1, 8]] ?E (?G 0 [16]) [16, 8] []" 1 "[16]"]
    by (intro st(3)) (simp add: defs)
  show ?thesis
    by (rule converse_rtranclp_into_rtranclp [OF 1 converse_rtranclp_into_rtranclp [OF 2 converse_rtranclp_into_rtranclp [OF 3 converse_rtranclp_into_rtranclp [OF 4 converse_rtranclp_into_rtranclp [OF 5 converse_rtranclp_into_rtranclp [OF 6 converse_rtranclp_into_rtranclp [OF 7 converse_rtranclp_into_rtranclp [OF 8 converse_rtranclp_into_rtranclp [OF 9 converse_rtranclp_into_rtranclp [OF 10 converse_rtranclp_into_rtranclp [OF 11 converse_rtranclp_into_rtranclp [OF 12 converse_rtranclp_into_rtranclp [OF 13 r_into_rtranclp [where r = storage_step, OF 14]]]]]]]]]]]]]])
qed

theorem storage_exact_witness:
  "\<exists>cs. path (st_next [0x5000 \<mapsto> [0, 1, 8]]) 0x5000 cs \<and>
     mset [16, 8 :: size_t] = mset [16] + mset (stored [0x5000 \<mapsto> [0, 1, 8]] cs)"
proof -
  let ?s = "storage_state 0x5000 [0x5000 \<mapsto> [0, 1, 8]] Elsewhere Elsewhere [16, 8] [16]"
  have "storage_init (Suc (Suc 0)) (storage_state 0 Map.empty Elsewhere Elsewhere [] [])"
    by (simp add: storage_init_def storage_state_def)
  then have "reachable (storage_init (Suc (Suc 0))) storage_step ?s"
    by (intro reachable_steps [OF storage_example] reachable_init)
  from storage_exact [OF this] show ?thesis by (simp add: storage_state_def)
qed

text \<open>
  (C14) The functions of the reclamation are runs of these steps. Whenever \<^verbatim>\<open>store_remaining_addrs\<close> stores the block \<open>p\<close>, and whenever
  the leftovers are gathered, the steps of one thread lead from the list before to the list after, and deliver the
  addresses that the function stored or moved to the working buffer, in that order.
\<close>

theorem storage_functions_are_runs:
  assumes "shows_storage S s cs" and "i < length (st_pcs S)" and "st_pcs S ! i = Elsewhere" and "storage_inv s cs D"
  shows "(\<forall>p a n s'. p \<noteq> 0 \<and> p \<notin> set cs \<and> bufs s p = Some a \<and> 0 < n \<and> n + 2 \<le> length a \<and> n < 2 ^ 31 \<and>
        store_remaining_addrs dbg k p (int n) s = Inr s' \<longrightarrow>
      (\<exists>S'. storage_step\<^sup>*\<^sup>* S S' \<and> shows_storage S' s' (p # cs) \<and> put S' = put S @ rotate 2 (take n a) \<and> took S' = took S)) \<and>
    (\<forall>a. alloc_ready k (mem (proc s)) D \<and> buf_addrs (g_tsdata s) \<notin> set cs \<and> bufs s (buf_addrs (g_tsdata s)) = Some a \<and>
        length (stored (bufs s) cs) \<le> length a \<and> int (length (stored (bufs s) cs)) \<le> max_ptrs (g_tsdata s) * 2 \<longrightarrow>
      (\<exists>n s' S'. add_leftovers dbg k (storage (g_tsdata s)) 0 (s\<lparr>g_tsdata := (g_tsdata s)\<lparr>storage := 0\<rparr>\<rparr>) = Inr (int n, s') \<and>
        storage_step\<^sup>*\<^sup>* S S' \<and> shows_storage S' s' [] \<and>
        took S' = took S @ take n (the (bufs s' (buf_addrs (g_tsdata s)))) \<and> put S' = put S))"
  using store_run [OF assms(1-3)] leftovers_run [OF assms] by blast

text \<open>A state with one block in the list, and a block to be stored next.\<close>

definition runs_state :: "simple_os ts_state" where
  "runs_state = (example_with example_queue)\<lparr>g_tsdata := example_ts\<lparr>storage := 0x5000\<rparr>,
     bufs := [0x10000 \<mapsto> [0, 0, 0, 0, 0], 0x5000 \<mapsto> [0, 1, 8], 0x8000 \<mapsto> [16, 0, 0]]\<rparr>"

lemma runs_state_shown: "shows_storage (storage_state 0x5000 [0x5000 \<mapsto> [0, 1, 8]] Elsewhere Elsewhere [8] []) runs_state [0x5000]"
  by (simp add: shows_storage_def storage_state_def runs_state_def st_next_Some restrict_map_def fun_eq_iff)

lemma runs_state_inv: "storage_inv runs_state [0x5000] {(0x5000, 4096), (0x6000, 8192)}"
  by (simp add: storage_inv_def runs_state_def st_next_Some st_ok_def example_ts_def)

lemma runs_state_ready: "alloc_ready simple_kernel (mem (proc runs_state)) {(0x5000, 4096), (0x6000, 8192)}"
  using example_proc_ready by (simp add: runs_state_def example_with_def)

theorem storage_functions_are_runs_witness:
  "(\<exists>s' S'. store_remaining_addrs True simple_kernel 0x8000 1 runs_state = Inr s' \<and>
     storage_step\<^sup>*\<^sup>* (storage_state 0x5000 [0x5000 \<mapsto> [0, 1, 8]] Elsewhere Elsewhere [8] []) S' \<and>
     shows_storage S' s' [0x8000, 0x5000] \<and> put S' = [8, 16]) \<and>
   (\<exists>n s' S'. add_leftovers True simple_kernel 0x5000 0 (runs_state\<lparr>g_tsdata := example_ts\<rparr>) = Inr (int n, s') \<and>
     storage_step\<^sup>*\<^sup>* (storage_state 0x5000 [0x5000 \<mapsto> [0, 1, 8]] Elsewhere Elsewhere [8] []) S' \<and>
     shows_storage S' s' [] \<and> took S' = take n (the (bufs s' 0x10000)))"
proof -
  let ?S = "storage_state 0x5000 [0x5000 \<mapsto> [0, 1, 8]] Elsewhere Elsewhere [8] []"
  have g: "storage (g_tsdata runs_state) = 0x5000" "buf_addrs (g_tsdata runs_state) = 0x10000"
    "runs_state\<lparr>g_tsdata := (g_tsdata runs_state)\<lparr>storage := 0\<rparr>\<rparr> = runs_state\<lparr>g_tsdata := example_ts\<rparr>"
    "bufs runs_state 0x8000 = Some [16, 0, 0]" "bufs runs_state 0x10000 = Some [0, 0, 0, 0, 0]"
    "stored (bufs runs_state) [0x5000] = [8]" "max_ptrs (g_tsdata runs_state) = 8"
    by (simp_all add: runs_state_def example_ts_def stored_def st_addrs_def)
  have st: "store_remaining_addrs True simple_kernel 0x8000 (int 1) runs_state =
      Inr (set_buf 0x8000 (stored_block 0x5000 1 [16, 0, 0]) (runs_state\<lparr>g_tsdata := (g_tsdata runs_state)\<lparr>storage := 0x8000\<rparr>\<rparr>))"
    using store_remaining_addrs_eq [OF g(4), of 1 True simple_kernel] by (simp add: g)
  note runs = storage_functions_are_runs [OF runs_state_shown, of 0 "{(0x5000, 4096), (0x6000, 8192)}" True simple_kernel,
      OF _ _ runs_state_inv, unfolded g]
  have S: "0 < length (st_pcs ?S)" "st_pcs ?S ! 0 = Elsewhere" "put ?S = [8]" "took ?S = []" by (simp_all add: storage_state_def)
  have "\<exists>S'. storage_step\<^sup>*\<^sup>* ?S S' \<and> shows_storage S' (set_buf 0x8000 (stored_block 0x5000 1 [16, 0, 0])
      (runs_state\<lparr>g_tsdata := (g_tsdata runs_state)\<lparr>storage := 0x8000\<rparr>\<rparr>)) [0x8000, 0x5000] \<and> put S' = put ?S @ rotate 2 (take 1 [16, 0, 0]) \<and> took S' = took ?S"
    using runs [OF S(1,2), THEN conjunct1, rule_format, of "0x8000" "[16, 0, 0]" 1] st g(4) by simp
  moreover have "rotate 2 (take 1 [16, 0, 0]) = [16 :: size_t]" by (simp add: numeral_2_eq_2)
  ultimately have "\<exists>s' S'. store_remaining_addrs True simple_kernel 0x8000 1 runs_state = Inr s' \<and> storage_step\<^sup>*\<^sup>* ?S S' \<and>
     shows_storage S' s' [0x8000, 0x5000] \<and> put S' = [8, 16]"
    using st S(3) by fastforce
  moreover have "\<exists>n s' S'. add_leftovers True simple_kernel 0x5000 0 (runs_state\<lparr>g_tsdata := example_ts\<rparr>) = Inr (int n, s') \<and>
     storage_step\<^sup>*\<^sup>* ?S S' \<and> shows_storage S' s' [] \<and> took S' = take n (the (bufs s' 0x10000))"
    using runs [OF S(1,2), THEN conjunct2, rule_format, of "[0, 0, 0, 0, 0]"] runs_state_ready S(4) by auto
  ultimately show ?thesis by blast
qed

end
