(* ===== verification/TS_Local.thy ===== *)
theory TS_Local
  imports TS_Collect
begin

text \<open>
  \<^verbatim>\<open>threadscan_register_local_block\<close> of \<^verbatim>\<open>threadscan.c\<close> as the two stores that it consists of. The signal that asks
  the thread for a scan can arrive between them; the handler then reads a range of which one end is new.
\<close>

subsection \<open>The two stores\<close>

definition register_high :: "size_t \<Rightarrow> size_t \<Rightarrow> size_t \<Rightarrow> 'o ts_state \<Rightarrow> 'o ts_state res" where
  "register_high me addr sz s =
     on_proc (upd_td me (\<lambda>t. t\<lparr>local_block := (local_block t)\<lparr>high := addr + sz\<rparr>\<rparr>)) s"

definition register_low :: "size_t \<Rightarrow> size_t \<Rightarrow> 'o ts_state \<Rightarrow> 'o ts_state res" where
  "register_low me addr s = on_proc (upd_td me (\<lambda>t. t\<lparr>local_block := (local_block t)\<lparr>low := addr\<rparr>\<rparr>)) s"

lemma register_local_block_stores:
  "threadscan_register_local_block me addr sz s = bindE (register_high me addr sz s) (register_low me addr)"
proof (cases "tds (proc s) me")
  case (Some t)
  then show ?thesis
    by (cases "local_block t")
       (simp add: threadscan_register_local_block_def register_high_def register_low_def on_proc_def upd_td_def td_at_def)
qed (simp add: threadscan_register_local_block_def register_high_def on_proc_def upd_td_def td_at_def)

text \<open>The registration with the signal handler between the stores.\<close>

definition interrupted_registration ::
  "bool \<Rightarrow> 'o world \<Rightarrow> size_t \<Rightarrow> size_t \<Rightarrow> size_t \<Rightarrow> 'o ts_state \<Rightarrow> 'o ts_state res" where
  "interrupted_registration dbg w me addr sz s =
     bindE (register_high me addr sz s) (\<lambda>s. bindE (signal_handler dbg w me s) (register_low me addr))"

text \<open>The record of \<open>me\<close> after the first store.\<close>

definition half_registered :: "size_t \<Rightarrow> size_t \<Rightarrow> thread_data \<Rightarrow> thread_data" where
  "half_registered addr sz t = t\<lparr>local_block := (local_block t)\<lparr>high := addr + sz\<rparr>\<rparr>"

lemma register_high_state:
  assumes "tds (proc s) me = Some t" and "scanning xs S s"
  obtains s1 where "register_high me addr sz s = Inr s1" "scanning xs S s1" "tds (proc s1) me = Some (half_registered addr sz t)"
    "global_timestamp (proc s1) = global_timestamp (proc s)"
  using that [of "s\<lparr>proc := (proc s)\<lparr>tds := (tds (proc s))(me \<mapsto> half_registered addr sz t)\<rparr>\<rparr>"] assms
  by (simp add: register_high_def half_registered_def on_proc_def upd_td_def td_at_def scanning_def)

subsection \<open>Scans that fault\<close>

text \<open>A word that is not mapped among those that are read.\<close>

lemma words_at_unmapped:
  assumes "i < n" and "um (p + 8 * of_nat i) = None"
  shows "words_at um p n = Inl Bad_access"
  using assms
proof (induction n arbitrary: p i)
  case (Suc n)
  show ?case
  proof (cases i)
    case 0
    then show ?thesis using Suc.prems(2) by (simp add: load_def)
  next
    case (Suc j)
    then have "words_at um (p + 8) n = Inl Bad_access"
      using Suc.prems Suc.IH [of j "p + 8"] by (simp add: algebra_simps)
    then show ?thesis by (cases "um p") (simp_all add: load_def)
  qed
qed simp

lemma do_search_loop_faults:
  assumes xs: "addr_list xs" "xs \<noteq> []"
    and mn: "mn = mark (0 \<in> S0) (xs ! 0)" and mx: "mx = mark (length xs - 1 \<in> S0) (xs ! (length xs - 1))"
  shows "map_ready ts xs a \<Longrightarrow> marking xs S a \<Longrightarrow> S0 \<subseteq> S \<Longrightarrow> words_at um p n = Inl e \<Longrightarrow>
    do_search_loop dbg ts mn mx um n p a = Inl e"
proof (induction n arbitrary: p a S)
  case (Suc n)
  show ?case
  proof (cases "load um p")
    case (Inr w)
    from search_word_correct [OF xs Suc.prems(1,2) mn mx Suc.prems(3)] obtain b where
      b: "search_word dbg ts mn mx a w = Inr b" "scanned xs a (S \<union> hits xs (PTR_MASK w)) b" by (rule returnsE)
    have "words_at um (p + 8) n = Inl e" using Suc.prems(4) Inr by (cases "words_at um (p + 8) n") simp_all
    then have "do_search_loop dbg ts mn mx um n (p + 8) b = Inl e"
      using b(2) Suc.prems(3) scanned_ready [OF b(2) Suc.prems(1)]
      by (intro Suc.IH [where S = "S \<union> hits xs (PTR_MASK w)"]) (auto simp: scanned_def)
    then show ?thesis using Inr b(1) by simp
  qed (use Suc.prems(4) in simp)
qed simp

lemma do_search_faults:
  assumes xs: "addr_list xs" "xs \<noteq> []" and rdy: "map_ready ts xs a" and m: "marking xs S a"
    and ws: "words_at um p (unat range_size) = Inl e" and c: "returns (do_search dbg ts um' q 0 a) (\<lambda>_. True)"
  shows "do_search dbg ts um p range_size a = Inl e"
proof -
  have n: "n_addrs ts - 1 = int (length xs - 1)" using rdy xs(2) by (cases xs; simp add: map_ready_def)
  have rds: "rd a 0 = Inr (mark (0 \<in> S) (xs ! 0))"
    "rd a (n_addrs ts - 1) = Inr (mark (length xs - 1 \<in> S) (xs ! (length xs - 1)))"
    using marking_rd [OF m, of 0] xs(2) by (simp, unfold n, intro marking_rd [OF m]) simp
  show ?thesis using c rds do_search_loop_faults [OF xs refl refl rdy m order_refl ws]
    by (auto simp: do_search_def wp c_assert_def split: if_splits)
qed

lemma search_buf_faults:
  assumes xs: "addr_list xs" "xs \<noteq> []" "dbg \<longrightarrow> 0 \<notin> set xs" and s: "scanning xs S s"
    and ws: "words_at (w_memory w) (low r) (unat ((high r - low r) div 8)) = Inl e"
  shows "search_buf dbg w r s = Inl e"
proof -
  obtain a where a: "bufs s (buf_addrs (g_tsdata s)) = Some a" "map_ready (g_tsdata s) xs a" "marking xs S a"
    using s by (auto simp: scanning_def)
  have "returns (search_range dbg (g_tsdata s) Map.empty \<lparr>low = 0, high = 0\<rparr> a) (\<lambda>_. True)"
    using search_range_correct [OF xs(1,2) a(2,3), where r = "\<lparr>low = 0, high = 0\<rparr>" and um = Map.empty and ws = "[]" and dbg = dbg] xs(3)
    by (auto elim: returns_mono)
  then have "assert_monotonicity dbg a (n_addrs (g_tsdata s)) = Inr ()"
    "returns (do_search dbg (g_tsdata s) Map.empty 0 0 a) (\<lambda>_. True)" by (auto simp: search_range_def wp returns_iff bindE_Inr_iff)
  then show ?thesis using a do_search_faults [OF xs(1,2) a(2,3) ws] by (simp add: search_buf_def buf_at_def search_range_def)
qed

lemma search_thread_faults:
  assumes xs: "addr_list xs" "xs \<noteq> []" "dbg \<longrightarrow> 0 \<notin> set xs" and s: "scanning xs S s"
    and t: "tds (proc s) td = Some t" and r: "readable (w_memory w) \<lparr>low = rsp, high = user_stack_high t\<rparr>"
    and l: "low (local_block t) > 0"
    and ws: "words_at (w_memory w) (low (local_block t)) (unat ((high (local_block t) - low (local_block t)) div 8)) = Inl e"
  shows "search_thread dbg w rsp td s = Inl e"
proof -
  from search_buf_correct [where dbg = dbg, OF xs s r] obtain s1 S1 where
    s1: "search_buf dbg w \<lparr>low = rsp, high = user_stack_high t\<rparr> s = Inr s1" "scanning xs S1 s1" "proc s1 = proc s"
    by (auto elim: returnsE)
  then show ?thesis using t l search_buf_faults [OF xs s1(2) ws]
    by (simp add: search_thread_def threadscan_thread_user_stack_def td_at_def)
qed

lemma signal_handler_faults:
  assumes xs: "addr_list xs" "xs \<noteq> []" "dbg \<longrightarrow> 0 \<notin> set xs" and s: "scanning xs S s"
    and t: "tds (proc s) td = Some t" "td \<noteq> 0" "dbg \<longrightarrow> w_rsp w td \<noteq> 0"
    and r: "readable (w_memory w) \<lparr>low = w_rsp w td, high = user_stack_high t\<rparr>" and l: "low (local_block t) > 0"
    and ws: "words_at (w_memory w) (low (local_block t)) (unat ((high (local_block t) - low (local_block t)) div 8)) = Inl e"
  shows "signal_handler dbg w td s = Inl e"
proof -
  define t1 where "t1 = raised_td (global_timestamp (proc s)) t"
  note eqs = unstamped_eqD [OF unstamped_raised [of "global_timestamp (proc s)" t]]
  define s1 where "s1 = s\<lparr>proc := (proc s)\<lparr>tds := (tds (proc s))(td \<mapsto> t1)\<rparr>\<rparr>"
  have "scanning xs S s1" "tds (proc s1) td = Some t1" using s by (simp_all add: scanning_def s1_def)
  from search_thread_faults [OF xs this, of w "w_rsp w td" e] have "search_thread dbg w (w_rsp w td) td s1 = Inl e"
    using r l ws eqs by (simp add: t1_def)
  then show ?thesis using t raise_flag_eq [where s = "proc s", OF t(1,2)]
    by (cases dbg) (simp_all add: signal_handler_def on_proc_def search_self_stack_def c_assert_def s1_def t1_def)
qed

text \<open>What a scan leaves of a record.\<close>

lemma scan_frame_td:
  assumes "scan_frame xs s s'" and "tds (proc s) td = Some t"
  shows "\<exists>t'. tds (proc s') td = Some t' \<and> unstamped t' = unstamped t"
proof -
  obtain h where h: "stamped (tds (proc s)) h" "tds (proc s') = h" using assms(1) unfolding scan_frame_def by fastforce
  then have "map_option unstamped (h td) = map_option unstamped (tds (proc s) td)" by (simp add: stamped_def)
  then show ?thesis using assms(2) h(2) by (cases "h td") auto
qed

subsection \<open>Properties\<close>

text \<open>
  (C38) The first registration of a thread can be interrupted by a scan: the low end is still zero, so that the handler
  marks exactly what the stack refers to, and the registration is complete afterwards.
\<close>

theorem first_registration_safe:
  assumes "addr_list xs" and "xs \<noteq> []" and "dbg \<longrightarrow> 0 \<notin> set xs" and "scanning xs S s"
    and "tds (proc s) me = Some t" and "me \<noteq> 0" and "dbg \<longrightarrow> w_rsp w me \<noteq> 0"
    and "readable (w_memory w) \<lparr>low = w_rsp w me, high = user_stack_high t\<rparr>" and "low (local_block t) = 0"
  shows "returns (interrupted_registration dbg w me addr sz s) (\<lambda>s'.
    scanning xs (S \<union> all_hits xs (range_words (w_memory w) \<lparr>low = w_rsp w me, high = user_stack_high t\<rparr>)) s' \<and>
    map_option local_block (tds (proc s') me) = Some \<lparr>low = addr, high = addr + sz\<rparr>)"
proof -
  obtain s1 where s1: "register_high me addr sz s = Inr s1" "scanning xs S s1" "tds (proc s1) me = Some (half_registered addr sz t)"
    by (rule register_high_state [OF assms(5,4)])
  have rs: "thread_ranges (w_rsp w me) (half_registered addr sz t) = [\<lparr>low = w_rsp w me, high = user_stack_high t\<rparr>]"
    using assms(9) by (simp add: thread_ranges_def half_registered_def)
  have "returns (signal_handler dbg w me s1) (\<lambda>s'. scan_frame xs s1 s' \<and>
      scanning xs (S \<union> all_hits xs (thread_words (w_memory w) (w_rsp w me) (half_registered addr sz t))) s' \<and>
      self_stacks_searched s' = self_stacks_searched s1 + 1)"
    using assms(8) rs by (intro signal_handler_correct [OF assms(1-3) s1(2,3) assms(6,7)]) simp
  then obtain s2 where s2: "signal_handler dbg w me s1 = Inr s2" "scan_frame xs s1 s2"
    "scanning xs (S \<union> all_hits xs (range_words (w_memory w) \<lparr>low = w_rsp w me, high = user_stack_high t\<rparr>)) s2"
    by (auto simp: thread_words_def rs elim: returnsE)
  obtain t2 where t2: "tds (proc s2) me = Some t2" "unstamped t2 = unstamped (half_registered addr sz t)"
    using scan_frame_td [OF s2(2) s1(3)] by blast
  then have "local_block t2 = (local_block t)\<lparr>high := addr + sz\<rparr>"
    using unstamped_eqD(2) [OF t2(2)] by (simp add: half_registered_def)
  then have lb: "(local_block t2)\<lparr>low := addr\<rparr> = \<lparr>low = addr, high = addr + sz\<rparr>" by (cases "local_block t") simp
  let ?s = "s2\<lparr>proc := (proc s2)\<lparr>tds := (tds (proc s2))(me \<mapsto> t2\<lparr>local_block := \<lparr>low = addr, high = addr + sz\<rparr>\<rparr>)\<rparr>\<rparr>"
  have "register_low me addr s2 = Inr ?s"
    by (simp add: register_low_def on_proc_def upd_td_def td_at_def t2(1) lb)
  then have "interrupted_registration dbg w me addr sz s = Inr ?s" by (simp add: interrupted_registration_def s1(1) s2(1))
  moreover have "scanning xs (S \<union> all_hits xs (range_words (w_memory w) \<lparr>low = w_rsp w me, high = user_stack_high t\<rparr>)) ?s"
    using s2(3) by (simp add: scanning_def)
  ultimately show ?thesis by simp
qed

text \<open>
  (C39) A registration of another block is not safe: a scan between the two stores reads from the old low end up to
  the new high end, and faults when a word in between is not mapped, although both blocks are.
\<close>

theorem torn_registration_faults:
  assumes "addr_list xs" and "xs \<noteq> []" and "dbg \<longrightarrow> 0 \<notin> set xs" and "scanning xs S s"
    and "tds (proc s) me = Some t" and "me \<noteq> 0" and "dbg \<longrightarrow> w_rsp w me \<noteq> 0"
    and "readable (w_memory w) \<lparr>low = w_rsp w me, high = user_stack_high t\<rparr>" and "low (local_block t) > 0"
    and "i < unat ((addr + sz - low (local_block t)) div 8)" and "w_memory w (low (local_block t) + 8 * of_nat i) = None"
  shows "interrupted_registration dbg w me addr sz s = Inl Bad_access"
proof -
  obtain s1 where s1: "register_high me addr sz s = Inr s1" "scanning xs S s1" "tds (proc s1) me = Some (half_registered addr sz t)"
    by (rule register_high_state [OF assms(5,4)])
  have "signal_handler dbg w me s1 = Inl Bad_access"
    by (rule signal_handler_faults [OF assms(1-3) s1(2,3) assms(6,7)])
       (use assms(8,9) words_at_unmapped [of i _ "w_memory w", OF assms(10,11)] in \<open>simp_all add: half_registered_def\<close>)
  then show ?thesis using s1(1) by (simp add: interrupted_registration_def)
qed

text \<open>
  In the examples the block that is registered lies below the old one, so that the range between the stores wraps around
  the address space.
\<close>

definition local_td :: "mem_range \<Rightarrow> thread_data" where
  "local_td r = example_td\<lparr>local_block := r\<rparr>"

definition local_state :: "thread_data \<Rightarrow> simple_os ts_state" where
  "local_state t = (example_with example_queue)\<lparr>g_tsdata := example_ts, bufs := [0x10000 \<mapsto> [16, 32, 48, 0, 16]],
     proc := example_proc\<lparr>tds := [0x5000 \<mapsto> t]\<rparr>\<rparr>"

definition local_world :: "simple_os world" where
  "local_world = example_world\<lparr>w_memory := [0x2FFF0 \<mapsto> 34, 0x2FFF8 \<mapsto> 5, 0x9000 \<mapsto> 16, 0x4000 \<mapsto> 48]\<rparr>"

lemma local_scanning: "addr_list [16, 32, 48]" "scanning [16, 32, 48] {} (local_state t)"
  by (simp add: addr_list_def aligned4_def PTR_MASK_def)
     (simp add: scanning_def local_state_def map_ready_def example_ts_def pages_def scan_map_index_def marking_def mark_def
       less_Suc_eq numeral_3_eq_3)

lemma local_stack: "readable (w_memory local_world) \<lparr>low = 0x2FFF0, high = 0x30000\<rparr>"
proof -
  have "words_at (w_memory local_world) 0x2FFF0 (Suc (Suc 0)) = Inr [34, 5]" by (simp add: local_world_def load_def)
  then have "words_at (w_memory local_world) 0x2FFF0 2 = Inr [34, 5]" by (simp only: numeral_2_eq_2)
  then show ?thesis by (simp add: readable_def)
qed

theorem first_registration_safe_witness:
  "returns (interrupted_registration True local_world 0x5000 0x9000 8 (local_state (local_td \<lparr>low = 0, high = 0\<rparr>))) (\<lambda>s'.
    scanning [16, 32, 48] ({} \<union> all_hits [16, 32, 48] (range_words (w_memory local_world) \<lparr>low = 0x2FFF0, high = 0x30000\<rparr>)) s' \<and>
    map_option local_block (tds (proc s') 0x5000) = Some \<lparr>low = 0x9000, high = 0x9000 + 8\<rparr>)"
  using first_registration_safe [where dbg = True and w = local_world and me = "0x5000" and addr = "0x9000" and sz = 8 and
      t = "local_td \<lparr>low = 0, high = 0\<rparr>", OF local_scanning(1) _ _ local_scanning(2)] local_stack
  by (simp add: local_state_def local_td_def local_world_def example_world_def example_td_def)

theorem torn_registration_faults_witness:
  "interrupted_registration True local_world 0x5000 0x4000 8 (local_state (local_td \<lparr>low = 0x9000, high = 0x9008\<rparr>)) = Inl Bad_access \<and>
   readable (w_memory local_world) \<lparr>low = 0x4000, high = 0x4008\<rparr> \<and> readable (w_memory local_world) \<lparr>low = 0x9000, high = 0x9008\<rparr>"
proof
  show "interrupted_registration True local_world 0x5000 0x4000 8 (local_state (local_td \<lparr>low = 0x9000, high = 0x9008\<rparr>)) = Inl Bad_access"
    by (rule torn_registration_faults [where i = 1 and t = "local_td \<lparr>low = 0x9000, high = 0x9008\<rparr>", OF local_scanning(1) _ _ local_scanning(2)])
       (use local_stack in \<open>simp_all add: local_state_def local_td_def local_world_def example_world_def example_td_def\<close>)
  show "readable (w_memory local_world) \<lparr>low = 0x4000, high = 0x4008\<rparr> \<and> readable (w_memory local_world) \<lparr>low = 0x9000, high = 0x9008\<rparr>"
    by (simp add: readable_def local_world_def load_def)
qed

end
