(* ===== verification/TS_System.thy ===== *)
theory TS_System
  imports TS_Collect TS_Wrappers TS_Steps
begin

text \<open>
  The library as a whole: the calls that the threads of a program make of it, in any order, from the start of
  the program on. Each call is one step; the state is that of all components together. What a program must
  respect is the predicate \<open>allowed\<close>; what the library keeps is the invariant \<open>sys_at\<close>.
\<close>

subsection \<open>What operations leave alone\<close>

lemmas res_simps = bindE_Inr_iff c_assert_def upd_td_def td_at_def

lemma okay_conjI:
  assumes "okay b m P" and "\<And>x. m = Inr x \<Longrightarrow> Q x"
  shows "okay b m (\<lambda>x. P x \<and> Q x)"
  using assms unfolding okay_def by (auto simp: returns_iff)

text \<open>The global timestamp changes only in the functions of the reclaimer lock.\<close>

lemma thread_data_free_timestamp:
  "threadscan_util_thread_data_free dbg k td p = Inr p' \<Longrightarrow> global_timestamp p' = global_timestamp p"
  by (auto simp: threadscan_util_thread_data_free_def res_simps)

lemma create_record_timestamp:
  "create_record dbg k lib n attr start_routine arg p = Inr (td, stack, ra, p') \<Longrightarrow> global_timestamp p' = global_timestamp p"
  by (auto simp: create_record_def create_stack_def threadscan_util_thread_data_new_def threadscan_proc_add_thread_data_def
      threadscan_util_thread_list_add_def res_simps Let_def case_prod_beta split: option.splits if_splits)

lemma pthread_create_timestamp:
  assumes "pthread_create dbg k lib n attr start_routine arg s = Inr (r, s')" and "g_thread_count s \<le> MAX_THREAD_COUNT"
  shows "global_timestamp (ps s') = global_timestamp (ps s)"
  using assms(1) unfolding pthread_create_stages [OF assms(2)] launch_def
  by (auto simp: bindE_Inr_iff Let_def case_prod_beta split: if_splits dest!: create_record_timestamp thread_data_free_timestamp)

lemma main_replacement_timestamp:
  "main_replacement dbg k n maps addr thunk args_at sp self_id s = Inr (td, s') \<Longrightarrow>
     global_timestamp (ps s') = global_timestamp (ps s)"
  by (auto simp: main_replacement_def threadscan_util_thread_data_new_def threadscan_proc_add_thread_data_def
      threadscan_thread_base_def Let_def
      threadscan_util_thread_list_add_def res_simps split: prod.splits option.splits if_splits)

lemma thread_cleanup_timestamp:
  "threadscan_thread_cleanup dbg me p = Inr p' \<Longrightarrow> global_timestamp p' = global_timestamp p"
  by (auto simp: threadscan_thread_cleanup_def threadscan_proc_remove_thread_data_def threadscan_util_thread_list_remove_def
      threadscan_util_thread_data_decr_ref_def res_simps split: option.splits if_splits)

lemma thread_data_cleanup_timestamp:
  "threadscan_util_thread_data_cleanup dbg k tid p = Inr p' \<Longrightarrow> global_timestamp p' = global_timestamp p"
  by (auto simp: threadscan_util_thread_data_cleanup_def res_simps split: option.splits if_splits
      dest!: thread_data_free_timestamp)

text \<open>A record, but for its link.\<close>

definition unlinked :: "thread_data \<Rightarrow> thread_data" where
  "unlinked t = t\<lparr>td_next := 0\<rparr>"

lemma thread_data_cleanup_records:
  "threadscan_util_thread_data_cleanup dbg k tid p = Inr p' \<Longrightarrow>
     tds p' td = None \<or> map_option unlinked (tds p' td) = map_option unlinked (tds p td)"
  by (auto simp: threadscan_util_thread_data_cleanup_def threadscan_util_thread_data_free_def res_simps unlinked_def
      split: option.splits if_splits)

subsection \<open>The calls\<close>

text \<open>
  The state of the whole library. The addresses that have been collected so far, in order, are kept beside it;
  no operation reads them.
\<close>

record 'o lib =
  lib_ts :: "'o ts_state"
  lib_count :: int
  collected :: "size_t list"

definition wrapped :: "'o lib \<Rightarrow> 'o wrap_state" where
  "wrapped s = \<lparr>g_thread_count = lib_count s, ps = proc (lib_ts s)\<rparr>"

definition unwrapped :: "'o wrap_state \<Rightarrow> 'o lib \<Rightarrow> 'o lib" where
  "unwrapped w s = s\<lparr>lib_ts := (lib_ts s)\<lparr>proc := ps w\<rparr>, lib_count := g_thread_count w\<rparr>"

text \<open>
  A call, with the thread \<open>me\<close> that makes it where that matters. \<open>Start\<close> is not a call of the program: it is
  the beginning of a thread that was created. The build is a release build.
\<close>

datatype 'o call =
    Collect "'o world" size_t size_t
  | Register size_t size_t size_t
  | Create libpthread "thread_attr option" size_t size_t
  | Start size_t size_t size_t
  | Exit size_t
  | Join libpthread size_t

fun exec :: "'o kernel \<Rightarrow> int \<Rightarrow> 'o call \<Rightarrow> 'o lib \<Rightarrow> 'o lib res" where
  "exec k n (Collect w me ptr) s =
     bindE (threadscan_collect False w me ptr (lib_ts s)) (\<lambda>t. Inr (s\<lparr>lib_ts := t, collected := collected s @ [ptr]\<rparr>))"
| "exec k n (Register me addr sz) s =
     bindE (threadscan_register_local_block me addr sz (lib_ts s)) (\<lambda>t. Inr (s\<lparr>lib_ts := t\<rparr>))"
| "exec k n (Create lib attr start_routine arg) s =
     bindE (pthread_create False k lib n attr start_routine arg (wrapped s)) (\<lambda>(_, w). Inr (unwrapped w s))"
| "exec k n (Start td sp thread) s =
     bindE (threadscan_thread_base sp thread td (proc (lib_ts s))) (\<lambda>p. Inr (s\<lparr>lib_ts := (lib_ts s)\<lparr>proc := p\<rparr>\<rparr>))"
| "exec k n (Exit me) s = bindE (pthread_exit False me (wrapped s)) (\<lambda>w. Inr (unwrapped w s))"
| "exec k n (Join lib thread) s = bindE (pthread_join False k lib thread (wrapped s)) (\<lambda>(_, w). Inr (unwrapped w s))"

subsection \<open>What the program must respect\<close>

text \<open>
  An address is not collected again before it was freed, and not more addresses are outstanding than the
  working buffer holds.
\<close>

definition may_collect :: "size_t \<Rightarrow> 'o lib \<Rightarrow> bool" where
  "may_collect p s \<longleftrightarrow> aligned4 p \<and> count_list (collected s) p = count_list (freed (lib_ts s)) p \<and>
     int (length (collected s)) + 3 \<le> int (length (freed (lib_ts s))) + max_ptrs (g_tsdata (lib_ts s)) * 2 \<and>
     length (collected s) < 2 ^ 62"

text \<open>
  The threads that have an identifier: those that run, and those that have exited and were not joined. The
  pthread library gives no two of them the same.
\<close>

definition named :: "tdheap \<Rightarrow> size_t list \<Rightarrow> size_t list \<Rightarrow> size_t set" where
  "named h ls ss = {td \<in> set ls. is_active (the (h td))} \<union> set ss"

fun allowed_in :: "'o kernel \<Rightarrow> size_t list \<Rightarrow> size_t list \<Rightarrow> 'o call \<Rightarrow> 'o lib \<Rightarrow> bool" where
  "allowed_in k ls ss (Collect w me ptr) s \<longleftrightarrow> me \<in> set ls \<and> w_kernel w = k \<and>
     (ptr \<noteq> 0 \<longrightarrow> may_collect ptr s \<and>
        (has_room (lib_ts s) me \<or> scan_ready False w me (tds (proc (lib_ts s))) ls))"
| "allowed_in k ls ss (Register me addr sz) s \<longleftrightarrow> me \<in> set ls"
| "allowed_in k ls ss (Create lib attr start_routine arg) s \<longleftrightarrow> lib_count s \<le> MAX_THREAD_COUNT \<and>
     (\<exists>real stack sz. attr_works lib attr real stack sz) \<and> (\<forall>ra td. fst (orig_pthread_create lib ra td) = 0)"
| "allowed_in k ls ss (Start td sp thread) s \<longleftrightarrow>
     td \<in> set ls \<and> \<not> is_active (the (tds (proc (lib_ts s)) td)) \<and>
     (\<forall>u \<in> named (tds (proc (lib_ts s))) ls ss. self (the (tds (proc (lib_ts s)) u)) \<noteq> thread)"
| "allowed_in k ls ss (Exit me) s \<longleftrightarrow> me \<in> set ls \<and> is_active (the (tds (proc (lib_ts s)) me))"
| "allowed_in k ls ss (Join lib thread) s \<longleftrightarrow> (\<exists>td \<in> set ss. self (the (tds (proc (lib_ts s)) td)) = thread)"

definition allowed :: "'o kernel \<Rightarrow> 'o call \<Rightarrow> 'o lib \<Rightarrow> bool" where
  "allowed k call s \<longleftrightarrow> (\<exists>ls ss. lists (proc (lib_ts s)) ls ss \<and> allowed_in k ls ss call s)"

text \<open>One permitted call that returns.\<close>

inductive sys_step :: "'o kernel \<Rightarrow> int \<Rightarrow> 'o lib \<Rightarrow> 'o lib \<Rightarrow> bool" for k n where
  sys_call: "allowed k call s \<Longrightarrow> exec k n call s = Inr s' \<Longrightarrow> sys_step k n s s'"

inductive_simps sys_step_iff: "sys_step k n s s'"

subsection \<open>The invariant\<close>

text \<open>What the rest of the library uses of a record, besides its queue and its timestamp.\<close>

definition view :: "thread_data \<Rightarrow> size_t \<times> bool \<times> int \<times> bool \<times> size_t \<times> size_t" where
  "view t = (self t, is_active t, ref_count t, stack_is_ours t, user_stack_low t, ptr_list_e t)"

lemma view_eqD:
  assumes "view t' = view t"
  shows "self t' = self t" "is_active t' = is_active t" "ref_count t' = ref_count t" "td_blocks b z td t' = td_blocks b z td t"
  using assms by (simp_all add: view_def td_blocks_def)

lemma view_unstamped [simp]: "view (unstamped t) = view t"
  by (simp add: view_def unstamped_def)

lemma unstamped_view: "unstamped t' = unstamped t \<Longrightarrow> view t' = view t"
  by (metis view_unstamped)

lemma unlinked_simps [simp]:
  "view (unlinked t) = view t" "ptr_list (unlinked t) = ptr_list t" "local_timestamp (unlinked t) = local_timestamp t"
  by (simp_all add: view_def unlinked_def)

lemma unlinked_view:
  assumes "unlinked t' = unlinked t"
  shows "view t' = view t" "ptr_list t' = ptr_list t" "local_timestamp t' = local_timestamp t"
  by (metis assms unlinked_simps)+

text \<open>The blocks of the storage list \<open>cs\<close> (\<open>W\<close> bytes each) and of the threads \<open>xs\<close>.\<close>

definition owned :: "int \<Rightarrow> size_t \<Rightarrow> size_t list \<Rightarrow> tdheap \<Rightarrow> size_t list \<Rightarrow> (size_t \<times> size_t) list" where
  "owned n W cs h xs = map (\<lambda>c. (c, W)) cs @ concat (map (\<lambda>td. td_blocks (of_int n * 8) STACKSIZE td (the (h td))) xs)"

definition same_views :: "size_t set \<Rightarrow> tdheap \<Rightarrow> tdheap \<Rightarrow> bool" where
  "same_views T h h' \<longleftrightarrow> (\<forall>td \<in> T. view (the (h' td)) = view (the (h td)))"

lemma same_viewsD: "same_views T h h' \<Longrightarrow> td \<in> T \<Longrightarrow> view (the (h' td)) = view (the (h td))"
  by (simp add: same_views_def)

lemma owned_cong:
  assumes "\<And>td. td \<in> set xs \<Longrightarrow> td_blocks (of_int n * 8) STACKSIZE td (the (h' td)) = td_blocks (of_int n * 8) STACKSIZE td (the (h td))"
  shows "owned n W cs h' xs = owned n W cs h xs"
proof -
  have "map (\<lambda>td. td_blocks (of_int n * 8) STACKSIZE td (the (h' td))) xs =
      map (\<lambda>td. td_blocks (of_int n * 8) STACKSIZE td (the (h td))) xs"
    by (rule map_cong [OF refl], rule assms)
  then show ?thesis by (simp only: owned_def)
qed

lemma same_views_owned: "same_views (set xs) h h' \<Longrightarrow> owned n W cs h' xs = owned n W cs h xs"
  by (rule owned_cong, rule view_eqD(4), rule same_viewsD)

definition ids_ok :: "tdheap \<Rightarrow> size_t list \<Rightarrow> size_t list \<Rightarrow> bool" where
  "ids_ok h ls ss \<longleftrightarrow> inj_on (\<lambda>td. self (the (h td))) (named h ls ss)"

lemma same_views_named:
  assumes "same_views (set ls \<union> set ss) h h'"
  shows "named h' ls ss = named h ls ss" "ids_ok h' ls ss = ids_ok h ls ss"
proof -
  have v: "self (the (h' td)) = self (the (h td))" "is_active (the (h' td)) = is_active (the (h td))"
    if "td \<in> set ls \<union> set ss" for td
    using view_eqD(1,2) [OF same_viewsD [OF assms that]] by simp_all
  show n: "named h' ls ss = named h ls ss" unfolding named_def using v(2) by blast
  have "named h ls ss \<subseteq> set ls \<union> set ss" by (auto simp: named_def)
  then show "ids_ok h' ls ss = ids_ok h ls ss" unfolding ids_ok_def n using v(1) by (intro inj_on_cong) blast
qed

text \<open>The storage list \<open>cs\<close> and the threads \<open>xs\<close> have exactly the blocks \<open>D\<close>, and share none.\<close>

definition memory_ok :: "int \<Rightarrow> size_t \<Rightarrow> size_t list \<Rightarrow> tdheap \<Rightarrow> size_t list \<Rightarrow> (size_t \<times> size_t) set \<Rightarrow> bool" where
  "memory_ok n W cs h xs D \<longleftrightarrow> D = set (owned n W cs h xs) \<and> distinct (owned n W cs h xs)"

lemma same_views_memory: "same_views (set xs) h h' \<Longrightarrow> memory_ok n W cs h' xs D = memory_ok n W cs h xs D"
  by (simp add: memory_ok_def same_views_owned)

text \<open>A queue that has room for one more address, and has taken at most \<open>c\<close> addresses so far.\<close>

definition queue_fits :: "int \<Rightarrow> nat \<Rightarrow> queue_t \<Rightarrow> bool" where
  "queue_fits n c q \<longleftrightarrow> capacity q = of_int n \<and> length (q_list q) + 1 < nat n \<and> unat (idx_head q) \<le> c"

text \<open>The live threads \<open>ls\<close> and the exited ones \<open>ss\<close>, after \<open>c\<close> collects.\<close>

definition records_ok :: "int \<Rightarrow> nat \<Rightarrow> tdheap \<Rightarrow> size_t list \<Rightarrow> size_t list \<Rightarrow> bool" where
  "records_ok n c h ls ss \<longleftrightarrow>
     (\<forall>td \<in> set ls. ref_count (the (h td)) = 1 \<and> queue_fits n c (ptr_list (the (h td)))) \<and>
     (\<forall>td \<in> set ss. ref_count (the (h td)) = 0 \<and> \<not> is_active (the (h td))) \<and> ids_ok h ls ss"

lemma records_okD:
  assumes "records_ok n c h ls ss"
  shows "td \<in> set ls \<Longrightarrow> ref_count (the (h td)) = 1" "td \<in> set ls \<Longrightarrow> queue_fits n c (ptr_list (the (h td)))"
    "td \<in> set ss \<Longrightarrow> ref_count (the (h td)) = 0" "td \<in> set ss \<Longrightarrow> \<not> is_active (the (h td))" "ids_ok h ls ss"
  using assms by (simp_all add: records_ok_def)

lemma records_ok_views:
  assumes "records_ok n c h ls ss" and v: "same_views (set ls \<union> set ss) h h'"
    and "\<And>td. td \<in> set ls \<Longrightarrow> queue_fits n c' (ptr_list (the (h' td)))"
  shows "records_ok n c' h' ls ss"
proof -
  have "ref_count (the (h' td)) = ref_count (the (h td))" "is_active (the (h' td)) = is_active (the (h td))"
    if "td \<in> set ls \<union> set ss" for td
    using view_eqD(2,3) [OF same_viewsD [OF v that]] by simp_all
  then show ?thesis
    using assms(3) records_okD [OF assms(1)] same_views_named(2) [OF v] unfolding records_ok_def by simp
qed

text \<open>
  The addresses \<open>c\<close> collected, \<open>f\<close> freed and \<open>p\<close> pending: what was freed or is pending was collected, and as often;
  an address is collected at most once more than it was freed.
\<close>

definition accounts :: "size_t list \<Rightarrow> size_t list \<Rightarrow> size_t list \<Rightarrow> bool" where
  "accounts c f p \<longleftrightarrow> length f + length p \<le> length c \<and> (\<forall>x \<in> set p. aligned4 x) \<and>
     (\<forall>x. x \<noteq> 0 \<longrightarrow> count_list f x + count_list p x \<le> count_list c x \<and> count_list c x \<le> count_list f x + 1)"

definition sys_at ::
  "'o kernel \<Rightarrow> int \<Rightarrow> 'o lib \<Rightarrow> size_t list \<Rightarrow> size_t list \<Rightarrow> size_t list \<Rightarrow> (size_t \<times> size_t) set \<Rightarrow> bool" where
  "sys_at k n s cs ls ss D \<longleftrightarrow>
     ts_inv k (lib_ts s) cs ls ss D \<and> ptrs_ok n \<and> \<not> TIMESTAMP_IS_ACTIVE (global_timestamp (proc (lib_ts s))) \<and>
     lib_count s = int (length ls) \<and>
     memory_ok n (working_buffer_sz (g_tsdata (lib_ts s))) cs (tds (proc (lib_ts s))) (ls @ ss) D \<and>
     records_ok n (length (collected s)) (tds (proc (lib_ts s))) ls ss \<and>
     accounts (collected s) (freed (lib_ts s)) (pending (lib_ts s) cs ls)"

definition sys_inv :: "'o kernel \<Rightarrow> int \<Rightarrow> 'o lib \<Rightarrow> bool" where
  "sys_inv k n s \<longleftrightarrow> (\<exists>cs ls ss D. sys_at k n s cs ls ss D)"

subsection \<open>The accounts\<close>

lemma count_list_mset: "mset xs = mset ys \<Longrightarrow> count_list xs x = count_list ys x"
  by (metis count_mset)

lemma count_list_filters:
  "count_list (map f (filter P xs)) x + count_list (map f (filter (\<lambda>i. \<not> P i) xs)) x = count_list (map f xs) x"
  by (induction xs) auto

lemma count_list_dropWhile: "count_list (map f (filter P (dropWhile Q xs))) x \<le> count_list (map f (filter P xs)) x"
  by (induction xs) auto

lemma count_list_replicate_0: "x \<noteq> 0 \<Longrightarrow> count_list (replicate m (0 :: size_t)) x = 0"
  by (induction m) auto

lemma swept_survivors_count:
  assumes "x \<noteq> 0"
  shows "count_list (swept xs H) x + count_list (survivors xs H) x \<le> count_list xs x"
proof -
  have "count_list (survivors xs H) x \<le> count_list (map ((!) xs) (filter (\<lambda>i. i \<in> H) [0..<length xs])) x"
    using count_list_dropWhile by (simp add: survivors_def count_list_replicate_0 [OF assms])
  moreover have "count_list (map ((!) xs) (filter (\<lambda>i. i \<in> H) [0..<length xs])) x + count_list (swept xs H) x = count_list xs x"
    using count_list_filters [of "(!) xs" "\<lambda>i. i \<in> H" "[0..<length xs]" x] by (simp add: swept_def map_nth)
  ultimately show ?thesis by simp
qed

lemma set_survivors: "set (survivors xs H) \<subseteq> insert 0 (set xs)"
  by (auto simp: survivors_def dest: set_dropWhileD)

lemma accountsD:
  assumes "accounts c f p"
  shows "length f + length p \<le> length c" "x \<in> set p \<Longrightarrow> aligned4 x"
    "x \<noteq> 0 \<Longrightarrow> count_list f x + count_list p x \<le> count_list c x" "x \<noteq> 0 \<Longrightarrow> count_list c x \<le> count_list f x + 1"
  using assms by (auto simp: accounts_def)

text \<open>Addresses that are freed or lost stay accounted for.\<close>

lemma accounts_fewer:
  assumes "accounts c f p" and "length g + length p' \<le> length p" and "set p' \<subseteq> insert 0 (set p)"
    and "\<And>x. x \<noteq> 0 \<Longrightarrow> count_list g x + count_list p' x \<le> count_list p x"
  shows "accounts c (f @ g) p'"
proof -
  have "length (f @ g) + length p' \<le> length c" using accountsD(1) [OF assms(1)] assms(2) by simp
  moreover have "aligned4 x" if "x \<in> set p'" for x using accountsD(2) [OF assms(1), of x] assms(3) that by auto
  moreover have "count_list (f @ g) x + count_list p' x \<le> count_list c x \<and> count_list c x \<le> count_list (f @ g) x + 1"
    if "x \<noteq> 0" for x
    using accountsD(3,4) [OF assms(1) that] assms(4) [OF that] by simp
  ultimately show ?thesis unfolding accounts_def by blast
qed

lemma accounts_queued:
  assumes "accounts c f p" and "mset p' = add_mset x (mset p)" and "aligned4 x" and "count_list c x = count_list f x"
  shows "accounts (c @ [x]) f p'"
proof -
  have p': "length p' = length p + 1" "set p' = insert x (set p)"
    using assms(2) by (metis size_mset size_add_mset Suc_eq_plus1, metis set_mset_mset set_mset_add_mset_insert)
  have "count_list p' y = (if x = y then count_list p y + 1 else count_list p y)" for y
    using assms(2) by (metis count_mset count_add_mset Suc_eq_plus1)
  then show ?thesis using assms(1,3,4) unfolding accounts_def p' by auto
qed

lemma accounts_null: "accounts c f p \<Longrightarrow> accounts (c @ [0]) f p"
  unfolding accounts_def by auto

lemma accounts_reclaimed:
  assumes "accounts c f p" and "xs = sort p" and "mset p' = mset (survivors xs H)"
  shows "accounts c (f @ swept xs H) p'"
proof (rule accounts_fewer [OF assms(1)])
  show "length (swept xs H) + length p' \<le> length p"
    using length_swept_survivors [of xs H] mset_eq_length [OF assms(3)] assms(2) by simp
  show "set p' \<subseteq> insert 0 (set p)" using set_survivors [of xs H] mset_eq_setD [OF assms(3)] assms(2) by simp
  fix x :: size_t assume "x \<noteq> 0"
  then show "count_list (swept xs H) x + count_list p' x \<le> count_list p x"
    using swept_survivors_count [of x xs H] count_list_mset [OF assms(3), of x] count_list_mset [of xs p x] assms(2)
    by simp
qed

lemma accounts_dropped:
  assumes "accounts c f p" and "mset p' \<subseteq># mset p"
  shows "accounts c f p'"
proof -
  have "accounts c (f @ []) p'"
    using size_mset_mono [OF assms(2)] set_mset_mono [OF assms(2)] mset_subset_eq_count [OF assms(2)]
    by (intro accounts_fewer [OF assms(1)]) (auto simp: count_mset)
  then show ?thesis by simp
qed

lemma accounts_reclaimable:
  assumes "accounts c f p" and "p \<noteq> []" and "int (length c) + 2 \<le> int (length f) + max_ptrs (g_tsdata s) * 2"
  shows "reclaimable False s p"
proof -
  have "count_list p x \<le> 1" if "x \<noteq> 0" for x using assms(1) that unfolding accounts_def by fastforce
  then have "count (mset (filter (\<lambda>x. x \<noteq> 0) p)) x = (if x \<in> set (filter (\<lambda>x. x \<noteq> 0) p) then 1 else 0)" for x
  proof (cases "x = 0")
    case False
    then have "count_list p x \<le> 1" "x \<in> set p \<longleftrightarrow> count_list p x \<noteq> 0"
      using \<open>\<And>x. x \<noteq> 0 \<Longrightarrow> count_list p x \<le> 1\<close> by (simp_all add: count_list_0_iff)
    then show ?thesis using False by (auto simp: count_mset)
  qed (simp add: count_mset)
  then have "distinct (filter (\<lambda>x. x \<noteq> 0) p)" by (rule distinct_count_atmost_1 [THEN iffD2, OF allI])
  then show ?thesis using assms unfolding reclaimable_def accounts_def by auto
qed

subsection \<open>Each call keeps the invariant\<close>

lemma sys_atD:
  assumes "sys_at k n s cs ls ss D"
  shows "ts_inv k (lib_ts s) cs ls ss D" "lists (proc (lib_ts s)) ls ss" "alloc_ready k (mem (proc (lib_ts s))) D"
    and "ptrs_ok n" "\<not> TIMESTAMP_IS_ACTIVE (global_timestamp (proc (lib_ts s)))" "lib_count s = int (length ls)"
    and "memory_ok n (working_buffer_sz (g_tsdata (lib_ts s))) cs (tds (proc (lib_ts s))) (ls @ ss) D"
    and "records_ok n (length (collected s)) (tds (proc (lib_ts s))) ls ss"
    and "accounts (collected s) (freed (lib_ts s)) (pending (lib_ts s) cs ls)"
  using assms by (simp_all add: sys_at_def ts_inv_def)

lemma td_of: "lists p ls ss \<Longrightarrow> td \<in> set ls \<union> set ss \<Longrightarrow> tds p td = Some (the (tds p td))"
  using lists_SomeD by fastforce

text \<open>The lists of a state are unique.\<close>

lemma lists_unique: "lists p ls ss \<Longrightarrow> lists p ls' ss' \<Longrightarrow> ls' = ls \<and> ss' = ss"
  unfolding lists_def using path_unique by metis

lemma allowed_lists: "allowed k call s \<Longrightarrow> lists (proc (lib_ts s)) ls ss \<Longrightarrow> allowed_in k ls ss call s"
  unfolding allowed_def using lists_unique by metis

text \<open>A store to one record that leaves its link and its queue alone.\<close>

definition set_td :: "size_t \<Rightarrow> thread_data \<Rightarrow> 'o ts_state \<Rightarrow> 'o ts_state" where
  "set_td td t s = s\<lparr>proc := (proc s)\<lparr>tds := (tds (proc s))(td \<mapsto> t)\<rparr>\<rparr>"

lemma ts_inv_record:
  assumes inv: "ts_inv k s cs ls ss D" and t: "td \<in> set ls" "tds (proc s) td = Some t"
    and t': "td_next t' = td_next t" "ptr_list t' = ptr_list t" "\<not> TIMESTAMP_IS_ACTIVE (local_timestamp t')"
  shows "ts_inv k (set_td td t' s) cs ls ss D" "pending (set_td td t' s) cs ls = pending s cs ls"
proof -
  have "lists (proc (set_td td t' s)) ls ss"
    using inv t t'(1) by (auto simp: ts_inv_def set_td_def nxt_def intro: lists_cong)
  moreover have "storage_inv (set_td td t' s) cs D" using inv by (simp add: ts_inv_def storage_inv_def set_td_def)
  moreover have "\<forall>u \<in> set ls. lowered ((tds (proc s))(td \<mapsto> t')) u"
    using inv t'(3) by (auto simp: ts_inv_def lowered_def)
  ultimately show "ts_inv k (set_td td t' s) cs ls ss D"
    using inv t t'(2) by (auto simp: ts_inv_def set_td_def)
  have "td_addrs ((tds (proc s))(td \<mapsto> t')) = td_addrs (tds (proc s))"
    by (rule ext) (simp add: td_addrs_def t(2) t'(2))
  then show "pending (set_td td t' s) cs ls = pending s cs ls" by (simp add: pending_def queued_def set_td_def)
qed

lemma lowered_live:
  assumes "ts_inv k s cs ls ss D" "td \<in> set ls" "tds (proc s) td = Some t"
  shows "\<not> TIMESTAMP_IS_ACTIVE (local_timestamp t)"
  using assms by (auto simp: ts_inv_def lowered_def)

lemma set_td_views:
  "tds (proc s) td = Some t \<Longrightarrow> view t' = view t \<Longrightarrow> same_views T (tds (proc s)) (tds (proc (set_td td t' s)))"
  by (simp add: same_views_def set_td_def)

lemma queue_fits_set_td:
  assumes "records_ok n c (tds (proc s)) ls ss" "tds (proc s) td = Some t" "ptr_list t' = ptr_list t" "u \<in> set ls"
  shows "queue_fits n c (ptr_list (the (tds (proc (set_td td t' s)) u)))"
  using records_okD(2) [OF assms(1,4)] assms(2,3) by (auto simp: set_td_def)

lemma set_td_frame [simp]:
  "g_tsdata (set_td td t s) = g_tsdata s" "freed (set_td td t s) = freed s"
  "global_timestamp (proc (set_td td t s)) = global_timestamp (proc s)"
  by (simp_all add: set_td_def)

lemma sys_register:
  assumes at: "sys_at k n s cs ls ss D" and "td \<in> set ls"
  shows "returns (exec k n (Register td addr sz) s) (\<lambda>s'. sys_at k n s' cs ls ss D)"
proof -
  let ?s = "lib_ts s"
  let ?t = "the (tds (proc ?s) td)"
  define t' where "t' = ?t\<lparr>local_block := \<lparr>low = addr, high = addr + sz\<rparr>\<rparr>"
  have t: "tds (proc ?s) td = Some ?t" using td_of [OF sys_atD(2) [OF at]] assms(2) by blast
  have t': "td_next t' = td_next ?t" "ptr_list t' = ptr_list ?t" "\<not> TIMESTAMP_IS_ACTIVE (local_timestamp t')" "view t' = view ?t"
    using lowered_live [OF sys_atD(1) [OF at] assms(2) t] by (simp_all add: t'_def view_def)
  note v = set_td_views [OF t t'(4)]
  have "sys_at k n (s\<lparr>lib_ts := set_td td t' ?s\<rparr>) cs ls ss D"
    using ts_inv_record [OF sys_atD(1) [OF at] assms(2) t t'(1-3)] sys_atD(4-7,9) [OF at]
      same_views_memory [OF v] records_ok_views [OF sys_atD(8) [OF at] v queue_fits_set_td [OF sys_atD(8) [OF at] t t'(2)]]
    by (simp add: sys_at_def)
  moreover have "exec k n (Register td addr sz) s = Inr (s\<lparr>lib_ts := set_td td t' ?s\<rparr>)"
    using t by (simp add: threadscan_register_local_block_def on_proc_def set_td_def t'_def)
  ultimately show ?thesis by simp
qed

text \<open>A thread that starts becomes one that has an identifier.\<close>

lemma inj_on_insert_new:
  assumes "inj_on f A" and "x \<notin> A" and "\<And>u. u \<in> A \<Longrightarrow> g u = f u" and "\<And>u. u \<in> A \<Longrightarrow> f u \<noteq> g x"
  shows "inj_on g (insert x A)"
proof -
  have "inj_on g A = inj_on f A" by (rule inj_on_cong) (rule assms(3))
  moreover have "g x \<notin> g ` A" using assms(3,4) by fastforce
  ultimately show ?thesis using assms(1,2) by simp
qed

lemma sys_start:
  assumes at: "sys_at k n s cs ls ss D" and al: "allowed_in k ls ss (Start td sp thread) s"
  shows "returns (exec k n (Start td sp thread) s) (\<lambda>s'. sys_at k n s' cs ls ss D)"
proof -
  let ?s = "lib_ts s" and ?h = "tds (proc (lib_ts s))"
  let ?t = "the (?h td)"
  define t' where "t' = ?t\<lparr>user_stack_high := sp - (sp AND (PAGESIZE - 1)), local_timestamp := 0, self := thread, is_active := True\<rparr>"
  define h' where "h' = ?h(td \<mapsto> t')"
  have td: "td \<in> set ls" "\<not> is_active ?t" "\<And>u. u \<in> named ?h ls ss \<Longrightarrow> self (the (?h u)) \<noteq> thread" using al by auto
  have t: "?h td = Some ?t" using td_of [OF sys_atD(2) [OF at]] td(1) by blast
  have t': "td_next t' = td_next ?t" "ptr_list t' = ptr_list ?t" "\<not> TIMESTAMP_IS_ACTIVE (local_timestamp t')" "self t' = thread"
    "is_active t'" "ref_count t' = ref_count ?t" "td_blocks b z td t' = td_blocks b z td ?t" for b z
    by (simp_all add: t'_def td_blocks_def TIMESTAMP_IS_ACTIVE_def)
  have h': "tds (proc (set_td td t' ?s)) = h'" by (simp add: set_td_def h'_def)
  note rec = sys_atD(8) [OF at]
  have nss: "td \<notin> set ss" using sys_atD(2) [OF at] td(1) by (auto simp: lists_def)
  have own: "owned n W cs h' (ls @ ss) = owned n W cs ?h (ls @ ss)" for W
    by (rule owned_cong) (simp add: h'_def t'(7))
  have "named h' ls ss = insert td (named ?h ls ss)" using td(1) t'(5) by (auto simp: named_def h'_def)
  moreover have "inj_on (\<lambda>u. self (the (h' u))) (insert td (named ?h ls ss))"
  proof (rule inj_on_insert_new)
    show "inj_on (\<lambda>u. self (the (?h u))) (named ?h ls ss)" using records_okD(5) [OF rec] by (simp add: ids_ok_def)
    show new: "td \<notin> named ?h ls ss" using td(2) nss by (simp add: named_def)
    show "self (the (h' u)) = self (the (?h u))" "self (the (?h u)) \<noteq> self (the (h' td))" if "u \<in> named ?h ls ss" for u
      using td(3) [OF that] that new by (auto simp: h'_def t'(4))
  qed
  ultimately have ids: "ids_ok h' ls ss" by (simp add: ids_ok_def)
  have "records_ok n (length (collected s)) h' ls ss"
    unfolding records_ok_def
    using records_okD(1-4) [OF rec] nss t'(2,6) ids by (auto simp: h'_def)
  then have "sys_at k n (s\<lparr>lib_ts := set_td td t' ?s\<rparr>) cs ls ss D"
    using ts_inv_record [OF sys_atD(1) [OF at] td(1) t t'(1-3)] sys_atD(4-7,9) [OF at]
    by (simp add: sys_at_def h' memory_ok_def own)
  moreover have "exec k n (Start td sp thread) s = Inr (s\<lparr>lib_ts := set_td td t' ?s\<rparr>)"
    using t by (simp add: threadscan_thread_base_def Let_def set_td_def t'_def)
  ultimately show ?thesis by simp
qed

text \<open>Collecting an address.\<close>

lemma queue_fits_push:
  assumes "queue_fits n c (ptr_list t)" "tds (proc s) td = Some t" "ptrs_ok n" "c < 2 ^ 62"
  shows "may_push s td"
proof -
  have "unat (capacity (ptr_list t)) = nat n" "nat n \<le> 32768"
    using assms(1,3) ptrs_ok_unat ptrs_ok_bounds(2) [of n] by (auto simp: queue_fits_def)
  then show ?thesis using assms(1,2,4) by (auto simp: may_push_def queue_fits_def)
qed

lemma queued_ptr_frame [simp]:
  "g_tsdata (queued_ptr td ptr s) = g_tsdata s" "freed (queued_ptr td ptr s) = freed s"
  "global_timestamp (proc (queued_ptr td ptr s)) = global_timestamp (proc s)"
  by (simp_all add: queued_ptr_def Let_def)

lemma queued_ptr_record:
  "the (tds (proc (queued_ptr td ptr s)) u) =
     (if u = td then (the (tds (proc s) td))\<lparr>ptr_list := pushed (ptr_list (the (tds (proc s) td))) ptr\<rparr>
      else the (tds (proc s) u))"
  by (simp add: queued_ptr_def Let_def)

lemma queued_ptr_views: "same_views T (tds (proc s)) (tds (proc (queued_ptr td ptr s)))"
  by (simp add: same_views_def queued_ptr_record view_def)

lemma idx_head_pushed:
  assumes "unat (idx_head q) \<le> c" "c < 2 ^ 62"
  shows "unat (idx_head (pushed q v)) \<le> c + 1"
proof -
  have "unat (idx_head q + 1) = unat (idx_head q) + 1" using assms by (simp add: unat_word_ariths)
  then show ?thesis using assms by simp
qed

lemma sys_collect_room:
  assumes at: "sys_at k n s cs ls ss D" and td: "td \<in> set ls" and p: "ptr \<noteq> 0" "may_collect ptr s"
    and room: "has_room (lib_ts s) td"
  shows "sys_at k n (s\<lparr>lib_ts := queued_ptr td ptr (lib_ts s), collected := collected s @ [ptr]\<rparr>) cs ls ss D"
proof -
  let ?s = "lib_ts s" and ?h = "tds (proc (lib_ts s))"
  let ?t = "the (?h td)" and ?c = "length (collected s)"
  have t: "?h td = Some ?t" using td_of [OF sys_atD(2) [OF at]] td by blast
  note rec = sys_atD(8) [OF at]
  have fits: "queue_fits n ?c (ptr_list ?t)" by (rule records_okD(2) [OF rec td])
  have small: "?c < 2 ^ 62" using p(2) by (simp add: may_collect_def)
  have push: "may_push ?s td" by (rule queue_fits_push [OF fits t sys_atD(4) [OF at] small])
  note q = queued_ptr_correct [OF sys_atD(1) [OF at] td push, where ptr = ptr]
  have "q_live (ptr_list ?t)" using sys_atD(1) [OF at] td t by (auto simp: ts_inv_def)
  then have ql: "q_list (pushed (ptr_list ?t) ptr) = q_list (ptr_list ?t) @ [ptr]"
    using push t q_live_pushed(2) [of "ptr_list ?t"] by (auto simp: may_push_def)
  have cap: "unat (capacity (ptr_list ?t)) = nat n"
    using fits ptrs_ok_unat [OF sys_atD(4) [OF at]] by (simp add: queue_fits_def)
  have "length (q_list (ptr_list ?t)) + 2 < nat n"
    using room t cap by (simp add: has_room_def td_addrs_def)
  then have own: "queue_fits n (?c + 1) (pushed (ptr_list ?t) ptr)"
    using fits ql idx_head_pushed [of "ptr_list ?t" ?c ptr] small by (simp add: queue_fits_def)
  have "queue_fits n (?c + 1) (ptr_list (the (tds (proc (queued_ptr td ptr ?s)) u)))" if "u \<in> set ls" for u
    using own records_okD(2) [OF rec that] by (auto simp: queued_ptr_record queue_fits_def)
  note records_ok_views [OF rec queued_ptr_views this]
  moreover have "accounts (collected s @ [ptr]) (freed ?s) (pending (queued_ptr td ptr ?s) cs ls)"
    using accounts_queued [OF sys_atD(9) [OF at] q(2)] p(2) by (simp add: may_collect_def)
  ultimately show ?thesis
    using q(1) sys_atD(4-7) [OF at] by (simp add: sys_at_def same_views_memory [OF queued_ptr_views])
qed

text \<open>A reclamation leaves the views of all records alone, and the queues of the live threads empty.\<close>

lemma view_emptied [simp]: "view (emptied t) = view t"
  by (simp add: view_def emptied_def)

lemma reclaim_frame_records:
  assumes fr: "reclaim_frame s cs ls D s' cs' D'" and t: "tds (proc s) td = Some t"
  obtains t' where "tds (proc s') td = Some t'" "view t' = view t"
    "td \<in> set ls \<Longrightarrow> ptr_list t' = ptr_list (emptied t)"
proof -
  obtain h g m where h: "stamped (drained (set ls) (tds (proc s))) h" "proc s' = (proc s)\<lparr>tds := h, global_timestamp := g, mem := m\<rparr>"
    using fr unfolding reclaim_frame_def by blast
  have "drained (set ls) (tds (proc s)) td = Some (if td \<in> set ls then emptied t else t)"
    using t by (simp add: drained_def)
  with h(1) obtain t' where t': "h td = Some t'" "unstamped t' = unstamped (if td \<in> set ls then emptied t else t)"
    by (rule stampedE)
  show thesis
    using that [of t'] t'(1) unstamped_view [OF t'(2)] unstamped_eqD(4) [OF t'(2)] by (simp add: h(2) split: if_splits)
qed

lemma memory_ok_store:
  assumes "memory_ok n W cs h xs D" and "distinct cs'" and "(\<lambda>c. (c, W)) ` set cs' \<inter> D = {}"
  shows "memory_ok n W cs' h xs (D - (\<lambda>c. (c, W)) ` set cs \<union> (\<lambda>c. (c, W)) ` set cs')"
proof -
  let ?T = "concat (map (\<lambda>td. td_blocks (of_int n * 8) STACKSIZE td (the (h td))) xs)"
  have D: "D = (\<lambda>c. (c, W)) ` set cs \<union> set ?T" "distinct ?T" "(\<lambda>c. (c, W)) ` set cs \<inter> set ?T = {}"
    using assms(1) by (auto simp: memory_ok_def owned_def)
  then have "D - (\<lambda>c. (c, W)) ` set cs = set ?T" by blast
  moreover have "distinct (map (\<lambda>c. (c, W)) cs')" using assms(2) by (simp add: distinct_map inj_on_def)
  moreover have "(\<lambda>c. (c, W)) ` set cs' \<inter> set ?T = {}" using assms(3) D(1) by blast
  ultimately show ?thesis using D(2) by (simp add: memory_ok_def owned_def Un_commute)
qed

lemma sys_collect_reclaims:
  assumes at: "sys_at k n s cs ls ss D" and td: "td \<in> set ls" and p: "ptr \<noteq> 0" "may_collect ptr s" and w: "w_kernel w = k"
    and r: "reclaimed w td (queued_ptr td ptr (lib_ts s)) cs ls ss D s' cs' D'"
  shows "sys_at k n (s\<lparr>lib_ts := s', collected := collected s @ [ptr]\<rparr>) cs' ls ss D'"
proof -
  let ?s = "lib_ts s" and ?h = "tds (proc (lib_ts s))"
  let ?s1 = "queued_ptr td ptr (lib_ts s)" and ?c = "length (collected s)"
  let ?h1 = "tds (proc ?s1)"
  note rec = sys_atD(8) [OF at] and small = p(2) [unfolded may_collect_def]
  obtain xs H where R: "ts_inv k s' cs' ls ss D'" "xs = sort (pending ?s1 cs ls)" "freed s' = freed ?s @ swept xs H"
    "mset (pending s' cs' ls) = mset (survivors xs H)" "\<not> TIMESTAMP_IS_ACTIVE (global_timestamp (proc s'))"
    and fr: "reclaim_frame ?s1 cs ls D s' cs' D'"
    using r w unfolding reclaimed_def by auto
  have td0: "?h td = Some (the (?h td))" using td_of [OF sys_atD(2) [OF at]] td by blast
  have push: "may_push ?s td"
    by (rule queue_fits_push [OF records_okD(2) [OF rec td] td0 sys_atD(4) [OF at]]) (use small in simp)
  note q = queued_ptr_correct [OF sys_atD(1) [OF at] td push, where ptr = ptr]
  have l1: "lists (proc ?s1) ls ss" using q(1) by (simp add: ts_inv_def)
  have head: "unat (idx_head (ptr_list (the (?h1 u)))) \<le> ?c + 1" "capacity (ptr_list (the (?h1 u))) = of_int n" if "u \<in> set ls" for u
    using records_okD(2) [OF rec that] records_okD(2) [OF rec td] idx_head_pushed [of _ ?c ptr] small
    by (auto simp: queued_ptr_record queue_fits_def)
  have v: "same_views (set ls \<union> set ss) ?h (tds (proc s'))"
    unfolding same_views_def
  proof
    fix u assume u: "u \<in> set ls \<union> set ss"
    obtain t' where "tds (proc s') u = Some t'" "view t' = view (the (?h1 u))"
      by (rule reclaim_frame_records [OF fr td_of [OF l1 u]])
    then show "view (the (tds (proc s') u)) = view (the (?h u))"
      by (simp add: same_viewsD [OF queued_ptr_views UNIV_I])
  qed
  have "queue_fits n (?c + 1) (ptr_list (the (tds (proc s') u)))" if u: "u \<in> set ls" for u
  proof -
    have t1: "?h1 u = Some (the (?h1 u))" using td_of [OF l1] u by blast
    obtain t' where t': "tds (proc s') u = Some t'" "ptr_list t' = ptr_list (emptied (the (?h1 u)))"
      using reclaim_frame_records [OF fr t1] u by metis
    have "q_live (ptr_list (the (?h1 u)))" using q(1) u t1 by (auto simp: ts_inv_def)
    then have "q_list (ptr_list t') = []" using emptied_queue(2) t'(2) by simp
    then show ?thesis
      using head [OF u] t' ptrs_ok_bounds(1) [OF sys_atD(4) [OF at]] by (simp add: queue_fits_def emptied_def popped_def)
  qed
  note records_ok_views [OF rec v this]
  moreover have "accounts (collected s @ [ptr]) (freed s') (pending s' cs' ls)"
    unfolding R(3)
    by (rule accounts_reclaimed [OF accounts_queued [OF sys_atD(9) [OF at] q(2)] R(2,4)]) (use small in simp_all)
  moreover have "memory_ok n (working_buffer_sz (g_tsdata s')) cs' (tds (proc s')) (ls @ ss) D'"
  proof -
    have W: "working_buffer_sz (g_tsdata s') = working_buffer_sz (g_tsdata ?s)"
      and D': "D' = D - store_blocks ?s1 cs \<union> store_blocks ?s1 cs'" "store_blocks ?s1 cs' \<inter> D = {}"
      using fr by (simp_all add: reclaim_frame_def)
    have "distinct cs'" using R(1) by (simp add: ts_inv_def storage_inv_def)
    from memory_ok_store [OF sys_atD(7) [OF at] this] D'
    have "memory_ok n (working_buffer_sz (g_tsdata ?s)) cs' ?h (ls @ ss) D'" by (simp add: store_blocks_def)
    then show ?thesis using same_views_memory [of "ls @ ss" ?h] v by (simp add: W)
  qed
  ultimately show ?thesis using R(1,5) sys_atD(4,6) [OF at] by (simp add: sys_at_def)
qed

lemma queue_fits_mono: "queue_fits n c q \<Longrightarrow> c \<le> c' \<Longrightarrow> queue_fits n c' q"
  by (simp add: queue_fits_def)

lemma sys_collect_null:
  assumes at: "sys_at k n s cs ls ss D"
  shows "sys_at k n (s\<lparr>collected := collected s @ [0]\<rparr>) cs ls ss D"
proof -
  have "records_ok n (length (collected s) + 1) (tds (proc (lib_ts s))) ls ss"
    by (rule records_ok_views [OF sys_atD(8) [OF at]])
       (auto simp: same_views_def intro: queue_fits_mono [OF records_okD(2) [OF sys_atD(8) [OF at]]])
  then show ?thesis using sys_atD [OF at] accounts_null by (simp add: sys_at_def)
qed

lemma sys_may_push:
  assumes at: "sys_at k n s cs ls ss D" and al: "allowed_in k ls ss (Collect w td ptr) s" and "ptr \<noteq> 0"
  shows "may_push (lib_ts s) td"
proof -
  have td: "td \<in> set ls" and p: "may_collect ptr s" using al assms(3) by auto
  have t: "tds (proc (lib_ts s)) td = Some (the (tds (proc (lib_ts s)) td))" using td_of [OF sys_atD(2) [OF at]] td by blast
  show ?thesis
    by (rule queue_fits_push [OF records_okD(2) [OF sys_atD(8) [OF at] td] t sys_atD(4) [OF at]])
       (use p in \<open>simp add: may_collect_def\<close>)
qed

lemma collect_outcome_sys:
  assumes at: "sys_at k n s cs ls ss D" and al: "allowed_in k ls ss (Collect w td ptr) s" and nz: "ptr \<noteq> 0"
  shows "okay (mmap_fails k) (threadscan_collect False w td ptr (lib_ts s)) (\<lambda>s'.
    if has_room (lib_ts s) td then s' = queued_ptr td ptr (lib_ts s)
    else \<exists>cs' D'. reclaimed w td (queued_ptr td ptr (lib_ts s)) cs ls ss D s' cs' D')"
proof -
  let ?s = "lib_ts s"
  have td: "td \<in> set ls" "w_kernel w = k" and p: "may_collect ptr s"
    and ready: "has_room ?s td \<or> scan_ready False w td (tds (proc ?s)) ls" using al nz by auto
  have "accounts (collected s @ [ptr]) (freed ?s) (ptr # pending ?s cs ls)"
    by (rule accounts_queued [OF sys_atD(9) [OF at]]) (use p in \<open>simp_all add: may_collect_def\<close>)
  then have rec: "reclaimable False ?s (ptr # pending ?s cs ls)"
    by (rule accounts_reclaimable) (use p in \<open>simp_all add: may_collect_def\<close>)
  have inv: "ts_inv (w_kernel w) ?s cs ls ss D" using sys_atD(1) [OF at] td(2) by simp
  show ?thesis unfolding td(2) [symmetric]
    by (rule collect_outcome [OF inv td(1) sys_may_push [OF at al nz] nz]) (use ready rec sys_atD(5) [OF at] in blast)
qed

lemma sys_collect:
  assumes at: "sys_at k n s cs ls ss D" and al: "allowed_in k ls ss (Collect w td ptr) s"
  shows "okay (mmap_fails k) (exec k n (Collect w td ptr) s) (sys_inv k n)"
proof (cases "ptr = 0")
  case True
  then have "exec k n (Collect w td ptr) s = Inr (s\<lparr>collected := collected s @ [0]\<rparr>)"
    by (simp add: threadscan_collect_def)
  then show ?thesis using sys_collect_null [OF at] by (auto simp: sys_inv_def)
next
  case False
  let ?s = "lib_ts s"
  have td: "td \<in> set ls" "w_kernel w = k" and p: "may_collect ptr s" using al False by auto
  from collect_outcome_sys [OF at al False]
  show ?thesis unfolding exec.simps
  proof (rule okay_bindE)
    fix s' assume r: "if has_room ?s td then s' = queued_ptr td ptr ?s
      else \<exists>cs' D'. reclaimed w td (queued_ptr td ptr ?s) cs ls ss D s' cs' D'"
    have "sys_inv k n (s\<lparr>lib_ts := s', collected := collected s @ [ptr]\<rparr>)"
    proof (cases "has_room ?s td")
      case True
      then have "s' = queued_ptr td ptr ?s" using r by simp
      then show ?thesis using sys_collect_room [OF at td(1) False p True] unfolding sys_inv_def by blast
    next
      case full: False
      then obtain cs' D' where "reclaimed w td (queued_ptr td ptr ?s) cs ls ss D s' cs' D'" using r by auto
      from sys_collect_reclaims [OF at td(1) False p td(2) this] show ?thesis unfolding sys_inv_def by blast
    qed
    then show "okay (mmap_fails k) (Inr (s\<lparr>lib_ts := s', collected := collected s @ [ptr]\<rparr>)) (sys_inv k n)" by simp
  qed
qed

text \<open>What the calls of the wrappers have in common: the state of the threads changes, that of the reclamation does not.\<close>

lemma ts_inv_proc:
  assumes "ts_inv k s cs ls ss D" and "lists p' ls' ss'" and "alloc_ready k (mem p') D'"
    and "(\<lambda>c. (c, working_buffer_sz (g_tsdata s))) ` set cs \<subseteq> D'"
    and "\<And>td. td \<in> set ls' \<Longrightarrow> \<exists>t. tds p' td = Some t \<and> q_live (ptr_list t) \<and> \<not> TIMESTAMP_IS_ACTIVE (local_timestamp t)"
  shows "ts_inv k (s\<lparr>proc := p'\<rparr>) cs ls' ss' D'"
proof -
  have "storage_inv (s\<lparr>proc := p'\<rparr>) cs D'" using assms(1,4) by (simp add: ts_inv_def storage_inv_def)
  moreover have "\<forall>td \<in> set ls'. lowered (tds p') td" using assms(5) by (fastforce simp: lowered_def)
  moreover have "\<forall>td \<in> set ls'. \<exists>t. tds p' td = Some t \<and> q_live (ptr_list t)" using assms(5) by blast
  ultimately show ?thesis using assms(1-3) by (simp add: ts_inv_def)
qed

lemma live_record:
  assumes "ts_inv k s cs ls ss D" "td \<in> set ls"
  shows "\<exists>t. tds (proc s) td = Some t \<and> q_live (ptr_list t) \<and> \<not> TIMESTAMP_IS_ACTIVE (local_timestamp t)"
  using assms by (auto simp: ts_inv_def lowered_def)

lemma mset_owned:
  "mset (owned n W cs h xs) = mset (map (\<lambda>c. (c, W)) cs) + (\<Sum>td \<in># mset xs. mset (td_blocks (of_int n * 8) STACKSIZE td (the (h td))))"
  by (induction xs) (simp_all add: owned_def)

lemma memory_ok_perm:
  assumes "mset xs = mset ys"
  shows "memory_ok n W cs h xs D = memory_ok n W cs h ys D"
proof -
  have "mset (owned n W cs h xs) = mset (owned n W cs h ys)" by (simp only: mset_owned assms)
  then show ?thesis unfolding memory_ok_def by (metis mset_eq_setD mset_eq_imp_distinct_iff)
qed

lemma mset_queued: "mset (queued h xs) = (\<Sum>td \<in># mset xs. mset (td_addrs h td))"
  by (induction xs) (simp_all add: queued_def)

text \<open>Records that changed in their links at most.\<close>

definition kept :: "size_t set \<Rightarrow> tdheap \<Rightarrow> tdheap \<Rightarrow> bool" where
  "kept T h h' \<longleftrightarrow> (\<forall>u \<in> T. \<exists>t t'. h u = Some t \<and> h' u = Some t' \<and> unlinked t' = unlinked t)"

lemma keptE:
  assumes "kept T h h'" "u \<in> T"
  obtains t t' where "h u = Some t" "h' u = Some t'" "view t' = view t" "ptr_list t' = ptr_list t"
    "local_timestamp t' = local_timestamp t"
  using assms unlinked_view unfolding kept_def by blast

lemma kept_mono: "kept T h h' \<Longrightarrow> S \<subseteq> T \<Longrightarrow> kept S h h'"
  unfolding kept_def by blast

lemma kept_views: "kept T h h' \<Longrightarrow> same_views T h h'"
  unfolding same_views_def by (metis keptE option.sel)

lemma kept_queue: "kept T h h' \<Longrightarrow> u \<in> T \<Longrightarrow> ptr_list (the (h' u)) = ptr_list (the (h u))"
  by (metis keptE option.sel)

lemma kept_queued:
  assumes "kept (set xs) h h'"
  shows "queued h' xs = queued h xs"
proof -
  have "map (td_addrs h') xs = map (td_addrs h) xs"
    by (rule map_cong [OF refl]) (simp add: td_addrs_def kept_queue [OF assms])
  then show ?thesis by (simp only: queued_def)
qed

lemma ts_inv_kept:
  assumes "ts_inv k s cs ls ss D" and "lists p' ls' ss'" and "alloc_ready k (mem p') D'"
    and "(\<lambda>c. (c, working_buffer_sz (g_tsdata s))) ` set cs \<subseteq> D'"
    and "kept (set ls') (tds (proc s)) (tds p')" and "set ls' \<subseteq> set ls"
  shows "ts_inv k (s\<lparr>proc := p'\<rparr>) cs ls' ss' D'"
proof (rule ts_inv_proc [OF assms(1-4)])
  fix u assume u: "u \<in> set ls'"
  obtain t t' where t: "tds (proc s) u = Some t" "tds p' u = Some t'" "ptr_list t' = ptr_list t" "local_timestamp t' = local_timestamp t"
    by (rule keptE [OF assms(5) u])
  then show "\<exists>t. tds p' u = Some t \<and> q_live (ptr_list t) \<and> \<not> TIMESTAMP_IS_ACTIVE (local_timestamp t)"
    using live_record [OF assms(1), of u] u assms(6) by auto
qed

text \<open>A thread that exits keeps its identifier and its blocks.\<close>

lemma exit_memory:
  assumes "td \<in> set ls" and "kept (set ls \<union> set ss - {td}) h h'" and "td_blocks (of_int n * 8) STACKSIZE td (the (h' td)) = td_blocks (of_int n * 8) STACKSIZE td (the (h td))"
  shows "memory_ok n W cs h' (remove1 td ls @ td # ss) D = memory_ok n W cs h (ls @ ss) D"
proof -
  have "mset (remove1 td ls @ td # ss) = mset (ls @ ss)" using assms(1) by simp
  then have "memory_ok n W cs h' (remove1 td ls @ td # ss) D = memory_ok n W cs h' (ls @ ss) D"
    by (rule memory_ok_perm)
  moreover have "owned n W cs h' (ls @ ss) = owned n W cs h (ls @ ss)"
  proof (rule owned_cong)
    fix u assume "u \<in> set (ls @ ss)"
    then show "td_blocks (of_int n * 8) STACKSIZE u (the (h' u)) = td_blocks (of_int n * 8) STACKSIZE u (the (h u))"
      using assms(3) by (cases "u = td") (auto intro: view_eqD(4) [OF same_viewsD [OF kept_views [OF assms(2)]]])
  qed
  ultimately show ?thesis by (simp add: memory_ok_def)
qed

lemma exit_records:
  assumes rec: "records_ok n c h ls ss" and d: "distinct ls" and td: "td \<in> set ls" "is_active (the (h td))"
    and k: "kept (set ls \<union> set ss - {td}) h h'"
    and t': "self (the (h' td)) = self (the (h td))" "\<not> is_active (the (h' td))" "ref_count (the (h' td)) = 0"
  shows "records_ok n c h' (remove1 td ls) (td # ss)"
proof -
  have same: "self (the (h' u)) = self (the (h u))" "is_active (the (h' u)) = is_active (the (h u))"
    "ref_count (the (h' u)) = ref_count (the (h u))" if "u \<in> set ls \<union> set ss - {td}" for u
    using view_eqD(1-3) [OF same_viewsD [OF kept_views [OF k] that]] by simp_all
  have rm: "set (remove1 td ls) = set ls - {td}" using d by (simp add: set_remove1_eq)
  have "{u \<in> set (remove1 td ls). is_active (the (h' u))} = {u \<in> set ls. is_active (the (h u))} - {td}"
    unfolding rm using same(2) by blast
  moreover have "td \<in> {u \<in> set ls. is_active (the (h u))}" using td by simp
  ultimately have named: "named h' (remove1 td ls) (td # ss) = named h ls ss" unfolding named_def by auto
  have "self (the (h' u)) = self (the (h u))" if "u \<in> named h ls ss" for u
    using that t'(1) same(1) [of u] by (cases "u = td") (auto simp: named_def)
  then have "ids_ok h' (remove1 td ls) (td # ss) = ids_ok h ls ss"
    unfolding ids_ok_def named by (rule inj_on_cong)
  then have "ids_ok h' (remove1 td ls) (td # ss)" using records_okD(5) [OF rec] by simp
  moreover have "ref_count (the (h' u)) = 1 \<and> queue_fits n c (ptr_list (the (h' u)))" if "u \<in> set (remove1 td ls)" for u
    using that rm same(3) [of u] kept_queue [OF k, of u] records_okD(1,2) [OF rec, of u] by simp
  moreover have "ref_count (the (h' u)) = 0 \<and> \<not> is_active (the (h' u))" if "u \<in> set (td # ss)" for u
    using that t'(2,3) same(2,3) [of u] records_okD(3,4) [OF rec, of u] by (cases "u = td") auto
  ultimately show ?thesis unfolding records_ok_def by blast
qed

lemma queued_remove1:
  assumes "td \<in> set ls"
  shows "mset (queued h (remove1 td ls)) \<subseteq># mset (queued h ls)"
proof -
  have "mset (td # remove1 td ls) = mset ls" using assms by simp
  then have "mset (queued h (td # remove1 td ls)) = mset (queued h ls)" by (simp only: mset_queued)
  moreover have "queued h (td # remove1 td ls) = td_addrs h td @ queued h (remove1 td ls)" by (simp add: queued_def)
  ultimately show ?thesis by (metis mset_append mset_subset_eq_add_right)
qed

lemma sys_exit:
  assumes at: "sys_at k n s cs ls ss D" and al: "allowed_in k ls ss (Exit td) s"
  shows "returns (exec k n (Exit td) s) (\<lambda>s'. sys_at k n s' cs (remove1 td ls) (td # ss) D)"
proof -
  let ?s = "lib_ts s" and ?h = "tds (proc (lib_ts s))"
  let ?t = "the (?h td)"
  note rec = sys_atD(8) [OF at] and lst = sys_atD(2) [OF at]
  have td: "td \<in> set ls" "is_active ?t" using al by auto
  have t: "?h td = Some ?t" using td_of [OF lst] td(1) by blast
  obtain p t' where c: "threadscan_thread_cleanup False td (proc ?s) = Inr p" "lists p (remove1 td ls) (td # ss)"
    "tds p td = Some t'" "t' = ?t\<lparr>is_active := False, ref_count := 0, td_next := td_next t'\<rparr>" "mem p = mem (proc ?s)"
    "\<And>u. u \<noteq> td \<Longrightarrow> map_option (td_next_update (\<lambda>_. 0)) (tds p u) = map_option (td_next_update (\<lambda>_. 0)) (?h u)"
    using thread_cleanup_correct [OF lst td(1) t records_okD(1) [OF rec td(1)], of False] by metis
  have t': "self t' = self ?t" "td_blocks b z td t' = td_blocks b z td ?t" "\<not> is_active t'" "ref_count t' = 0" for b z
    by (subst c(4), simp add: td_blocks_def)+
  have k: "kept (set ls \<union> set ss - {td}) ?h (tds p)"
    unfolding kept_def
  proof
    fix u assume u: "u \<in> set ls \<union> set ss - {td}"
    then obtain tu where "?h u = Some tu" using td_of [OF lst, of u] by blast
    then show "\<exists>t t'. ?h u = Some t \<and> tds p u = Some t' \<and> unlinked t' = unlinked t"
      using c(6) [of u] u by (cases "tds p u") (auto simp: unlinked_def)
  qed
  have d: "distinct ls" using lst by (simp add: lists_def)
  then have rm: "set (remove1 td ls) \<subseteq> set ls \<union> set ss - {td}" by (auto simp: set_remove1_eq)
  have store: "(\<lambda>c. (c, working_buffer_sz (g_tsdata ?s))) ` set cs \<subseteq> D"
    using sys_atD(1) [OF at] by (simp add: ts_inv_def storage_inv_def)
  have am: "alloc_ready k (mem p) D" using sys_atD(3) [OF at] c(5) by simp
  have "ts_inv k (?s\<lparr>proc := p\<rparr>) cs (remove1 td ls) (td # ss) D"
    by (rule ts_inv_kept [OF sys_atD(1) [OF at] c(2) am store kept_mono [OF k rm] set_remove1_subset])
  moreover have "records_ok n (length (collected s)) (tds p) (remove1 td ls) (td # ss)"
    by (rule exit_records [OF rec d td k]) (simp_all add: c(3) t')
  moreover have "memory_ok n W cs (tds p) (remove1 td ls @ td # ss) D = memory_ok n W cs ?h (ls @ ss) D" for W
    by (rule exit_memory [OF td(1) k]) (simp add: c(3) t'(2))
  moreover have "accounts (collected s) (freed ?s) (pending (?s\<lparr>proc := p\<rparr>) cs (remove1 td ls))"
    by (rule accounts_dropped [OF sys_atD(9) [OF at]])
       (use kept_queued [OF kept_mono [OF k rm]] queued_remove1 [OF td(1)] in \<open>simp add: pending_def\<close>)
  moreover have "int (length (remove1 td ls)) = int (length ls) - 1"
    using td(1) length_remove1 [of td ls] by (cases ls) (simp_all del: remove1.simps)
  ultimately have "sys_at k n (s\<lparr>lib_ts := ?s\<lparr>proc := p\<rparr>, lib_count := lib_count s - 1\<rparr>) cs (remove1 td ls) (td # ss) D"
    using sys_atD(4-7) [OF at] thread_cleanup_timestamp [OF c(1)] by (simp add: sys_at_def)
  moreover have "exec k n (Exit td) s = Inr (s\<lparr>lib_ts := ?s\<lparr>proc := p\<rparr>, lib_count := lib_count s - 1\<rparr>)"
    by (simp add: pthread_exit_def wrapped_def unwrapped_def c(1))
  ultimately show ?thesis by simp
qed

text \<open>Owned blocks begin at different addresses.\<close>

lemma td_blocks_nonzero:
  assumes "ptrs_ok n" "b \<in> set (td_blocks (of_int n * 8) STACKSIZE td t)"
  shows "snd b \<noteq> 0"
  using assms(2) ptrs_ok_buffer(2) [OF assms(1)] STACKSIZE_ok(1)
  by (auto simp: td_blocks_def MEMBLOCK_SIZE_def PAGESIZE_def split: if_splits)

lemma owned_starts:
  assumes "alloc_ready k m D" and "distinct bs" and "set bs \<subseteq> D" and "\<And>b. b \<in> set bs \<Longrightarrow> snd b \<noteq> 0"
  shows "distinct (map fst bs)"
proof -
  have "inj_on fst (set bs)"
  proof (rule inj_onI, rule ccontr)
    fix r q assume "r \<in> set bs" "q \<in> set bs" "fst r = fst q" "r \<noteq> q"
    then have "apart r q" "snd r \<noteq> 0" "snd q \<noteq> 0"
      using pages.owns_apart [OF assms(1), of r q] assms(3,4) by blast+
    then show False using \<open>fst r = fst q\<close> by (metis apart_neq prod.collapse)
  qed
  then show ?thesis using assms(2) by (simp add: distinct_map)
qed

text \<open>A thread less, with its blocks.\<close>

lemma memory_ok_remove:
  assumes "memory_ok n W cs h (us @ td # vs) D"
  shows "memory_ok n W cs h (us @ vs) (D - set (td_blocks (of_int n * 8) STACKSIZE td (the (h td))))"
    and "set (td_blocks (of_int n * 8) STACKSIZE td (the (h td))) \<subseteq> D"
    and "distinct (td_blocks (of_int n * 8) STACKSIZE td (the (h td)))"
    and "(\<lambda>c. (c, W)) ` set cs \<subseteq> D - set (td_blocks (of_int n * 8) STACKSIZE td (the (h td)))"
  using assms by (auto simp: memory_ok_def owned_def)

lemma records_ok_fewer:
  assumes "records_ok n c h ls ss" and "set ss' \<subseteq> set ss"
  shows "records_ok n c h ls ss'"
proof -
  have "named h ls ss' \<subseteq> named h ls ss" using assms(2) by (auto simp: named_def)
  then have "ids_ok h ls ss'" using records_okD(5) [OF assms(1)] unfolding ids_ok_def by (rule inj_on_subset [rotated])
  then show ?thesis using assms unfolding records_ok_def by blast
qed

lemma sys_join:
  assumes at: "sys_at k n s cs ls ss D" and al: "allowed_in k ls ss (Join lib tid) s"
  shows "\<exists>ss' D'. returns (exec k n (Join lib tid) s) (\<lambda>s'. sys_at k n s' cs ls ss' D')"
proof -
  let ?s = "lib_ts s" and ?h = "tds (proc (lib_ts s))"
  note rec = sys_atD(8) [OF at] and lst = sys_atD(2) [OF at]
  obtain td where td: "td \<in> set ss" "self (the (?h td)) = tid" using al by auto
  obtain us vs where ss: "ss = us @ td # vs" using td(1) by (meson split_list)
  let ?B = "td_blocks (of_int n * 8) STACKSIZE td (the (?h td))"
  have t: "?h td = Some (the (?h td))" using td_of [OF lst] td(1) by blast
  have d: "distinct (ls @ us @ td # vs)" using lst by (simp add: lists_def ss)
  have others: "self tu \<noteq> tid" if "u \<in> set us" "?h u = Some tu" for u tu
  proof
    assume "self tu = tid"
    then have "self (the (?h u)) = self (the (?h td))" using td(2) that(2) by simp
    moreover have "u \<in> named ?h ls ss" "td \<in> named ?h ls ss" using that(1) td(1) by (simp_all add: named_def ss)
    ultimately have "u = td" using inj_onD [OF records_okD(5) [OF rec, unfolded ids_ok_def]] by blast
    then show False using d that(1) by auto
  qed
  have mo: "memory_ok n W cs ?h ((ls @ us) @ td # vs) D" if "W = working_buffer_sz (g_tsdata ?s)" for W
    using sys_atD(7) [OF at] that by (simp add: ss)
  note blk = memory_ok_remove [OF mo [OF refl]]
  have starts: "distinct (map fst ?B)"
    by (rule owned_starts [OF sys_atD(3) [OF at] blk(3,2)]) (rule td_blocks_nonzero [OF sys_atD(4) [OF at]])
  have "returns (threadscan_util_thread_data_cleanup False k tid (proc ?s)) (\<lambda>p.
      lists p ls (us @ vs) \<and> tds p td = None \<and> alloc_ready k (mem p) (D - set ?B))"
    by (rule thread_data_cleanup_correct [OF lst [unfolded ss] t td(2) _ others sys_atD(3) [OF at] blk(2) starts])
       (use records_okD(3) [OF rec td(1)] in simp_all)
  then obtain p where p: "threadscan_util_thread_data_cleanup False k tid (proc ?s) = Inr p"
    "lists p ls (us @ vs)" "alloc_ready k (mem p) (D - set ?B)" by (auto elim: returnsE)
  have k: "kept (set ls \<union> set (us @ vs)) ?h (tds p)"
    unfolding kept_def
  proof
    fix u assume u: "u \<in> set ls \<union> set (us @ vs)"
    obtain tu where tu: "tds p u = Some tu" using td_of [OF p(2) u] by blast
    then have "map_option unlinked (?h u) = Some (unlinked tu)"
      using thread_data_cleanup_records [OF p(1), of u] by (auto dest: sym)
    then show "\<exists>t t'. ?h u = Some t \<and> tds p u = Some t' \<and> unlinked t' = unlinked t" using tu by auto
  qed
  have "ts_inv k (?s\<lparr>proc := p\<rparr>) cs ls (us @ vs) (D - set ?B)"
    by (rule ts_inv_kept [OF sys_atD(1) [OF at] p(2,3) blk(4) kept_mono [OF k]]) auto
  moreover have "records_ok n (length (collected s)) (tds p) ls (us @ vs)"
  proof (rule records_ok_views [OF records_ok_fewer [OF rec] kept_views [OF k]])
    show "queue_fits n (length (collected s)) (ptr_list (the (tds p u)))" if "u \<in> set ls" for u
      using kept_queue [OF k, of u] records_okD(2) [OF rec that] that by simp
  qed (auto simp: ss)
  moreover have "memory_ok n (working_buffer_sz (g_tsdata ?s)) cs (tds p) (ls @ us @ vs) (D - set ?B)"
    using blk(1) same_views_memory [of "ls @ us @ vs" ?h "tds p"] kept_views [OF k] by simp
  moreover have "pending (?s\<lparr>proc := p\<rparr>) cs ls = pending ?s cs ls"
    using kept_queued [OF kept_mono [OF k, of "set ls"]] by (simp add: pending_def)
  ultimately have "sys_at k n (s\<lparr>lib_ts := ?s\<lparr>proc := p\<rparr>\<rparr>) cs ls (us @ vs) (D - set ?B)"
    using sys_atD(4-6,9) [OF at] thread_data_cleanup_timestamp [OF p(1)] by (simp add: sys_at_def)
  moreover have "exec k n (Join lib tid) s = Inr (s\<lparr>lib_ts := ?s\<lparr>proc := p\<rparr>\<rparr>)"
    by (simp add: pthread_join_def wrapped_def unwrapped_def p(1))
  ultimately show ?thesis by auto
qed

text \<open>A thread more, with its blocks.\<close>

lemma memory_ok_add:
  assumes mo: "memory_ok n W cs h xs D" and td: "td \<notin> set xs" and n: "ptrs_ok n"
    and new: "new_thread n start_routine arg stack ours td t D"
  shows "memory_ok n W cs (h(td \<mapsto> t)) (td # xs) (set (td_blocks (of_int n * 8) STACKSIZE td t) \<union> D)"
proof -
  let ?B = "td_blocks (of_int n * 8) STACKSIZE td t"
  have B: "distinct ?B" "\<And>r b. r \<in> D \<Longrightarrow> b \<in> set ?B \<Longrightarrow> apart r b"
    using new by (simp_all add: new_thread_def distinct_map)
  have "set ?B \<inter> D = {}"
  proof (rule ccontr)
    assume "set ?B \<inter> D \<noteq> {}"
    then obtain b where "b \<in> set ?B" "apart b b" using B(2) by blast
    then show False using td_blocks_nonzero [OF n, of b td t] by (metis apart_neq prod.collapse)
  qed
  moreover have "mset (owned n W cs (h(td \<mapsto> t)) (td # xs)) = mset ?B + mset (owned n W cs h xs)"
  proof -
    have same: "owned n W cs (h(td \<mapsto> t)) xs = owned n W cs h xs" by (rule owned_cong) (use td in auto)
    have "mset (owned n W cs (h(td \<mapsto> t)) (td # xs)) = mset ?B + mset (owned n W cs (h(td \<mapsto> t)) xs)"
      by (simp add: mset_owned)
    then show ?thesis by (simp only: same)
  qed
  then have "mset (owned n W cs (h(td \<mapsto> t)) (td # xs)) = mset (?B @ owned n W cs h xs)" by simp
  then have "set (owned n W cs (h(td \<mapsto> t)) (td # xs)) = set (?B @ owned n W cs h xs)"
    "distinct (owned n W cs (h(td \<mapsto> t)) (td # xs)) = distinct (?B @ owned n W cs h xs)"
    by (rule mset_eq_setD, rule mset_eq_imp_distinct_iff)
  ultimately show ?thesis using mo B(1) by (auto simp: memory_ok_def)
qed

lemma records_ok_add:
  assumes rec: "records_ok n c h ls ss" and td: "td \<notin> set ls \<union> set ss" and n: "ptrs_ok n"
    and t: "ref_count t = 1" "\<not> is_active t" "q_list (ptr_list t) = []" "capacity (ptr_list t) = of_int n" "idx_head (ptr_list t) = 0"
  shows "records_ok n c (h(td \<mapsto> t)) (td # ls) ss"
proof -
  have "named (h(td \<mapsto> t)) (td # ls) ss = named h ls ss" using td t(2) by (auto simp: named_def)
  moreover have "td \<notin> named h ls ss" using td by (auto simp: named_def)
  then have "inj_on (\<lambda>u. self (the ((h(td \<mapsto> t)) u))) (named h ls ss) = inj_on (\<lambda>u. self (the (h u))) (named h ls ss)"
    by (intro inj_on_cong) auto
  ultimately have "ids_ok (h(td \<mapsto> t)) (td # ls) ss" using records_okD(5) [OF rec] by (simp add: ids_ok_def)
  moreover have "queue_fits n c (ptr_list t)" using t(3-5) ptrs_ok_bounds(1) [OF n] by (simp add: queue_fits_def)
  moreover have "u \<noteq> td" if "u \<in> set ls \<union> set ss" for u using that td by auto
  ultimately show ?thesis using records_okD(1-4) [OF rec] t(1) by (simp add: records_ok_def)
qed

lemma records_owned_memory:
  assumes "memory_ok n W cs h (ls @ ss) D"
  shows "records_owned ls ss D"
  using assms by (auto simp: records_owned_def memory_ok_def owned_def td_blocks_def)

lemma sys_create:
  fixes s :: "'o lib"
  assumes at: "sys_at k n s cs ls ss D" and al: "allowed_in k ls ss (Create lib attr start_routine arg) s"
  shows "okay (mmap_fails k) (exec k n (Create lib attr start_routine arg) s) (sys_inv k n)"
proof -
  let ?s = "lib_ts s" and ?h = "tds (proc (lib_ts s))"
  note rec = sys_atD(8) [OF at] and lst = sys_atD(2) [OF at] and n = sys_atD(4) [OF at]
  obtain real stack0 sz where al': "lib_count s \<le> MAX_THREAD_COUNT" "attr_works lib attr real stack0 sz"
    "\<forall>ra td. fst (orig_pthread_create lib ra td) = 0" using al by auto
  have count: "g_thread_count (wrapped s) \<le> MAX_THREAD_COUNT" using al'(1) by (simp add: wrapped_def)
  let ?Q = "\<lambda>((ret :: int, thread :: size_t, td), s'). ret = 0 \<and> g_thread_count s' = g_thread_count (wrapped s) + 1 \<and>
    (\<exists>t stack. lists (ps s') (td # ls) ss \<and> td \<notin> set ls \<union> set ss \<and> tds (ps s') = ?h(td \<mapsto> t) \<and>
       new_thread n start_routine arg stack (stack0 = 0) td t D \<and>
       alloc_ready k (mem (ps s')) (set (td_blocks (of_int n * 8) STACKSIZE td t) \<union> D))"
  have "okay (mmap_fails k) (pthread_create False k lib n attr start_routine arg (wrapped s)) ?Q"
    using pthread_create_correct [of "wrapped s", OF _ _ _ n al'(2) count al'(3)] lst sys_atD(3) [OF at]
      records_owned_memory [OF sys_atD(7) [OF at]] by (simp add: wrapped_def)
  from okay_conjI [OF this, of "\<lambda>(r, w). global_timestamp (ps w) = global_timestamp (proc ?s)"]
  have "okay (mmap_fails k) (pthread_create False k lib n attr start_routine arg (wrapped s))
      (\<lambda>r. ?Q r \<and> (\<lambda>(r, w). global_timestamp (ps w) = global_timestamp (proc ?s)) r)"
    using pthread_create_timestamp [OF _ count] by (fastforce simp: wrapped_def)
  then show ?thesis unfolding exec.simps
  proof (rule okay_bindE)
    fix r :: "(int \<times> size_t \<times> size_t) \<times> 'o wrap_state"
    assume Q: "?Q r \<and> (\<lambda>(r, w). global_timestamp (ps w) = global_timestamp (proc ?s)) r"
    obtain ret thread td w where r: "r = ((ret, thread, td), w)" by (metis prod.collapse)
    obtain t stack where c: "g_thread_count w = g_thread_count (wrapped s) + 1" "global_timestamp (ps w) = global_timestamp (proc ?s)"
      "lists (ps w) (td # ls) ss" "td \<notin> set ls \<union> set ss" "tds (ps w) = ?h(td \<mapsto> t)"
      "new_thread n start_routine arg stack (stack0 = 0) td t D"
      "alloc_ready k (mem (ps w)) (set (td_blocks (of_int n * 8) STACKSIZE td t) \<union> D)"
      using Q unfolding r by auto
    let ?D = "set (td_blocks (of_int n * 8) STACKSIZE td t) \<union> D"
    have t: "ref_count t = 1" "\<not> is_active t" "q_list (ptr_list t) = []" "capacity (ptr_list t) = of_int n"
      "idx_head (ptr_list t) = 0" "q_ok (ptr_list t)" "local_timestamp t = 0" using c(6) by (simp_all add: new_thread_def)
    have live: "q_live (ptr_list t)" "\<not> TIMESTAMP_IS_ACTIVE (local_timestamp t)"
      using t(4,6,7) ptrs_ok_unat [OF n] ptrs_ok_bounds(1) [OF n] by (simp_all add: q_live_def q_ok_def TIMESTAMP_IS_ACTIVE_def)
    have "(\<lambda>c. (c, working_buffer_sz (g_tsdata ?s))) ` set cs \<subseteq> ?D"
      using sys_atD(1) [OF at] by (auto simp: ts_inv_def storage_inv_def)
    then have "ts_inv k (?s\<lparr>proc := ps w\<rparr>) cs (td # ls) ss ?D"
    proof (rule ts_inv_proc [OF sys_atD(1) [OF at] c(3,7)])
      fix u assume "u \<in> set (td # ls)"
      then show "\<exists>t. tds (ps w) u = Some t \<and> q_live (ptr_list t) \<and> \<not> TIMESTAMP_IS_ACTIVE (local_timestamp t)"
        using live live_record [OF sys_atD(1) [OF at], of u] c(4) by (cases "u = td") (auto simp: c(5))
    qed
    moreover have "memory_ok n (working_buffer_sz (g_tsdata ?s)) cs (tds (ps w)) ((td # ls) @ ss) ?D"
      using memory_ok_add [OF sys_atD(7) [OF at] _ n c(6)] c(4) by (simp add: c(5))
    moreover have "records_ok n (length (collected s)) (tds (ps w)) (td # ls) ss"
      unfolding c(5) by (rule records_ok_add [OF rec c(4) n t(1-5)])
    moreover have "pending (?s\<lparr>proc := ps w\<rparr>) cs (td # ls) = pending ?s cs ls"
    proof -
      have "queued (?h(td \<mapsto> t)) ls = queued ?h ls" by (rule queued_cong) (use c(4) in auto)
      then show ?thesis by (simp add: pending_def c(5) queued_def td_addrs_def t(3))
    qed
    ultimately have "sys_at k n (unwrapped w s) cs (td # ls) ss ?D"
      using sys_atD(4-6,9) [OF at] c(1,2) by (simp add: sys_at_def unwrapped_def wrapped_def)
    then show "okay (mmap_fails k) (case r of (_, w) \<Rightarrow> Inr (unwrapped w s)) (sys_inv k n)"
      by (auto simp: r sys_inv_def)
  qed
qed

text \<open>All calls together.\<close>

lemma exec_keeps:
  assumes "sys_inv k n s" and "allowed k call s"
  shows "okay (mmap_fails k) (exec k n call s) (sys_inv k n)"
proof -
  obtain cs ls ss D where at: "sys_at k n s cs ls ss D" using assms(1) by (auto simp: sys_inv_def)
  have al: "allowed_in k ls ss call s" by (rule allowed_lists [OF assms(2) sys_atD(2) [OF at]])
  have inv: "returns m (\<lambda>s'. sys_at k n s' cs' ls' ss' D') \<Longrightarrow> okay (mmap_fails k) m (sys_inv k n)" for m cs' ls' ss' D'
    by (rule okayI, erule returns_mono) (auto simp: sys_inv_def)
  show ?thesis
  proof (cases call)
    case (Collect w td ptr)
    then show ?thesis using sys_collect [OF at] al by simp
  next
    case (Register td addr sz)
    then show ?thesis using inv [OF sys_register [OF at, of td addr sz]] al by simp
  next
    case (Create lib attr start_routine arg)
    then show ?thesis using sys_create [OF at] al by simp
  next
    case (Start td sp thread)
    then show ?thesis using inv [OF sys_start [OF at]] al by simp
  next
    case (Exit td)
    then show ?thesis using inv [OF sys_exit [OF at]] al by simp
  next
    case (Join lib tid)
    then obtain ss' D' where "returns (exec k n call s) (\<lambda>s'. sys_at k n s' cs ls ss' D')"
      using sys_join [OF at, of lib tid] al by blast
    then show ?thesis by (rule inv)
  qed
qed

subsection \<open>The start of a program\<close>

definition proc_init :: "'o proc_state \<Rightarrow> 'o proc_state" where
  "proc_init p = p\<lparr>thread_list_head := 0\<rparr>"

text \<open>
  The initial values of the static variables; \<open>st\<close> is the state of the kernel. Then the constructors run: \<open>val\<close> is
  the value of the environment variable, and the first component of the result is \<^verbatim>\<open>g_threadscan_ptrs_per_thread\<close>.
\<close>

definition loaded :: "'o \<Rightarrow> 'o lib" where
  "loaded st =
     \<lparr>lib_ts =
        \<lparr>g_tsdata = \<lparr>max_ptrs = 0, n_addrs = 0, buf_addrs = 0, n_scan_map = 0, buf_scan_map = 0, working_buffer_sz = 0,
           offset_list = [0, 0], storage = 0\<rparr>,
         self_stacks_searched = 1, bufs = Map.empty,
         proc = \<lparr>tds = Map.empty, thread_list_head = 1, td_staged_to_free = 0, global_timestamp = 1, mem = alloc_init st\<rparr>,
         freed = []\<rparr>,
      lib_count = 1, collected = []\<rparr>"

definition constructors :: "string option \<Rightarrow> 'o lib \<Rightarrow> int \<times> 'o lib" where
  "constructors val s =
     (let n = fst (env_init val); t = lib_ts s in
      (n, s\<lparr>lib_ts := t\<lparr>g_tsdata := register_signal_handlers n (g_tsdata t), proc := proc_init (proc t)\<rparr>\<rparr>))"

text \<open>The library when the program's own \<^verbatim>\<open>main\<close> begins.\<close>

definition start_program ::
  "'o kernel \<Rightarrow> string option \<Rightarrow> string option \<Rightarrow> size_t \<Rightarrow> size_t \<Rightarrow> size_t \<Rightarrow> size_t \<Rightarrow> size_t \<Rightarrow> 'o \<Rightarrow> 'o lib res" where
  "start_program k val maps addr thunk args_at sp self_id st =
     (let (n, s) = constructors val (loaded st) in
      bindE (main_replacement False k n maps addr thunk args_at sp self_id (wrapped s)) (\<lambda>(td, w).
      Inr (unwrapped w s)))"

lemma constructed:
  assumes "kernel_ok k" and "constructors val (loaded st) = (n, s)"
  shows "n = fst (env_init val)" "ptrs_ok n" "sized (g_tsdata (lib_ts s))" "storage (g_tsdata (lib_ts s)) = 0"
    "lists (proc (lib_ts s)) [] []" "alloc_ready k (mem (proc (lib_ts s))) {}" "tds (proc (lib_ts s)) = Map.empty"
    "global_timestamp (proc (lib_ts s)) = 1" "lib_count s = 1" "collected s = []" "freed (lib_ts s) = []"
proof -
  show n: "n = fst (env_init val)" using assms(2) by (simp add: constructors_def Let_def)
  show "ptrs_ok n" unfolding n by (rule ptrs_ok_env_init)
  then show "sized (g_tsdata (lib_ts s))" "storage (g_tsdata (lib_ts s)) = 0"
    using assms(2) register_signal_handlers_sized [of n "g_tsdata (lib_ts (loaded st))"]
    by (auto simp: constructors_def Let_def loaded_def)
qed (use assms in \<open>auto simp: constructors_def Let_def loaded_def proc_init_def lists_def alloc_ready_def alloc_abs_init\<close>)

lemma start_keeps:
  fixes k :: "'o kernel"
  assumes "kernel_ok k" and "threadscan_proc_stack_from_addr False maps addr = Inr stack_data"
  shows "okay (mmap_fails k) (start_program k val maps addr thunk args_at sp self_id st) (sys_inv k (fst (env_init val)))"
proof -
  obtain n s where ns: "constructors val (loaded st) = (n, s)" by (metis prod.collapse)
  note c = constructed [OF assms(1) ns]
  let ?Q = "\<lambda>(td, w). \<exists>t. lists (ps w) [td] [] \<and> tds (ps w) = [td \<mapsto> t] \<and> g_thread_count w = 1 \<and>
      is_active t \<and> q_ok (ptr_list t) \<and> q_list (ptr_list t) = [] \<and>
      capacity (ptr_list t) = of_int n \<and> idx_head (ptr_list t) = 0 \<and> local_timestamp t = 0 \<and> ref_count t = 1 \<and>
      \<not> stack_is_ours t \<and> alloc_ready k (mem (ps w)) ({(ptr_list_e t, of_int n * 8), (td, MEMBLOCK_SIZE)} \<union> {})"
  have "okay (mmap_fails k) (main_replacement False k n maps addr thunk args_at sp self_id (wrapped s)) ?Q"
    by (rule okay_mono [OF main_replacement_correct [of "wrapped s" "[]" "[]" "{}" k n val False]])
       (use c assms(2) in \<open>auto simp: wrapped_def records_owned_def\<close>)
  from okay_conjI [OF this, of "\<lambda>(td, w). global_timestamp (ps w) = global_timestamp (proc (lib_ts s))"]
  have "okay (mmap_fails k) (main_replacement False k n maps addr thunk args_at sp self_id (wrapped s))
      (\<lambda>r. ?Q r \<and> (\<lambda>(td, w). global_timestamp (ps w) = global_timestamp (proc (lib_ts s))) r)"
    by (fastforce simp: wrapped_def dest: main_replacement_timestamp)
  then have "okay (mmap_fails k) (bindE (main_replacement False k n maps addr thunk args_at sp self_id (wrapped s))
      (\<lambda>(td, w). Inr (unwrapped w s))) (sys_inv k n)"
  proof (rule okay_bindE)
    fix r :: "size_t \<times> 'o wrap_state"
    assume Q: "?Q r \<and> (\<lambda>(td, w). global_timestamp (ps w) = global_timestamp (proc (lib_ts s))) r"
    obtain td w where r: "r = (td, w)" by (metis prod.collapse)
    obtain t where t: "lists (ps w) [td] []" "tds (ps w) = [td \<mapsto> t]" "g_thread_count w = 1" "is_active t" "q_ok (ptr_list t)"
      "q_list (ptr_list t) = []" "capacity (ptr_list t) = of_int n" "idx_head (ptr_list t) = 0" "local_timestamp t = 0"
      "ref_count t = 1" "\<not> stack_is_ours t"
      "alloc_ready k (mem (ps w)) ({(ptr_list_e t, of_int n * 8), (td, MEMBLOCK_SIZE)} \<union> {})"
      "global_timestamp (ps w) = 1"
      using Q c(8) unfolding r by auto
    let ?D = "{(ptr_list_e t, of_int n * 8), (td, MEMBLOCK_SIZE)}"
    have "unat (of_int n * 8 :: size_t) \<noteq> unat MEMBLOCK_SIZE"
      using ptrs_ok_buffer(1) [OF c(2)] ptrs_ok_bounds(1) [OF c(2)] by (simp add: MEMBLOCK_SIZE_def PAGESIZE_def)
    then have "memory_ok n W [] [td \<mapsto> t] ([td] @ []) ?D" for W
      using t(11) by (auto simp: memory_ok_def owned_def td_blocks_def)
    moreover have "ts_inv k ((lib_ts s)\<lparr>proc := ps w\<rparr>) [] [td] [] ?D"
      using c(3,4) t ptrs_ok_unat [OF c(2)] ptrs_ok_bounds(1) [OF c(2)]
      by (simp add: ts_inv_def storage_inv_def q_live_def q_ok_def lowered_def TIMESTAMP_IS_ACTIVE_def)
    moreover have "records_ok n 0 [td \<mapsto> t] [td] []"
      using t(4,6-8,10) ptrs_ok_bounds(1) [OF c(2)] by (simp add: records_ok_def queue_fits_def ids_ok_def named_def)
    ultimately have "sys_at k n (unwrapped w s) [] [td] [] ?D"
      using t(2,3,6,13) c(2,10,11)
      by (simp add: sys_at_def unwrapped_def TIMESTAMP_IS_ACTIVE_def accounts_def pending_def stored_def queued_def td_addrs_def)
    then show "okay (mmap_fails k) (case r of (td, w) \<Rightarrow> Inr (unwrapped w s)) (sys_inv k n)"
      by (auto simp: r sys_inv_def)
  qed
  then show ?thesis using c(1) by (simp add: start_program_def ns)
qed

subsection \<open>What is freed\<close>

text \<open>
  A call that frees addresses is a collect, and none of the words that the threads scanned in it refers to one
  of them. Nothing has been freed more often than it was collected.
\<close>

definition frees_unreferenced :: "'o call \<Rightarrow> 'o lib \<Rightarrow> 'o lib \<Rightarrow> bool" where
  "frees_unreferenced call s s' \<longleftrightarrow>
     (\<exists>fs. freed (lib_ts s') = freed (lib_ts s) @ fs \<and>
        (\<forall>x \<in> set fs. x \<noteq> 0 \<longrightarrow> (\<exists>w td p ls ss. call = Collect w td p \<and> lists (proc (lib_ts s)) ls ss \<and>
           x \<notin> PTR_MASK ` set (scan_words w td (tds (proc (lib_ts s))) ls)))) \<and>
     (\<forall>x. x \<noteq> 0 \<longrightarrow> count_list (freed (lib_ts s')) x \<le> count_list (collected s') x)"

lemma sys_inv_counts: "sys_inv k n s \<Longrightarrow> x \<noteq> 0 \<Longrightarrow> count_list (freed (lib_ts s)) x \<le> count_list (collected s) x"
  unfolding sys_inv_def using sys_atD(9) accountsD(3) by (metis add_leD1)

lemma freed_unwrapped [simp]: "freed (lib_ts (unwrapped w s)) = freed (lib_ts s)"
  by (simp add: unwrapped_def)

lemma others_free_nothing:
  "exec k n call s = Inr s' \<Longrightarrow> (\<And>w td p. call \<noteq> Collect w td p) \<Longrightarrow> freed (lib_ts s') = freed (lib_ts s)"
  by (cases call) (auto simp: bindE_Inr_iff threadscan_register_local_block_def on_proc_def)

lemma collect_frees_unreferenced:
  assumes at: "sys_at k n s cs ls ss D" and al: "allowed_in k ls ss (Collect w td ptr) s"
    and e: "exec k n (Collect w td ptr) s = Inr s'"
  shows "\<exists>fs. freed (lib_ts s') = freed (lib_ts s) @ fs \<and>
    (\<forall>x \<in> set fs. x \<noteq> 0 \<longrightarrow> x \<notin> PTR_MASK ` set (scan_words w td (tds (proc (lib_ts s))) ls))"
proof (cases "ptr = 0")
  case True
  then show ?thesis using e by (auto simp: threadscan_collect_def)
next
  case False
  let ?s = "lib_ts s"
  obtain t where t: "threadscan_collect False w td ptr ?s = Inr t" "lib_ts s' = t" using e by (auto simp: bindE_Inr_iff)
  have "okay (mmap_fails k) (threadscan_collect False w td ptr ?s) (\<lambda>s'.
      if has_room ?s td then s' = queued_ptr td ptr ?s
      else \<exists>cs' D'. reclaimed w td (queued_ptr td ptr ?s) cs ls ss D s' cs' D')"
    by (rule collect_outcome_sys [OF at al False])
  then have out: "if has_room ?s td then t = queued_ptr td ptr ?s
      else \<exists>cs' D'. reclaimed w td (queued_ptr td ptr ?s) cs ls ss D t cs' D'" by (simp add: t(1))
  show ?thesis
  proof (cases "has_room ?s td")
    case True
    then show ?thesis using out t(2) by auto
  next
    case full: False
    then obtain xs H where "freed t = freed ?s @ swept xs H"
      "H = all_hits xs (scan_words w td (tds (proc (queued_ptr td ptr ?s))) ls)"
      using out unfolding reclaimed_def by auto
    moreover have "scan_words w td (tds (proc (queued_ptr td ptr ?s))) ls = scan_words w td (tds (proc ?s)) ls"
      by (rule queued_ptr_correct(4) [OF sys_atD(1) [OF at] _ sys_may_push [OF at al False]]) (use al in simp)
    ultimately show ?thesis using swept_iff t(2) by auto
  qed
qed

lemma exec_frees:
  assumes "sys_inv k n s" and "allowed k call s" and "exec k n call s = Inr s'"
  shows "frees_unreferenced call s s'"
proof -
  obtain cs ls ss D where at: "sys_at k n s cs ls ss D" using assms(1) by (auto simp: sys_inv_def)
  have al: "allowed_in k ls ss call s" by (rule allowed_lists [OF assms(2) sys_atD(2) [OF at]])
  have "sys_inv k n s'" using exec_keeps [OF assms(1,2)] by (simp add: assms(3))
  then have counts: "\<forall>x. x \<noteq> 0 \<longrightarrow> count_list (freed (lib_ts s')) x \<le> count_list (collected s') x"
    using sys_inv_counts by blast
  show ?thesis
  proof (cases "\<exists>w td p. call = Collect w td p")
    case True
    then obtain w td p where call: "call = Collect w td p" by blast
    from collect_frees_unreferenced [OF at al [unfolded call] assms(3) [unfolded call]]
    obtain fs where fs: "freed (lib_ts s') = freed (lib_ts s) @ fs"
      "\<forall>x \<in> set fs. x \<noteq> 0 \<longrightarrow> x \<notin> PTR_MASK ` set (scan_words w td (tds (proc (lib_ts s))) ls)" by blast
    then have "\<forall>x \<in> set fs. x \<noteq> 0 \<longrightarrow> (\<exists>w td p ls ss. call = Collect w td p \<and> lists (proc (lib_ts s)) ls ss \<and>
        x \<notin> PTR_MASK ` set (scan_words w td (tds (proc (lib_ts s))) ls))"
      using call sys_atD(2) [OF at] by blast
    then show ?thesis using fs(1) counts unfolding frees_unreferenced_def by blast
  next
    case False
    then show ?thesis using others_free_nothing [OF assms(3)] counts by (auto simp: frees_unreferenced_def)
  qed
qed

subsection \<open>Every run of a program\<close>

text \<open>The states in which \<^verbatim>\<open>main\<close> may begin, with \<open>n\<close> pointers per thread.\<close>

definition started :: "'o kernel \<Rightarrow> int \<Rightarrow> 'o lib \<Rightarrow> bool" where
  "started k n s \<longleftrightarrow> kernel_ok k \<and>
     (\<exists>val maps addr thunk args_at sp self_id st stack_data. n = fst (env_init val) \<and>
        threadscan_proc_stack_from_addr False maps addr = Inr stack_data \<and>
        start_program k val maps addr thunk args_at sp self_id st = Inr s)"

interpretation library: step_invariant "started k n" "sys_step k n" "sys_inv k n" for k n
proof (unfold_locales, goal_cases)
  case (1 s)
  then obtain val maps addr thunk args_at sp self_id st stack_data where st: "kernel_ok k" "n = fst (env_init val)"
    "threadscan_proc_stack_from_addr False maps addr = Inr stack_data"
    "start_program k val maps addr thunk args_at sp self_id st = Inr s" unfolding started_def by blast
  show ?case using start_keeps [OF st(1,3), of val thunk args_at sp self_id st] by (simp add: st(2,4))
next
  case (2 s s')
  then obtain call where "allowed k call s" "exec k n call s = Inr s'" by (auto simp: sys_step_iff)
  then show ?case using exec_keeps [OF 2(1)] by fastforce
qed

text \<open>The state in which one thread has collected nothing yet.\<close>

definition example_lib :: "simple_os lib" where
  "example_lib =
     \<lparr>lib_ts = example_with (threadscan_queue_init (replicate 1024 0) 1024), lib_count = 1, collected = []\<rparr>"

lemma example_lib_inv: "sys_inv simple_kernel 1024 example_lib"
proof -
  have n: "ptrs_ok 1024" unfolding ptrs_ok_def by (rule exI [of _ 10]) simp
  note f = fresh_td_queue [OF n, of 0]
  let ?q = "threadscan_queue_init (replicate 1024 0) 1024"
  have q: "ptr_list (fresh_td 1024 e) = ?q" for e by (simp add: fresh_td_def)
  have live: "q_live ?q" "q_list ?q = []" "capacity ?q = 1024" "idx_head ?q = 0"
    using f by (simp_all add: q q_ok_def q_live_def)
  have t: "tds (proc (lib_ts example_lib)) = [0x5000 \<mapsto> example_td\<lparr>ptr_list := ?q\<rparr>]"
    by (simp add: example_lib_def example_with_def)
  have "memory_ok 1024 W [] (tds (proc (lib_ts example_lib))) ([0x5000] @ []) {(0x5000, 4096), (0x6000, 8192)}" for W
    by (auto simp: memory_ok_def owned_def t td_blocks_def example_td_def zero_td_def MEMBLOCK_SIZE_def PAGESIZE_def)
  moreover have "records_ok 1024 0 (tds (proc (lib_ts example_lib))) [0x5000] []"
    by (simp add: records_ok_def t queue_fits_def live example_td_def ids_ok_def named_def)
  moreover have "ts_inv simple_kernel (lib_ts example_lib) [] [0x5000] [] {(0x5000, 4096), (0x6000, 8192)}"
    using example_with_inv [OF live(1)] by (simp add: example_lib_def)
  moreover have "pending (lib_ts example_lib) [] [0x5000] = []"
    by (simp add: pending_def stored_def queued_def td_addrs_def t live)
  moreover have "\<not> TIMESTAMP_IS_ACTIVE (global_timestamp (proc (lib_ts example_lib)))"
    by (simp add: example_lib_def example_with_def example_proc_def TIMESTAMP_IS_ACTIVE_def)
  ultimately have "sys_at simple_kernel 1024 example_lib [] [0x5000] [] {(0x5000, 4096), (0x6000, 8192)}"
    using n unfolding sys_at_def by (simp add: example_lib_def example_with_def accounts_def)
  then show ?thesis by (auto simp: sys_inv_def)
qed

lemma example_allowed: "allowed simple_kernel (Collect example_world 0x5000 48) example_lib"
proof -
  have n: "ptrs_ok 1024" unfolding ptrs_ok_def by (rule exI [of _ 10]) simp
  have q: "ptr_list (fresh_td 1024 0) = threadscan_queue_init (replicate 1024 0) 1024" by (simp add: fresh_td_def)
  have "lists (proc (lib_ts example_lib)) [0x5000] []"
    by (simp add: lists_def example_lib_def example_with_def example_proc_def nxt_def example_td_def zero_td_def)
  moreover have "has_room (lib_ts example_lib) 0x5000"
    using fresh_td_queue(2,3) [OF n, of 0] by (simp add: has_room_def td_addrs_def example_lib_def example_with_def q)
  moreover have "may_collect 48 example_lib"
    by (simp add: may_collect_def example_lib_def example_with_def register_signal_handlers_def Let_def aligned4_def
        PTR_MASK_def MAX_THREAD_COUNT_def)
  ultimately show ?thesis by (auto simp: allowed_def example_world_def)
qed

subsection \<open>Properties\<close>

text \<open>
  (C1) Permitted calls do not go wrong. In every state that satisfies the invariant of the whole library, every call
  that the program is permitted to make returns, or ends the process because the kernel refuses memory;
  there is no other fault, no failed assertion and no endless loop. The invariant holds again, what was freed is not referenced
  from the scanned words, and nothing is freed more often than it was collected.
\<close>

theorem permitted_calls_succeed:
  assumes "sys_inv k n s" and "allowed k call s"
  shows "okay (mmap_fails k) (exec k n call s) (\<lambda>s'. sys_inv k n s' \<and> frees_unreferenced call s s')"
  by (rule okay_conjI [OF exec_keeps [OF assms] exec_frees [OF assms]])

theorem permitted_calls_succeed_witness:
  "okay (mmap_fails simple_kernel) (exec simple_kernel 1024 (Collect example_world 0x5000 48) example_lib)
    (\<lambda>s'. sys_inv simple_kernel 1024 s' \<and> frees_unreferenced (Collect example_world 0x5000 48) example_lib s')"
  by (rule permitted_calls_succeed [OF example_lib_inv example_allowed])

text \<open>
  (C2) Whole programs. After the constructors and the start of \<^verbatim>\<open>main\<close>, whatever permitted calls the threads make, in
  whatever order, threads being created, started, exiting and joined in between: no address has been freed more
  often than it was collected, and the next permitted call frees only what no scanned word refers to.
\<close>

theorem programs_free_safely:
  assumes "kernel_ok k" and "threadscan_proc_stack_from_addr False maps addr = Inr stack_data" and "n = fst (env_init val)"
  shows "okay (mmap_fails k) (start_program k val maps addr thunk args_at sp self_id st) (\<lambda>s0.
    \<forall>s call. (sys_step k n)\<^sup>*\<^sup>* s0 s \<and> allowed k call s \<longrightarrow>
      okay (mmap_fails k) (exec k n call s) (\<lambda>s'. sys_step k n s s' \<and> frees_unreferenced call s s'))"
proof (rule okay_mono [OF start_keeps [OF assms(1,2)]], intro allI impI, elim conjE)
  fix s0 s call
  assume "sys_inv k (fst (env_init val)) s0" and run: "(sys_step k n)\<^sup>*\<^sup>* s0 s" and al: "allowed k call s"
  then have inv: "sys_inv k n s" using library.inv_steps assms(3) by blast
  have ex: "okay (mmap_fails k) (exec k n call s) (sys_inv k n)" by (rule exec_keeps [OF inv al])
  show "okay (mmap_fails k) (exec k n call s) (\<lambda>s'. sys_step k n s s' \<and> frees_unreferenced call s s')"
    using okay_conjI [OF ex, of "\<lambda>s'. sys_step k n s s' \<and> frees_unreferenced call s s'"]
      exec_frees [OF inv al] sys_call [OF al] by (blast intro: okay_mono)
qed

theorem programs_free_safely_witness:
  "okay (mmap_fails simple_kernel)
    (start_program simple_kernel None (Some (printed example_map)) 0x7ffc10020ff8 0x400000 7 0x7ffc10020fe0 42 []) (\<lambda>s0.
    \<forall>s call. (sys_step simple_kernel 4096)\<^sup>*\<^sup>* s0 s \<and> allowed simple_kernel call s \<longrightarrow>
      okay (mmap_fails simple_kernel) (exec simple_kernel 4096 call s)
        (\<lambda>s'. sys_step simple_kernel 4096 s s' \<and> frees_unreferenced call s s'))"
  by (rule programs_free_safely [OF simple_kernel_ok example_map_stack]) code_simp

text \<open>
  (C5) No memory is lost. After any permitted calls the allocator has handed out exactly the blocks of the records of
  the threads that live or were not joined yet, of their queues, of the stacks that the library made for them,
  and of the stored addresses; these blocks do not overlap, and the thread count is the number of live threads.
\<close>

theorem programs_own_exactly:
  assumes "kernel_ok k" and "threadscan_proc_stack_from_addr False maps addr = Inr stack_data" and "n = fst (env_init val)"
  shows "okay (mmap_fails k) (start_program k val maps addr thunk args_at sp self_id st) (\<lambda>s0.
    \<forall>s. (sys_step k n)\<^sup>*\<^sup>* s0 s \<longrightarrow> (\<exists>cs ls ss B. lists (proc (lib_ts s)) ls ss \<and> lib_count s = int (length ls) \<and>
      path (st_next (bufs (lib_ts s))) (storage (g_tsdata (lib_ts s))) cs \<and>
      B = owned n (working_buffer_sz (g_tsdata (lib_ts s))) cs (tds (proc (lib_ts s))) (ls @ ss) \<and>
      distinct B \<and> (\<forall>r \<in> set B. \<forall>r' \<in> set B. r \<noteq> r' \<longrightarrow> apart r r') \<and> alloc_ready k (mem (proc (lib_ts s))) (set B)))"
proof (rule okay_mono [OF start_keeps [OF assms(1,2)]], intro allI impI)
  fix s0 s
  assume "sys_inv k (fst (env_init val)) s0" and "(sys_step k n)\<^sup>*\<^sup>* s0 s"
  then have "sys_inv k n s" using library.inv_steps assms(3) by blast
  then obtain cs ls ss D where at: "sys_at k n s cs ls ss D" by (auto simp: sys_inv_def)
  define B where "B = owned n (working_buffer_sz (g_tsdata (lib_ts s))) cs (tds (proc (lib_ts s))) (ls @ ss)"
  have D: "D = set B" "distinct B" using sys_atD(7) [OF at] by (simp_all add: memory_ok_def B_def)
  have "path (st_next (bufs (lib_ts s))) (storage (g_tsdata (lib_ts s))) cs"
    using sys_atD(1) [OF at] by (simp add: ts_inv_def storage_inv_def)
  moreover have "\<forall>r \<in> set B. \<forall>r' \<in> set B. r \<noteq> r' \<longrightarrow> apart r r'"
    using pages.owns_apart [OF sys_atD(3) [OF at]] D(1) by blast
  ultimately show "\<exists>cs ls ss B. lists (proc (lib_ts s)) ls ss \<and> lib_count s = int (length ls) \<and>
      path (st_next (bufs (lib_ts s))) (storage (g_tsdata (lib_ts s))) cs \<and>
      B = owned n (working_buffer_sz (g_tsdata (lib_ts s))) cs (tds (proc (lib_ts s))) (ls @ ss) \<and>
      distinct B \<and> (\<forall>r \<in> set B. \<forall>r' \<in> set B. r \<noteq> r' \<longrightarrow> apart r r') \<and> alloc_ready k (mem (proc (lib_ts s))) (set B)"
    using sys_atD(2,3,6) [OF at] D B_def by blast
qed

theorem programs_own_exactly_witness:
  "okay (mmap_fails simple_kernel)
    (start_program simple_kernel None (Some (printed example_map)) 0x7ffc10020ff8 0x400000 7 0x7ffc10020fe0 42 []) (\<lambda>s0.
    \<forall>s. (sys_step simple_kernel 4096)\<^sup>*\<^sup>* s0 s \<longrightarrow> (\<exists>cs ls ss B. lists (proc (lib_ts s)) ls ss \<and> lib_count s = int (length ls) \<and>
      path (st_next (bufs (lib_ts s))) (storage (g_tsdata (lib_ts s))) cs \<and>
      B = owned 4096 (working_buffer_sz (g_tsdata (lib_ts s))) cs (tds (proc (lib_ts s))) (ls @ ss) \<and>
      distinct B \<and> (\<forall>r \<in> set B. \<forall>r' \<in> set B. r \<noteq> r' \<longrightarrow> apart r r') \<and>
      alloc_ready simple_kernel (mem (proc (lib_ts s))) (set B)))"
  by (rule programs_own_exactly [OF simple_kernel_ok example_map_stack]) code_simp

end
