(* ===== verification/Spec2Isabelle.thy ===== *)
theory Spec2Isabelle
  imports TS_Prelude TS_Sort TS_Env TS_Queue TS_Search TS_Alloc TS_Thread TS_Reclaim TS_Collect TS_Procmap TS_Wrappers TS_Steps TS_Lock TS_Marking TS_Shared TS_Parallel TS_Storage TS_Local TS_System
begin

text \<open>
  ThreadScan: a library that frees memory removed from concurrent data structures once no thread
  holds a reference to it.

  \<^bold>\<open>The program.\<close> A thread passes an address it has unlinked to \<^verbatim>\<open>threadscan_collect\<close>, which appends
  it to the thread's own circular queue. When the queue is full, the thread becomes the reclaimer: it
  takes the reclaimer lock (a timestamp with an active bit), gathers the addresses of all threads in one working
  buffer, sorts them, signals all other threads, and every thread scans its own stack and its registered local block
  for words that are one of the addresses, marking those it finds in their low bit. Unmarked
  addresses are freed, marked ones are stored for the next round. The library hooks into a program by
  wrapping \<^verbatim>\<open>pthread_create\<close>, \<^verbatim>\<open>pthread_exit\<close>, \<^verbatim>\<open>pthread_join\<close> and \<^verbatim>\<open>main\<close>, keeps a record of each thread,
  and has a page allocator of its own, since it may not call the one it is freeing into.

  \<^bold>\<open>How C is rendered.\<close> \<open>TS_Prelude\<close> holds the common vocabulary. Pointers and \<^verbatim>\<open>size_t\<close> are 64-bit words that
  wrap; an \<^verbatim>\<open>int\<close> is an integer, converted to 32 bits where the value can leave its range. A
  computation returns \<open>Inr\<close> of its result, or \<open>Inl\<close> of what stopped the process: \<^verbatim>\<open>threadscan_fatal\<close>, a failed
  assertion (the flag \<open>dbg\<close> tells debug builds from release builds), an access outside every object, or a loop
  that does not end. Arrays are lists behind the checked accesses \<open>rd\<close> and \<open>wr\<close>; records that are reached by
  pointers live in partial maps from addresses. Loops are recursive functions with a measure where they
  always end, and \<open>loopE\<close> otherwise, for which going round for ever is the outcome \<open>Hang\<close>: there is no fuel
  in the development, and \<open>returns c P\<close> states that \<open>c\<close> ends without a fault and with a result in \<open>P\<close>. \<open>okay F c P\<close>
  allows in addition the faults in \<open>F\<close> (a kernel that refuses memory ends the process).

  \<^bold>\<open>Components.\<close>
  \<^item> \<open>TS_Sort\<close> (\<^verbatim>\<open>util.c\<close>): quicksort with insertion sort below a threshold, and the shuffle of the leftovers.
    The sort equals the library's sort on lists.
  \<^item> \<open>TS_Env\<close> (\<^verbatim>\<open>env.c\<close>): the number of pointers per thread, from an environment variable with \<^verbatim>\<open>atoi\<close>, clamping and a
    rounding to a power of two by bit operations.
  \<^item> \<open>TS_Queue\<close> (\<^verbatim>\<open>queue.c\<close>): the circular queue as a record. Its contents are \<open>q_list\<close>; \<open>fifo_queue\<close> is the
    interface that the clients use, interpreted on the operations of the code.
  \<^item> \<open>TS_Search\<close> (\<^verbatim>\<open>threadscan.c\<close>, from \<^verbatim>\<open>PTR_MASK\<close> to \<^verbatim>\<open>handle_unreferenced_ptrs\<close>): the scan map, the two-level
    search, the marking scan of a range, the sweep. \<open>marking xs S a\<close> says that buffer \<open>a\<close> holds the addresses \<open>xs\<close>
    with those at the indices \<open>S\<close> marked.
  \<^item> \<open>TS_Alloc\<close> (\<^verbatim>\<open>alloc.c\<close>): the ring of metadata nodes sorted by address, the free list, and the allocator
    on top. \<open>alloc_ready k s D\<close> abstracts a state to the set \<open>D\<close> of blocks that are handed out; \<open>page_allocator\<close>
    is the interface over that abstraction.
  \<^item> \<open>TS_Thread\<close> (\<^verbatim>\<open>util.c\<close>, \<^verbatim>\<open>proc.c\<close>, \<^verbatim>\<open>thread.c\<close>): thread records, the list of live threads, the list of exited ones,
    reference counts, signalling, and the functions of the reclaimer lock as single steps. \<open>lists\<close> is the
    shape of the two lists.
  \<^item> \<open>TS_Reclaim\<close> and \<open>TS_Collect\<close> (\<^verbatim>\<open>threadscan.c\<close>): \<^verbatim>\<open>threadscan_reclaim\<close>, \<^verbatim>\<open>threadscan_collect\<close> and all they call,
    composed as the code composes them. \<open>ts_inv\<close> is the invariant between two calls, \<open>pending\<close> the addresses under
    reclamation; the lemmas follow the phases: gathering, scanning, sweeping, storing.
  \<^item> \<open>TS_Procmap\<close> (\<^verbatim>\<open>proc.c\<close>): the reader of \<^verbatim>\<open>/proc/self/maps\<close>, with the part of \<^verbatim>\<open>fscanf\<close> that it uses.
  \<^item> \<open>TS_Wrappers\<close> (\<^verbatim>\<open>wrappers.c\<close>): the wrapped functions over the components above, and the start of a program.
  \<^item> \<open>TS_System\<close>: the library as a whole. \<open>loaded\<close> and \<open>constructors\<close> are the state before \<^verbatim>\<open>main\<close> (\<^verbatim>\<open>proc_init\<close> of
    \<^verbatim>\<open>proc.c\<close> among them), \<open>exec\<close> is one call of the program, over the definitions above. \<open>allowed\<close> is what a program has to
    respect: an address is collected once, not more are outstanding than the working buffer holds, identifiers
    of threads are unique, and a thread that may have to reclaim has a stack that can be read. \<open>sys_inv\<close> is the invariant:
    that of the reclamation, the blocks that each thread and each stored buffer own, the thread count, and the
    accounts of collected, pending and freed addresses. It holds when \<^verbatim>\<open>main\<close> begins and every permitted call keeps it.

  \<^bold>\<open>Threads.\<close> \<open>TS_Steps\<close> has reachable states and, as locales, the laws of invariants (\<open>step_invariant\<close>), progress
  (\<open>step_progress\<close>) and termination (\<open>step_termination\<close>) of step relations. Four components are step relations in which
  the accesses of all threads to shared memory interleave freely:
  \<^item> \<open>TS_Lock\<close> (\<^verbatim>\<open>thread.c\<close>, \<^verbatim>\<open>threadscan_proc_wait_for_timestamp\<close>): the timestamps. One reclaimer at a time, no helper
    of an earlier reclamation is left when one begins, no deadlock. The functions of \<open>TS_Thread\<close> are runs of these steps.
  \<^item> \<open>TS_Marking\<close>: the scan, as programs of single reads and writes of the working buffer. It marks exactly what is
    referenced, without a fault, and ends, in every order. Alone, a program does what the function of
    \<open>TS_Search\<close> does.
  \<^item> \<open>TS_Shared\<close>: the queue, its owner pushing while the reclaimer pops.
  \<^item> \<open>TS_Storage\<close> (\<^verbatim>\<open>store_remaining_addrs\<close>, \<^verbatim>\<open>generate_working_pointers_list\<close>): the lock-free list of stored addresses, pushed with
    compare-and-swap and taken as a whole. No address is lost or gathered twice, also when a block comes back at the
    address of an earlier one.
  Where the same code is also a function of another theory, the function is shown to be a run of the steps
  (\<open>lock_functions_are_runs\<close>, \<open>queue_functions_are_runs\<close>, \<open>storage_functions_are_runs\<close>; \<open>run_search_range\<close> for the scan).
  \<open>TS_Parallel\<close> puts the second and the sequential reclamation together: the handlers of \<open>do_reclaim\<close> may run at the same time.
  \<open>TS_Local\<close> takes \<^verbatim>\<open>threadscan_register_local_block\<close> apart into its two stores, with a scan of the same thread between them.

  \<^bold>\<open>Bounds.\<close> The timestamps of \<open>TS_Lock\<close> count reclamations in 63 bits, and the properties hold for the first
  \<open>2 ^ 63 - 2\<close> of them; the queue properties that compare the absolute indices hold until these have counted to \<open>2 ^ 64\<close>.
  The working buffer is large enough for every configuration (\<open>working_buffer_fits\<close>) as long as the stored leftovers
  fit; when several reclaimers have stored theirs they need not, and the process ends (\<open>gather_overflow_fatal\<close>).
  \<open>TS_System\<close> is about the first \<open>2 ^ 62\<close> collects, about release builds (a stored address can become zero, on which a debug build
  aborts later) and about programs that keep within the working buffer; its calls are single steps, so of what happens inside
  a call while others run it has only what the step relations show.
  In \<open>TS_Storage\<close> a gathering thread has room for all it finds.
  The capacities and sizes are those of the code; no number was made smaller for the proofs.

  \<^bold>\<open>Parameters.\<close> Code that is not part of the repository is an argument of the definitions: the kernel's \<^verbatim>\<open>mmap\<close> and
  \<^verbatim>\<open>munmap\<close> (\<open>kernel_ok\<close> is what is documented about them), \<^verbatim>\<open>pthread_kill\<close>, the pthread functions behind the wrappers,
  \<^verbatim>\<open>dlsym\<close>, \<^verbatim>\<open>__libc_start_main\<close>, the content of the process map, the memory of the scanned program and the
  stack pointers, and the order in which signalled threads answer.

  \<^bold>\<open>Not modelled.\<close> The printing of diagnostics; \<^verbatim>\<open>mprotect\<close> and \<^verbatim>\<open>signal\<close>, whose results the code only reports;
  opening and closing of \<^verbatim>\<open>/proc/self/maps\<close>; the mutexes of the lists and of the allocator, whose critical
  sections are single steps; the stack frame that \<^verbatim>\<open>threadscan_thread_base\<close> reserves with \<^verbatim>\<open>alloca\<close>. Memory is
  sequentially consistent in the step relations, so they say nothing about the fences of the code.
\<close>

end
